(* ===== verification/DLock_Prelude.thy ===== *)
theory DLock_Prelude
  imports Main "HOL-Library.Word"
begin

section \<open>Shared types, errors and generic lemmas\<close>

text \<open>
  This theory holds what every component of the development shares: the machine integers of
  the Go sources, the error values the packages declare, the run-time panics, and the
  generic lemmas on lists, maps and words the component proofs use.

  Conventions. A Go \<^verbatim>\<open>string\<close> and a Go \<^verbatim>\<open>[]byte\<close> are both sequences of bytes, here
  \<open>bytes = char list\<close>; where the code distinguishes a nil slice from an empty one the type is
  \<open>bytes option\<close>. A method that returns \<^verbatim>\<open>error\<close> returns a \<open>go_error option\<close> (\<open>None\<close> is
  \<^verbatim>\<open>nil\<close>), one that returns \<^verbatim>\<open>(T, error)\<close> returns a \<open>go_error + 'a\<close>. A method with a
  mutable receiver also returns the new receiver, on the error branches too.
\<close>

subsection \<open>Machine integers and byte strings\<close>

type_synonym u32 = "32 word"
type_synonym u64 = "64 word"
type_synonym i64 = "64 word"
type_synonym bytes = "char list"

text \<open>
  An \<^verbatim>\<open>int64\<close> is a 64-bit word read in two's complement: addition wraps around as it does
  in Go, and the comparisons are the signed ones.
\<close>

definition i64_less :: "i64 \<Rightarrow> i64 \<Rightarrow> bool" where
  "i64_less a b \<longleftrightarrow> sint a < sint b"

definition i64_le :: "i64 \<Rightarrow> i64 \<Rightarrow> bool" where
  "i64_le a b \<longleftrightarrow> sint a \<le> sint b"

lemma i64_le_iff_not_less: "i64_le a b \<longleftrightarrow> \<not> i64_less b a"
  by (auto simp: i64_less_def i64_le_def)

lemma i64_less_imp_le: "i64_less a b \<Longrightarrow> i64_le a b"
  by (simp add: i64_less_def i64_le_def)

lemma i64_less_irrefl [simp]: "\<not> i64_less a a"
  by (simp add: i64_less_def)

lemma i64_less_asym: "i64_less a b \<Longrightarrow> \<not> i64_less b a"
  by (simp add: i64_less_def)

subsection \<open>Errors and panics\<close>

text \<open>
  One constructor for every error variable of the packages \<^verbatim>\<open>storage\<close> and \<^verbatim>\<open>node\<close>, then
  the errors of the Go library that the code receives, and the run-time panics. A panic is
  not an error value in Go: no \<^verbatim>\<open>if err != nil\<close> of the sources sees it. The model passes a
  \<open>GoPanic\<close> through every caller unchanged.
\<close>

datatype panic =
    NilDereference
  | IndexOutOfRange
  | NegativeLength
  | InvalidIntn

datatype (plugins only: code size) go_error =
    LogEntryContentDecodeError
  | LogEntryFastIndexError
  | InMemoryLogInsertError
  | InMemoryLogStoreError
  | InMemoryNoSpecificTerm
  | InMemoryLogEntryNotExistError
  | InMemoryStateMapCreateError
  | InMemoryStateMapKeywordError
  | InMemoryStateMapIndexTermError
  | InMemoryStateMapContentError
  | InMemoryStateMapKVFetchError
  | InMemoryStateMapDLockFetchError
  | InMemoryStateMapDLockNonceMisMatchError
  | InMemoryStateMapDeleteNoKeyError
  | InMemoryStateMapDLockInfoDecodeError
  | VolatileAcquirementInvalidSequenceError
  | VolatileAcquirementInfoFetchingError
  | VolatileAcquirementExpireError
  | EmptyDLockVolatileAcquirementError
  | AcquireDLockUnexpectedError
  | GrpcP2PServerDeadError
  | ReadConfigYamlError
  | ConstructLoggerError
  | InitContextError
  | ConfigFieldNotFoundError
  | ConfigEmptyError
  | ConfigPeerListError
  | NodeConfigNilValueError
  | NodeConfigIdZeroError
  | NodeConfigPeerNumberError
  | RecoverLogMemoryError
  | InitStateMapError
  | InitPeerListError
  | CliSrvChangeStateInternalError
  | CliSrvQueryStateInternalError
  | CliSrvChangeStateTimeoutError
  | CliSrvDeadError
  | CliSrvDeleteEmptyKeyValueError
  | CliSrvGetEmptyKeyValueError
  | CliSrvAcquireDLockInternalError
  | CliSrvQueryDLockInternalError
  | CliSrvReleaseDLockInternalError
  | CliSrvReleaseNonExistingDLockError
  | CliSrvQueryNonExistingDLockError
  | CliSrvRefreshDLockAcquirementBySequenceError
  | JsonError
  | YamlError
  | OsOpenError
  | ProtoError
  | RpcError
  | IoEOF
  | IoUnexpectedEOF
  | IoWriteError
  | ScanError
  | GoPanic panic

definition is_panic :: "go_error \<Rightarrow> bool" where
  "is_panic e \<longleftrightarrow> (case e of GoPanic _ \<Rightarrow> True | _ \<Rightarrow> False)"

text \<open>
  \<^verbatim>\<open>if err != nil { return ..., w }\<close>: an error becomes \<open>w\<close>, a panic stays a panic.
\<close>

definition replace_error :: "go_error \<Rightarrow> go_error \<Rightarrow> go_error" where
  "replace_error w e = (if is_panic e then e else w)"

lemma replace_error_simps [simp]:
  "replace_error w (GoPanic p) = GoPanic p"
  "\<not> is_panic e \<Longrightarrow> replace_error w e = w"
  by (simp_all add: replace_error_def is_panic_def)

subsection \<open>Collections of facts\<close>

named_theorems wf_intros \<open>well-formedness of the values the operations build\<close>
named_theorems frame_simps \<open>fields an operation does not write\<close>

subsection \<open>Lists\<close>

text \<open>\<^verbatim>\<open>strings.HasPrefix(s, p)\<close>.\<close>

definition has_prefix :: "bytes \<Rightarrow> bytes \<Rightarrow> bool" where
  "has_prefix s p \<longleftrightarrow> take (length p) s = p"

lemma has_prefix_append [simp]: "has_prefix (p @ s) p"
  by (simp add: has_prefix_def)

lemma has_prefix_trans: "has_prefix s p \<Longrightarrow> has_prefix p q \<Longrightarrow> has_prefix s q"
  unfolding has_prefix_def
  by (metis length_take take_take)

lemma takeWhile_append_stop:
  "(\<forall>x \<in> set xs. P x) \<Longrightarrow> ys = [] \<or> \<not> P (hd ys) \<Longrightarrow> takeWhile P (xs @ ys) = xs"
  by (induction xs) (auto simp: takeWhile_eq_Nil_iff)

lemma dropWhile_append_stop:
  "(\<forall>x \<in> set xs. P x) \<Longrightarrow> ys = [] \<or> \<not> P (hd ys) \<Longrightarrow> dropWhile P (xs @ ys) = ys"
  by (induction xs) (auto simp: dropWhile_eq_self_iff)

subsection \<open>Words as counters\<close>

lemma unat_Suc_no_wrap:
  assumes "(i :: 'a::len word) < b"
  shows "unat (i + 1) = Suc (unat i)"
proof -
  have "Suc (unat i) \<le> unat b"
    using assms by (simp add: word_less_nat_alt)
  also have "unat b < 2 ^ LENGTH('a)"
    by (rule unsigned_less)
  finally show ?thesis
    by (simp add: unat_word_ariths)
qed

lemma word_succ_le: "(i :: 'a::len word) < b \<Longrightarrow> i + 1 \<le> b"
  by (simp add: inc_le)

lemma word_less_succ: "(i :: 'a::len word) < b \<Longrightarrow> i < i + 1"
  by (simp add: word_less_nat_alt unat_Suc_no_wrap)

lemma word_less_plus_1: "(x :: 'a::len word) \<noteq> - 1 \<Longrightarrow> x < x + 1"
proof -
  assume "x \<noteq> - 1"
  then have "x < - 1" using word_order.not_eq_extremum by blast
  then show ?thesis by (rule word_less_succ)
qed

lemma unat_plus_1: "(x :: 'a::len word) \<noteq> - 1 \<Longrightarrow> unat (x + 1) = unat x + 1"
  using word_less_plus_1 [of x] unat_Suc_no_wrap [of x "- 1"] word_order.not_eq_extremum [of x] by simp

lemma of_nat_word_inj:
  assumes "unat (i :: 'a::len word) + k < 2 ^ LENGTH('a)" 
  shows "unat (i + of_nat k) = unat i + k"
  using assms by (simp add: unat_word_ariths(1) unsigned_of_nat take_bit_nat_eq_self take_bit_nat_def)

end
