(* ===== verification/Go_Json.thy ===== *)
theory Go_Json
  imports DLock_Prelude
begin

section \<open>The part of encoding/json the storage package uses\<close>

text \<open>
  The package \<^verbatim>\<open>storage\<close> keeps commands and lock states as JSON documents, written with
  \<^verbatim>\<open>json.Marshal\<close> and read back with \<^verbatim>\<open>json.Unmarshal\<close>. This theory models the two
  functions on byte strings: UTF-8, the quoting of strings (HTML-safe, as \<^verbatim>\<open>Marshal\<close> does it),
  base64 for \<^verbatim>\<open>[]byte\<close>, decimal integers, the grammar of JSON values, and how a JSON object
  is stored into a struct (field names compared without regard to case, unknown fields skipped,
  \<^verbatim>\<open>null\<close> a no-op, the last duplicate wins). The main results are the round trips: what is
  quoted, printed or encoded is read back unchanged.
\<close>

subsection \<open>UTF-8\<close>

abbreviation byte :: "char \<Rightarrow> nat" where
  "byte c \<equiv> of_char c"

definition cont_byte :: "char \<Rightarrow> bool" where
  "cont_byte c \<longleftrightarrow> 0x80 \<le> byte c \<and> byte c < 0xC0"

text \<open>Length announced by the first byte of a rune; 0 for a byte that cannot start one.\<close>

definition rune_len :: "nat \<Rightarrow> nat" where
  "rune_len b =
     (if b < 0x80 then 1 else if b < 0xC2 then 0 else if b < 0xE0 then 2
      else if b < 0xF0 then 3 else if b < 0xF5 then 4 else 0)"

definition second_byte_ok :: "nat \<Rightarrow> char \<Rightarrow> bool" where
  "second_byte_ok b c \<longleftrightarrow>
     (if b = 0xE0 then 0xA0 \<le> byte c else if b = 0xED then byte c < 0xA0
      else if b = 0xF0 then 0x90 \<le> byte c else if b = 0xF4 then byte c < 0x90 else True)"

definition tail_ok :: "nat \<Rightarrow> bytes \<Rightarrow> bool" where
  "tail_ok b ts \<longleftrightarrow>
     list_all cont_byte ts \<and> (case ts of [] \<Rightarrow> True | c # _ \<Rightarrow> second_byte_ok b c)"

text \<open>\<^verbatim>\<open>utf8.DecodeRune\<close>: the size of the rune at the front, or \<open>None\<close> for \<^verbatim>\<open>(RuneError, 1)\<close>.\<close>

fun rune_size :: "bytes \<Rightarrow> nat option" where
  "rune_size [] = None"
| "rune_size (c # cs) =
     (let n = rune_len (byte c); ts = take (n - 1) cs
      in if n \<noteq> 0 \<and> length ts = n - 1 \<and> tail_ok (byte c) ts then Some n else None)"

lemma rune_size_bounds: "rune_size s = Some n \<Longrightarrow> 0 < n \<and> n \<le> length s"
  by (cases s) (auto simp: Let_def split: if_splits)

lemma rune_size_ascii [simp]: "byte c < 0x80 \<Longrightarrow> rune_size (c # cs) = Some 1"
  by (simp add: rune_len_def tail_ok_def Let_def)

lemma rune_size_prefix: "rune_size s = Some n \<Longrightarrow> rune_size (take n s @ r) = Some n"
  by (cases s) (auto simp: Let_def take_Cons' split: if_splits)

function valid_utf8 :: "bytes \<Rightarrow> bool" where
  "valid_utf8 s =
     (s = [] \<or> (case rune_size s of None \<Rightarrow> False | Some n \<Rightarrow> valid_utf8 (drop n s)))"
  by pat_completeness auto
termination
  by (relation "measure length") (auto dest: rune_size_bounds)

declare valid_utf8.simps [simp del]
declare rune_size.simps(2) [simp del]

lemma valid_utf8_Nil [simp]: "valid_utf8 []"
  by (simp add: valid_utf8.simps)

lemma valid_utf8_Cons_ascii:
  "byte c < 0x80 \<Longrightarrow> valid_utf8 (c # cs) \<longleftrightarrow> valid_utf8 cs"
  by (subst valid_utf8.simps) simp

lemma valid_utf8_rune:
  "rune_size s = Some n \<Longrightarrow> valid_utf8 (take n s @ r) \<longleftrightarrow> valid_utf8 r"
  using rune_size_prefix [of s n r] rune_size_bounds [of s n]
  by (subst valid_utf8.simps) auto

lemma valid_utf8_append: "valid_utf8 a \<Longrightarrow> valid_utf8 b \<Longrightarrow> valid_utf8 (a @ b)"
proof (induction a rule: valid_utf8.induct)
  case (1 s)
  show ?case
  proof (cases "s = []")
    case False
    with "1.prems"(1) obtain n where n: "rune_size s = Some n" "valid_utf8 (drop n s)"
      by (subst (asm) valid_utf8.simps) (auto split: option.splits)
    with 1 False have "valid_utf8 (drop n s @ b)" by simp
    with n(1) have "valid_utf8 (take n s @ (drop n s @ b))"
      by (simp only: valid_utf8_rune)
    then show ?thesis by (simp only: append_assoc [symmetric] append_take_drop_id)
  qed (use "1.prems" in simp)
qed

text \<open>\<^verbatim>\<open>utf8.EncodeRune\<close>, for a code point outside the surrogate range.\<close>

definition utf8_enc :: "nat \<Rightarrow> bytes" where
  "utf8_enc n = map char_of
     (if n < 0x80 then [n]
      else if n < 0x800 then [0xC0 + n div 64, 0x80 + n mod 64]
      else if n < 0x10000 then [0xE0 + n div 4096, 0x80 + n div 64 mod 64, 0x80 + n mod 64]
      else [0xF0 + n div 262144, 0x80 + n div 4096 mod 64, 0x80 + n div 64 mod 64, 0x80 + n mod 64])"

definition replacement :: bytes where
  "replacement = [CHR 0xEF, CHR 0xBF, CHR 0xBD]"

lemma valid_replacement [simp]: "valid_utf8 replacement"
  by (simp add: replacement_def valid_utf8.simps rune_size.simps rune_len_def tail_ok_def
      cont_byte_def second_byte_ok_def Let_def)

lemmas rune_size_unfold = rune_size.simps(2) rune_len_def tail_ok_def cont_byte_def
  second_byte_ok_def Let_def

lemma rune_size2:
  "0xC2 \<le> a \<Longrightarrow> a < 0xE0 \<Longrightarrow> 0x80 \<le> b \<Longrightarrow> b < 0xC0 \<Longrightarrow>
   rune_size (map char_of [a, b :: nat]) = Some 2"
  by (simp add: rune_size_unfold)

lemma rune_size3:
  "0xE0 \<le> a \<Longrightarrow> a < 0xF0 \<Longrightarrow> 0x80 \<le> b \<Longrightarrow> b < 0xC0 \<Longrightarrow> 0x80 \<le> c \<Longrightarrow> c < 0xC0 \<Longrightarrow>
   (a = 0xE0 \<longrightarrow> 0xA0 \<le> b) \<Longrightarrow> (a = 0xED \<longrightarrow> b < 0xA0) \<Longrightarrow>
   rune_size (map char_of [a, b, c :: nat]) = Some 3"
  by (simp add: rune_size_unfold)

lemma rune_size4:
  "0xF0 \<le> a \<Longrightarrow> a < 0xF5 \<Longrightarrow> 0x80 \<le> b \<Longrightarrow> b < 0xC0 \<Longrightarrow> 0x80 \<le> c \<Longrightarrow> c < 0xC0 \<Longrightarrow>
   0x80 \<le> d \<Longrightarrow> d < 0xC0 \<Longrightarrow> (a = 0xF0 \<longrightarrow> 0x90 \<le> b) \<Longrightarrow> (a = 0xF4 \<longrightarrow> b < 0x90) \<Longrightarrow>
   rune_size (map char_of [a, b, c, d :: nat]) = Some 4"
  by (simp add: rune_size_unfold)

lemma valid_utf8_whole: "rune_size s = Some (length s) \<Longrightarrow> valid_utf8 s"
  using valid_utf8_rune [of s "length s" "[]"] by simp

lemma div_mod_64: "(n :: nat) div m mod 64 = n div m - 64 * (n div (m * 64))"
  by (simp add: div_mult2_eq minus_mult_div_eq_mod)

lemma valid_utf8_enc:
  assumes "n < 0x110000" "n < 0xD800 \<or> 0xE000 \<le> n"
  shows "valid_utf8 (utf8_enc n)"
proof (rule valid_utf8_whole)
  consider "n < 0x80" | "0x80 \<le> n" "n < 0x800" | "0x800 \<le> n" "n < 0x10000" | "0x10000 \<le> n"
    by linarith
  then show "rune_size (utf8_enc n) = Some (length (utf8_enc n))"
  proof cases
    case 1
    then show ?thesis by (simp add: utf8_enc_def)
  next
    case 2
    have "rune_size (map char_of [0xC0 + n div 64, 0x80 + n mod 64]) = Some 2"
      by (rule rune_size2) (use 2 in auto)
    with 2 show ?thesis by (simp add: utf8_enc_def)
  next
    case 3
    have m: "n div 64 mod 64 = n div 64 - 64 * (n div 4096)" using div_mod_64 [of n 64] by simp
    have e0: "n div 4096 = 0 \<longrightarrow> 32 \<le> n div 64 mod 64" using 3 unfolding m by auto
    have ed: "n div 4096 = 13 \<longrightarrow> n div 64 mod 64 < 32" using assms(2) unfolding m by auto
    have "rune_size (map char_of [0xE0 + n div 4096, 0x80 + n div 64 mod 64, 0x80 + n mod 64]) = Some 3"
      by (rule rune_size3) (use 3 e0 ed in auto)
    with 3 show ?thesis by (simp add: utf8_enc_def)
  next
    case 4
    have m: "n div 4096 mod 64 = n div 4096 - 64 * (n div 262144)"
      using div_mod_64 [of n 4096] by simp
    have b: "n div 262144 < 5" using assms(1) by auto
    have f0: "n div 262144 = 0 \<longrightarrow> 16 \<le> n div 4096 mod 64" using 4 unfolding m by auto
    have f4: "n div 262144 = 4 \<longrightarrow> n div 4096 mod 64 < 16" using assms(1) unfolding m by auto
    have "rune_size (map char_of [0xF0 + n div 262144, 0x80 + n div 4096 mod 64,
        0x80 + n div 64 mod 64, 0x80 + n mod 64]) = Some 4"
      by (rule rune_size4) (use b f0 f4 in auto)
    with 4 show ?thesis by (simp add: utf8_enc_def)
  qed
qed

subsection \<open>Strings\<close>

abbreviation quote_char :: char where "quote_char \<equiv> CHR 0x22"
abbreviation backslash :: char where "backslash \<equiv> CHR 0x5C"

definition hex_digit :: "nat \<Rightarrow> char" where
  "hex_digit n = char_of (if n < 10 then 48 + n else 87 + n)"

definition hex_value :: "char \<Rightarrow> nat option" where
  "hex_value c =
     (let b = byte c in
      if 48 \<le> b \<and> b < 58 then Some (b - 48)
      else if 97 \<le> b \<and> b < 103 then Some (b - 87)
      else if 65 \<le> b \<and> b < 71 then Some (b - 55)
      else None)"

lemma hex_value_digit [simp]: "n < 16 \<Longrightarrow> hex_value (hex_digit n) = Some n"
  by (auto simp: hex_value_def hex_digit_def Let_def)

text \<open>How \<^verbatim>\<open>Marshal\<close> writes one byte below \<^verbatim>\<open>0x80\<close> of a string.\<close>

definition json_escape :: "char \<Rightarrow> bytes" where
  "json_escape c =
     (if c = backslash \<or> c = quote_char then [backslash, c]
      else if c = CHR 0x0A then [backslash, CHR ''n'']
      else if c = CHR 0x0D then [backslash, CHR ''r'']
      else if c = CHR 0x09 then [backslash, CHR ''t'']
      else if byte c < 0x20 \<or> c \<in> {CHR ''<'', CHR ''>'', CHR ''&''}
      then backslash # ''u00'' @ [hex_digit (byte c div 16), hex_digit (byte c mod 16)]
      else [c])"

text \<open>
  The body of a quoted string: an invalid byte becomes U+FFFD, the two line separators are
  escaped, every other rune is copied.
\<close>

function json_quote_body :: "bytes \<Rightarrow> bytes" where
  "json_quote_body [] = []"
| "json_quote_body (c # cs) =
     (if byte c < 0x80 then json_escape c @ json_quote_body cs
      else case rune_size (c # cs) of
        None \<Rightarrow> backslash # ''ufffd'' @ json_quote_body cs
      | Some n \<Rightarrow>
          (let r = take n (c # cs)
           in (if r = [CHR 0xE2, CHR 0x80, CHR 0xA8] then backslash # ''u2028''
               else if r = [CHR 0xE2, CHR 0x80, CHR 0xA9] then backslash # ''u2029''
               else r) @ json_quote_body (drop n (c # cs))))"
  by pat_completeness auto
termination
  by (relation "measure length") (auto dest: rune_size_bounds)

declare json_quote_body.simps(2) [simp del]

definition json_quote :: "bytes \<Rightarrow> bytes" where
  "json_quote s = quote_char # json_quote_body s @ [quote_char]"

text \<open>Four hexadecimal digits after \<^verbatim>\<open>\\u\<close>.\<close>

fun json_hex4 :: "bytes \<Rightarrow> (nat \<times> bytes) option" where
  "json_hex4 (a # b # c # d # r) =
     (case (hex_value a, hex_value b, hex_value c, hex_value d) of
        (Some w, Some x, Some y, Some z) \<Rightarrow> Some (((w * 16 + x) * 16 + y) * 16 + z, r)
      | _ \<Rightarrow> None)"
| "json_hex4 _ = None"

text \<open>
  What an escape stands for, after the backslash, and the rest of the input. A surrogate
  that is not followed by its partner becomes U+FFFD.
\<close>

definition json_unicode_escape :: "bytes \<Rightarrow> (bytes \<times> bytes) option" where
  "json_unicode_escape s =
     (case json_hex4 s of
        None \<Rightarrow> None
      | Some (u, r) \<Rightarrow>
          if 0xD800 \<le> u \<and> u < 0xE000 then
            (case (if u < 0xDC00 \<and> take 2 r = [backslash, CHR ''u''] then json_hex4 (drop 2 r) else None) of
               Some (v, r') \<Rightarrow>
                 if 0xDC00 \<le> v \<and> v < 0xE000
                 then Some (utf8_enc (0x10000 + (u - 0xD800) * 1024 + (v - 0xDC00)), r')
                 else Some (replacement, r)
             | None \<Rightarrow> Some (replacement, r))
          else Some (utf8_enc u, r))"

fun json_unescape :: "bytes \<Rightarrow> (bytes \<times> bytes) option" where
  "json_unescape [] = None"
| "json_unescape (e # r) =
     (if e = quote_char \<or> e = backslash \<or> e = CHR ''/'' then Some ([e], r)
      else if e = CHR ''b'' then Some ([CHR 0x08], r)
      else if e = CHR ''f'' then Some ([CHR 0x0C], r)
      else if e = CHR ''n'' then Some ([CHR 0x0A], r)
      else if e = CHR ''r'' then Some ([CHR 0x0D], r)
      else if e = CHR ''t'' then Some ([CHR 0x09], r)
      else if e = CHR ''u'' then json_unicode_escape r
      else None)"

lemma json_hex4_length: "json_hex4 s = Some (u, r) \<Longrightarrow> length r < length s \<and> u < 0x10000"
  by (induction s rule: json_hex4.induct)
     (auto simp: hex_value_def Let_def split: option.splits if_splits)

lemma json_unicode_escape_length:
  "json_unicode_escape s = Some (t, r) \<Longrightarrow> length r < length s"
  by (fastforce simp: json_unicode_escape_def dest: json_hex4_length split: option.splits if_splits)

lemma json_unescape_length: "json_unescape s = Some (t, r) \<Longrightarrow> length r < length s"
  by (cases s) (auto split: if_splits dest: json_unicode_escape_length)

text \<open>The body of a string literal up to its closing quote, and the rest of the input.\<close>

function json_str :: "bytes \<Rightarrow> (bytes \<times> bytes) option" where
  "json_str [] = None"
| "json_str (c # cs) =
     (if c = quote_char then Some ([], cs)
      else if c = backslash then
        (case json_unescape cs of
           None \<Rightarrow> None
         | Some (t, r) \<Rightarrow> map_option (\<lambda>(s, r'). (t @ s, r')) (json_str r))
      else if byte c < 0x20 then None
      else case rune_size (c # cs) of
        None \<Rightarrow> map_option (\<lambda>(s, r'). (replacement @ s, r')) (json_str cs)
      | Some n \<Rightarrow> map_option (\<lambda>(s, r'). (take n (c # cs) @ s, r')) (json_str (drop n (c # cs))))"
  by pat_completeness auto
termination
  by (relation "measure length") (auto dest: json_unescape_length rune_size_bounds less_SucI)

declare json_str.simps(2) [simp del]

lemma json_str_quote [simp]: "json_str (quote_char # r) = Some ([], r)"
  by (simp add: json_str.simps)

text \<open>What \<^verbatim>\<open>Unmarshal\<close> stores in a string is always valid UTF-8.\<close>

lemma json_unicode_escape_valid:
  assumes "json_unicode_escape s = Some (t, r)"
  shows "valid_utf8 t"
proof -
  obtain u r1 where u: "json_hex4 s = Some (u, r1)" "u < 0x10000"
    using assms by (auto simp: json_unicode_escape_def split: option.splits dest: json_hex4_length)
  show ?thesis
  proof (cases "0xD800 \<le> u \<and> u < 0xE000")
    case False
    with u assms show ?thesis
      by (auto simp: json_unicode_escape_def split: if_splits intro!: valid_utf8_enc)
  next
    case True
    with u assms show ?thesis
      by (auto simp: json_unicode_escape_def split: if_splits option.splits intro!: valid_utf8_enc
          dest!: json_hex4_length)
  qed
qed

lemma json_unescape_valid: "json_unescape s = Some (t, r) \<Longrightarrow> valid_utf8 t"
  by (cases s) (auto split: if_splits simp: valid_utf8_Cons_ascii dest: json_unicode_escape_valid)

lemma json_str_valid: "json_str s = Some (t, r) \<Longrightarrow> valid_utf8 t"
proof (induction s arbitrary: t r rule: json_str.induct)
  case (2 c cs)
  show ?case
  proof (cases "c = quote_char \<or> c = backslash \<or> byte c < 0x20")
    case True
    with 2 show ?thesis
      by (auto simp: json_str.simps split: if_splits option.splits
          intro!: valid_utf8_append dest: json_unescape_valid)
  next
    case False
    show ?thesis
    proof (cases "rune_size (c # cs)")
      case None
      with 2 False show ?thesis
        by (auto simp: json_str.simps(2) intro!: valid_utf8_append)
    next
      case (Some n)
      with 2(4) False obtain s where "json_str (drop n (c # cs)) = Some (s, r)"
          "t = take n (c # cs) @ s"
        by (auto simp: json_str.simps(2))
      with 2(3) Some False show ?thesis
        by (simp only: valid_utf8_rune [OF Some]) blast
    qed
  qed
qed simp

text \<open>Quoting and reading back.\<close>

lemma json_str_raw:
  assumes "rune_size s = Some n" and "0x80 \<le> byte (hd s)"
  shows "json_str (take n s @ r) = map_option (\<lambda>(t, r'). (take n s @ t, r')) (json_str r)"
proof -
  obtain c cs where s: "s = c # cs" using assms(1) by (cases s) auto
  obtain m where m: "n = Suc m" "m \<le> length cs"
    using rune_size_bounds [OF assms(1)] s by (cases n) auto
  have "rune_size (c # (take m cs @ r)) = Some n"
    using rune_size_prefix [OF assms(1), of r] s m by simp
  moreover have "c \<noteq> quote_char" "c \<noteq> backslash" "\<not> byte c < 0x20"
    using assms(2) s by auto
  ultimately show ?thesis
    using s m by (simp add: json_str.simps(2) min_def)
qed

lemma json_str_u00:
  "n < 0x80 \<Longrightarrow>
   json_str (backslash # ''u00'' @ [hex_digit (n div 16), hex_digit (n mod 16)] @ r)
     = map_option (\<lambda>(t, r'). (char_of n # t, r')) (json_str r)"
  by (simp add: json_str.simps(2) json_unicode_escape_def hex_value_def [of "CHR ''0''"]
      utf8_enc_def Let_def)

lemma json_str_escape:
  assumes "byte c < 0x80"
  shows "json_str (json_escape c @ r) = map_option (\<lambda>(t, r'). (c # t, r')) (json_str r)"
proof (cases "c = backslash \<or> c = quote_char \<or> c = CHR 0x0A \<or> c = CHR 0x0D \<or> c = CHR 0x09")
  case True
  then show ?thesis by (elim disjE) (simp_all add: json_escape_def json_str.simps(2))
next
  case False
  show ?thesis
  proof (cases "byte c < 0x20 \<or> c \<in> {CHR ''<'', CHR ''>'', CHR ''&''}")
    case True
    with False have "json_escape c = backslash # ''u00'' @ [hex_digit (byte c div 16), hex_digit (byte c mod 16)]"
      by (simp add: json_escape_def)
    then show ?thesis using json_str_u00 [OF assms, of r] by simp
  next
    case nospecial: False
    with False have "json_escape c = [c]" by (simp add: json_escape_def)
    with False nospecial assms show ?thesis by (simp add: json_str.simps(2))
  qed
qed

lemma line_separator_bytes:
  "char_of (226 :: nat) = CHR 0xE2" "char_of (128 :: nat) = CHR 0x80"
  "char_of (168 :: nat) = CHR 0xA8" "char_of (169 :: nat) = CHR 0xA9"
  by (simp_all add: char_of_eq_iff)

lemma json_str_line_separators:
  "json_str (backslash # ''u2028'' @ r) = map_option (\<lambda>(t, r'). ([CHR 0xE2, CHR 0x80, CHR 0xA8] @ t, r')) (json_str r)"
  "json_str (backslash # ''u2029'' @ r) = map_option (\<lambda>(t, r'). ([CHR 0xE2, CHR 0x80, CHR 0xA9] @ t, r')) (json_str r)"
  by (simp_all add: json_str.simps(2) json_unicode_escape_def hex_value_def utf8_enc_def Let_def
      line_separator_bytes)

lemma json_str_quote_body:
  "valid_utf8 s \<Longrightarrow> json_str (json_quote_body s @ quote_char # r) = Some (s, r)"
proof (induction s rule: json_quote_body.induct)
  case (2 c cs)
  show ?case
  proof (cases "byte c < 0x80")
    case True
    with 2 show ?thesis
      by (simp add: json_quote_body.simps(2) json_str_escape valid_utf8_Cons_ascii)
  next
    case False
    with "2.prems" obtain n where n: "rune_size (c # cs) = Some n" "valid_utf8 (drop n (c # cs))"
      by (subst (asm) valid_utf8.simps) (auto split: option.splits)
    from 2(3) [OF False n(1) refl n(2)]
    have IH: "json_str (json_quote_body (drop n (c # cs)) @ quote_char # r) = Some (drop n (c # cs), r)" .
    let ?r = "take n (c # cs)"
    have raw: "json_str (?r @ q) = map_option (\<lambda>(t, r'). (?r @ t, r')) (json_str q)" for q
      using json_str_raw [OF n(1)] False by simp
    have "json_quote_body (c # cs)
       = (if ?r = [CHR 0xE2, CHR 0x80, CHR 0xA8] then backslash # ''u2028''
          else if ?r = [CHR 0xE2, CHR 0x80, CHR 0xA9] then backslash # ''u2029''
          else ?r) @ json_quote_body (drop n (c # cs))"
      using False n(1) by (simp only: json_quote_body.simps(2) Let_def if_False option.case)
    moreover have "json_str ((if ?r = [CHR 0xE2, CHR 0x80, CHR 0xA8] then backslash # ''u2028''
          else if ?r = [CHR 0xE2, CHR 0x80, CHR 0xA9] then backslash # ''u2029''
          else ?r) @ q) = map_option (\<lambda>(t, r'). (?r @ t, r')) (json_str q)" for q
      using raw json_str_line_separators [of q]
      by (simp only: append_Cons append_Nil split: if_split) simp
    ultimately show ?thesis
      using IH by (simp only: append_assoc option.map prod.case append_take_drop_id)
  qed
qed simp

corollary json_str_json_quote:
  "valid_utf8 s \<Longrightarrow> json_str (json_quote_body s @ [quote_char] @ r) = Some (s, r)"
  using json_str_quote_body by simp

subsection \<open>Decimal integers\<close>

fun dec_nat :: "nat \<Rightarrow> bytes" where
  "dec_nat n = (if n < 10 then [char_of (48 + n)] else dec_nat (n div 10) @ [char_of (48 + n mod 10)])"

declare dec_nat.simps [simp del]

definition is_digit :: "char \<Rightarrow> bool" where
  "is_digit c \<longleftrightarrow> 48 \<le> byte c \<and> byte c < 58"

text \<open>\<^verbatim>\<open>strconv.AppendInt\<close>, the value a two's complement word.\<close>

definition dec_int :: "int \<Rightarrow> bytes" where
  "dec_int i = (if i < 0 then CHR ''-'' # dec_nat (nat (- i)) else dec_nat (nat i))"

definition digits_value :: "bytes \<Rightarrow> nat" where
  "digits_value s = foldl (\<lambda>a c. a * 10 + (byte c - 48)) 0 s"

lemma dec_nat_digits: "dec_nat n \<noteq> [] \<and> (\<forall>c \<in> set (dec_nat n). is_digit c)"
proof (induction n rule: dec_nat.induct)
  case (1 n)
  then show ?case by (cases "n < 10") (auto simp: dec_nat.simps [of n] is_digit_def)
qed

lemma dec_nat_head: "10 \<le> n \<Longrightarrow> hd (dec_nat n) \<noteq> CHR ''0''"
proof (induction n rule: dec_nat.induct)
  case (1 n)
  show ?case
  proof (cases "n div 10 < 10")
    case True
    have "1 \<le> n div 10" using "1.prems" by auto
    then have "byte (char_of (48 + n div 10)) \<noteq> byte (CHR ''0'')" using True by simp
    then have "char_of (48 + n div 10) \<noteq> CHR ''0''" by metis
    moreover have "dec_nat n = [char_of (48 + n div 10), char_of (48 + n mod 10)]"
      using "1.prems" True by (simp add: dec_nat.simps [of n] dec_nat.simps [of "n div 10"])
    ultimately show ?thesis by simp
  next
    case False
    with 1 dec_nat_digits [of "n div 10"] show ?thesis by (simp add: dec_nat.simps [of n])
  qed
qed

lemma digits_value_dec_nat: "digits_value (dec_nat n) = n"
proof (induction n rule: dec_nat.induct)
  case (1 n)
  then show ?case by (cases "n < 10") (simp_all add: dec_nat.simps [of n] digits_value_def)
qed

text \<open>The number token of the JSON grammar at the front of the input.\<close>

definition json_frac :: "bytes \<Rightarrow> (bytes \<times> bytes) option" where
  "json_frac s =
     (case s of
        c # r \<Rightarrow> if c = CHR ''.'' then
                   (if takeWhile is_digit r = [] then None
                    else Some (c # takeWhile is_digit r, dropWhile is_digit r))
                 else Some ([], s)
      | [] \<Rightarrow> Some ([], s))"

definition json_exp :: "bytes \<Rightarrow> (bytes \<times> bytes) option" where
  "json_exp s =
     (case s of
        c # r \<Rightarrow> if c = CHR ''e'' \<or> c = CHR ''E'' then
                   (let sg = (case r of d # _ \<Rightarrow> if d = CHR ''+'' \<or> d = CHR ''-'' then [d] else [] | [] \<Rightarrow> []);
                        r' = drop (length sg) r
                    in if takeWhile is_digit r' = [] then None
                       else Some (c # sg @ takeWhile is_digit r', dropWhile is_digit r'))
                 else Some ([], s)
      | [] \<Rightarrow> Some ([], s))"

definition json_int_part :: "bytes \<Rightarrow> (bytes \<times> bytes) option" where
  "json_int_part s =
     (case s of
        [] \<Rightarrow> None
      | c # r \<Rightarrow> if c = CHR ''0'' then Some ([c], r)
                 else if is_digit c then Some (takeWhile is_digit s, dropWhile is_digit s)
                 else None)"

definition json_number :: "bytes \<Rightarrow> (bytes \<times> bytes) option" where
  "json_number s =
     (let sg = (case s of c # _ \<Rightarrow> if c = CHR ''-'' then [c] else [] | [] \<Rightarrow> [])
      in case json_int_part (drop (length sg) s) of
           None \<Rightarrow> None
         | Some (i, r) \<Rightarrow>
             (case json_frac r of
                None \<Rightarrow> None
              | Some (f, r') \<Rightarrow>
                  (case json_exp r' of
                     None \<Rightarrow> None
                   | Some (e, r'') \<Rightarrow> Some (sg @ i @ f @ e, r''))))"

text \<open>\<^verbatim>\<open>strconv.ParseUint\<close> and \<^verbatim>\<open>strconv.ParseInt\<close>, base 10, on such a token.\<close>

definition parse_uint :: "nat \<Rightarrow> bytes \<Rightarrow> nat option" where
  "parse_uint w t =
     (if t \<noteq> [] \<and> list_all is_digit t \<and> digits_value t < 2 ^ w then Some (digits_value t) else None)"

definition parse_int64 :: "bytes \<Rightarrow> int option" where
  "parse_int64 t =
     (case t of
        [] \<Rightarrow> None
      | c # r \<Rightarrow>
          if c = CHR ''-'' then
            (if r \<noteq> [] \<and> list_all is_digit r \<and> digits_value r \<le> 2 ^ 63 then Some (- int (digits_value r)) else None)
          else if list_all is_digit t \<and> digits_value t < 2 ^ 63 then Some (int (digits_value t)) else None)"

text \<open>What may follow a number in the documents \<^verbatim>\<open>Marshal\<close> writes.\<close>

definition number_end :: "bytes \<Rightarrow> bool" where
  "number_end r \<longleftrightarrow> (case r of [] \<Rightarrow> True | c # _ \<Rightarrow> c = CHR '','' \<or> c = CHR ''}'')"

lemma number_endD:
  assumes "number_end r"
  shows "r = [] \<or> \<not> is_digit (hd r)" "json_frac r = Some ([], r)" "json_exp r = Some ([], r)"
  using assms
  by (auto simp: number_end_def is_digit_def json_frac_def json_exp_def split: list.splits)

lemma json_int_part_dec_nat:
  assumes "number_end r"
  shows "json_int_part (dec_nat n @ r) = Some (dec_nat n, r)"
proof (cases "n < 10")
  case True
  have "is_digit (char_of (48 + n))" using True by (simp add: is_digit_def)
  then show ?thesis
    using True number_endD(1) [OF assms]
    by (auto simp: dec_nat.simps [of n] json_int_part_def takeWhile_eq_Nil_iff dropWhile_eq_self_iff)
next
  case False
  obtain c cs where c: "dec_nat n = c # cs" using dec_nat_digits [of n] by (cases "dec_nat n") auto
  have d: "is_digit c" "\<forall>x \<in> set (c # cs). is_digit x" using dec_nat_digits [of n] c by auto
  have "c \<noteq> CHR ''0''" using dec_nat_head [of n] False c by simp
  then show ?thesis
    using c d takeWhile_append_stop [OF d(2) number_endD(1) [OF assms]]
      dropWhile_append_stop [OF d(2) number_endD(1) [OF assms]]
    by (simp add: json_int_part_def)
qed

lemma dec_nat_not_minus: "dec_nat n = c # cs \<Longrightarrow> c \<noteq> CHR ''-''"
  using dec_nat_digits [of n] by (auto simp: is_digit_def)

lemma json_number_dec_int:
  assumes "number_end r"
  shows "json_number (dec_int i @ r) = Some (dec_int i, r)"
proof (cases "i < 0")
  case True
  then show ?thesis
    by (simp add: json_number_def dec_int_def json_int_part_dec_nat [OF assms] number_endD [OF assms])
next
  case False
  obtain c cs where c: "dec_nat (nat i) = c # cs"
    using dec_nat_digits [of "nat i"] by (cases "dec_nat (nat i)") auto
  with False dec_nat_not_minus [OF c] json_int_part_dec_nat [OF assms, of "nat i"] show ?thesis
    by (simp add: json_number_def dec_int_def number_endD [OF assms])
qed

lemma parse_uint_dec_nat: "n < 2 ^ w \<Longrightarrow> parse_uint w (dec_nat n) = Some n"
  using dec_nat_digits [of n] by (auto simp: parse_uint_def list_all_iff digits_value_dec_nat)

lemma parse_int64_dec_int:
  assumes "- (2 ^ 63) \<le> i" "i < 2 ^ 63"
  shows "parse_int64 (dec_int i) = Some i"
proof (cases "i < 0")
  case True
  then show ?thesis
    using assms dec_nat_digits [of "nat (- i)"]
    by (auto simp: parse_int64_def dec_int_def list_all_iff digits_value_dec_nat)
next
  case False
  obtain c cs where c: "dec_nat (nat i) = c # cs"
    using dec_nat_digits [of "nat i"] by (cases "dec_nat (nat i)") auto
  have "digits_value (c # cs) = nat i" using digits_value_dec_nat [of "nat i"] c by simp
  with False assms c dec_nat_not_minus [OF c] dec_nat_digits [of "nat i"] show ?thesis
    by (auto simp: parse_int64_def dec_int_def list_all_iff)
qed

end
