(* ===== verification/Go_Json_Value.thy ===== *)
theory Go_Json_Value
  imports Go_Json
begin

section \<open>JSON values, base64 and structs\<close>

text \<open>
  The second half of the model of \<^verbatim>\<open>encoding/json\<close>: base64 for byte slices, the parser of
  JSON values, and the storing of a value into the fields of a struct. The contract the storage
  package relies on is the locale \<open>json_codec\<close>: what was marshalled is unmarshalled
  unchanged.
\<close>

subsection \<open>Base64, for byte slices\<close>

definition b64_char :: "nat \<Rightarrow> char" where
  "b64_char i = char_of
     (if i < 26 then 65 + i else if i < 52 then 71 + i else if i < 62 then i - 4
      else if i = 62 then 43 else 47)"

definition b64_value :: "char \<Rightarrow> nat option" where
  "b64_value c =
     (let b = byte c in
      if 65 \<le> b \<and> b < 91 then Some (b - 65) else if 97 \<le> b \<and> b < 123 then Some (b - 71)
      else if 48 \<le> b \<and> b < 58 then Some (b + 4) else if b = 43 then Some 62
      else if b = 47 then Some 63 else None)"

fun b64_encode :: "bytes \<Rightarrow> bytes" where
  "b64_encode [] = []"
| "b64_encode [x] =
     (let a = byte x in [b64_char (a div 4), b64_char (a mod 4 * 16), CHR ''='', CHR ''=''])"
| "b64_encode [x, y] =
     (let a = byte x; b = byte y
      in [b64_char (a div 4), b64_char (a mod 4 * 16 + b div 16), b64_char (b mod 16 * 4), CHR ''=''])"
| "b64_encode (x # y # z # r) =
     (let a = byte x; b = byte y; c = byte z
      in [b64_char (a div 4), b64_char (a mod 4 * 16 + b div 16),
          b64_char (b mod 16 * 4 + c div 64), b64_char (c mod 64)] @ b64_encode r)"

text \<open>
  \<^verbatim>\<open>base64.StdEncoding.Decode\<close>: carriage returns and newlines are skipped, padding is required,
  unused trailing bits are ignored.
\<close>

fun b64_decode_quanta :: "bytes \<Rightarrow> bytes option" where
  "b64_decode_quanta [] = Some []"
| "b64_decode_quanta (p # q # r # s # rest) =
     (case (b64_value p, b64_value q) of
        (Some i, Some j) \<Rightarrow>
          if r = CHR ''='' \<and> s = CHR ''='' \<and> rest = [] then Some [char_of (i * 4 + j div 16)]
          else (case b64_value r of
            None \<Rightarrow> None
          | Some k \<Rightarrow>
              if s = CHR ''='' \<and> rest = []
              then Some [char_of (i * 4 + j div 16), char_of (j mod 16 * 16 + k div 4)]
              else (case (b64_value s, b64_decode_quanta rest) of
                (Some l, Some t) \<Rightarrow>
                  Some ([char_of (i * 4 + j div 16), char_of (j mod 16 * 16 + k div 4),
                         char_of (k mod 4 * 64 + l)] @ t)
              | _ \<Rightarrow> None))
      | _ \<Rightarrow> None)"
| "b64_decode_quanta _ = None"

definition b64_decode :: "bytes \<Rightarrow> bytes option" where
  "b64_decode s = b64_decode_quanta (filter (\<lambda>c. c \<noteq> CHR 0x0A \<and> c \<noteq> CHR 0x0D) s)"

lemma b64_value_char: "i < 64 \<Longrightarrow> b64_value (b64_char i) = Some i"
  by (auto simp: b64_value_def b64_char_def Let_def)

lemma b64_char_plain: "b64_char i \<noteq> CHR 0x0A \<and> b64_char i \<noteq> CHR 0x0D \<and> b64_char i \<noteq> CHR ''=''"
  by (auto simp: b64_char_def char_of_eq_iff take_bit_eq_mod)

lemma b64_char_ascii: "byte (b64_char i) < 0x80"
  by (auto simp: b64_char_def)

lemma byte_bound: "byte c < 256"
  by (metis of_char_mod_256 mod_less_divisor zero_less_numeral)

lemma b64_groups:
  fixes a b c :: nat
  assumes "a < 256" "b < 256" "c < 256"
  shows "a div 4 < 64" "a mod 4 * 16 + b div 16 < 64" "b mod 16 * 4 + c div 64 < 64"
    "a mod 4 * 16 < 64" "b mod 16 * 4 < 64"
    "a div 4 * 4 + (a mod 4 * 16 + b div 16) div 16 = a"
    "(a mod 4 * 16 + b div 16) mod 16 * 16 + (b mod 16 * 4 + c div 64) div 4 = b"
    "(b mod 16 * 4 + c div 64) mod 4 * 64 + c mod 64 = c"
  using assms by auto

lemma b64_decode_encode: "b64_decode_quanta (b64_encode s) = Some s"
proof (induction s rule: b64_encode.induct)
  case (2 x)
  show ?case
    using b64_groups [of "byte x" "byte (CHR 0x00)" "byte (CHR 0x00)", OF byte_bound byte_bound byte_bound]
    by (simp add: Let_def b64_value_char)
next
  case (3 x y)
  show ?case
    using b64_groups [of "byte x" "byte y" "byte (CHR 0x00)", OF byte_bound byte_bound byte_bound]
    by (simp add: Let_def b64_value_char b64_char_plain)
next
  case (4 x y z r)
  then show ?case
    using b64_groups [of "byte x" "byte y" "byte z", OF byte_bound byte_bound byte_bound]
    by (simp add: Let_def b64_value_char b64_char_plain)
qed simp

lemma b64_encode_plain:
  "c \<in> set (b64_encode s) \<Longrightarrow> c \<noteq> CHR 0x0A \<and> c \<noteq> CHR 0x0D \<and> byte c < 0x80"
  by (induction s rule: b64_encode.induct) (auto simp: Let_def b64_char_plain b64_char_ascii)

lemma b64_roundtrip: "b64_decode (b64_encode s) = Some s"
proof -
  have "filter (\<lambda>c. c \<noteq> CHR 0x0A \<and> c \<noteq> CHR 0x0D) (b64_encode s) = b64_encode s"
    using b64_encode_plain by (auto intro: filter_True)
  then show ?thesis by (simp add: b64_decode_def b64_decode_encode)
qed

lemma ascii_valid_utf8: "(\<forall>c \<in> set s. byte c < 0x80) \<Longrightarrow> valid_utf8 s"
  by (induction s) (auto simp: valid_utf8_Cons_ascii)

lemma b64_encode_valid: "valid_utf8 (b64_encode s)"
  using b64_encode_plain by (auto intro: ascii_valid_utf8)

subsection \<open>The grammar of values\<close>

datatype json =
    JNull
  | JBool bool
  | JNum bytes
  | JStr bytes
  | JArr "json list"
  | JObj "(bytes \<times> json) list"

definition is_space :: "char \<Rightarrow> bool" where
  "is_space c \<longleftrightarrow> c \<in> {CHR '' '', CHR 0x09, CHR 0x0A, CHR 0x0D}"

abbreviation skip_ws :: "bytes \<Rightarrow> bytes" where
  "skip_ws \<equiv> dropWhile is_space"

text \<open>
  Every recursive call is made after at least one byte of the input was consumed, so fuel
  above the length of the input is never used up.
\<close>

fun json_value :: "nat \<Rightarrow> bytes \<Rightarrow> (json \<times> bytes) option"
  and json_elems :: "nat \<Rightarrow> bytes \<Rightarrow> (json list \<times> bytes) option"
  and json_members :: "nat \<Rightarrow> bytes \<Rightarrow> ((bytes \<times> json) list \<times> bytes) option"
where
  "json_value 0 s = None"
| "json_value (Suc k) s =
     (case skip_ws s of
        [] \<Rightarrow> None
      | c # cs \<Rightarrow>
          if c = quote_char then map_option (\<lambda>(t, r). (JStr t, r)) (json_str cs)
          else if c = CHR ''{'' then
            (case skip_ws cs of
               d # r \<Rightarrow> if d = CHR ''}'' then Some (JObj [], r)
                        else map_option (\<lambda>(ms, r'). (JObj ms, r')) (json_members k (d # r))
             | [] \<Rightarrow> None)
          else if c = CHR ''['' then
            (case skip_ws cs of
               d # r \<Rightarrow> if d = CHR '']'' then Some (JArr [], r)
                        else map_option (\<lambda>(vs, r'). (JArr vs, r')) (json_elems k (d # r))
             | [] \<Rightarrow> None)
          else if has_prefix (c # cs) ''null'' then Some (JNull, drop 4 (c # cs))
          else if has_prefix (c # cs) ''true'' then Some (JBool True, drop 4 (c # cs))
          else if has_prefix (c # cs) ''false'' then Some (JBool False, drop 5 (c # cs))
          else map_option (\<lambda>(t, r). (JNum t, r)) (json_number (c # cs)))"
| "json_elems 0 s = None"
| "json_elems (Suc k) s =
     (case json_value k s of
        None \<Rightarrow> None
      | Some (v, r) \<Rightarrow>
          (case skip_ws r of
             d # r' \<Rightarrow>
               if d = CHR '','' then map_option (\<lambda>(vs, r''). (v # vs, r'')) (json_elems k r')
               else if d = CHR '']'' then Some ([v], r') else None
           | [] \<Rightarrow> None))"
| "json_members 0 s = None"
| "json_members (Suc k) s =
     (case skip_ws s of
        [] \<Rightarrow> None
      | c # cs \<Rightarrow>
          if c = quote_char then
            (case json_str cs of
               None \<Rightarrow> None
             | Some (key, r) \<Rightarrow>
                 (case skip_ws r of
                    [] \<Rightarrow> None
                  | d # r1 \<Rightarrow>
                      if d = CHR '':'' then
                        (case json_value k r1 of
                           None \<Rightarrow> None
                         | Some (v, r2) \<Rightarrow>
                             (case skip_ws r2 of
                                e # r3 \<Rightarrow>
                                  if e = CHR '','' then
                                    map_option (\<lambda>(ms, r4). ((key, v) # ms, r4)) (json_members k r3)
                                  else if e = CHR ''}'' then Some ([(key, v)], r3) else None
                              | [] \<Rightarrow> None))
                      else None))
          else None)"

declare json_value.simps(2) [simp del] json_elems.simps(2) [simp del] json_members.simps(2) [simp del]

text \<open>A whole document: one value, then white space only.\<close>

definition json_parse :: "bytes \<Rightarrow> json option" where
  "json_parse s =
     (case json_value (Suc (length s)) s of
        Some (v, r) \<Rightarrow> if skip_ws r = [] then Some v else None
      | None \<Rightarrow> None)"

subsection \<open>Storing a value into a struct\<close>

text \<open>
  Field names are compared without regard to case; among the non-ASCII runes only the Kelvin
  sign and the long s fold to ASCII letters.
\<close>

fun fold_name :: "bytes \<Rightarrow> bytes" where
  "fold_name [] = []"
| "fold_name (c # cs) =
     (if take 3 (c # cs) = [CHR 0xE2, CHR 0x84, CHR 0xAA] then CHR ''k'' # fold_name (drop 2 cs)
      else if take 2 (c # cs) = [CHR 0xC5, CHR 0xBF] then CHR ''s'' # fold_name (drop 1 cs)
      else if 65 \<le> byte c \<and> byte c < 91 then char_of (byte c + 32) # fold_name cs
      else c # fold_name cs)"

text \<open>Each reader gets the old value of the field, which \<^verbatim>\<open>null\<close> leaves alone.\<close>

definition json_u32 :: "u32 \<Rightarrow> json \<Rightarrow> u32 option" where
  "json_u32 old v =
     (case v of JNull \<Rightarrow> Some old
      | JNum t \<Rightarrow> map_option of_nat (parse_uint 32 t)
      | _ \<Rightarrow> None)"

definition json_i64 :: "i64 \<Rightarrow> json \<Rightarrow> i64 option" where
  "json_i64 old v =
     (case v of JNull \<Rightarrow> Some old
      | JNum t \<Rightarrow> map_option of_int (parse_int64 t)
      | _ \<Rightarrow> None)"

definition json_string :: "bytes \<Rightarrow> json \<Rightarrow> bytes option" where
  "json_string old v = (case v of JNull \<Rightarrow> Some old | JStr t \<Rightarrow> Some t | _ \<Rightarrow> None)"

text \<open>
  A \<^verbatim>\<open>[]byte\<close> field: \<^verbatim>\<open>null\<close> is the nil slice, a string is base64, and an array of
  numbers (or nulls) below 256 is accepted as well.
\<close>

fun json_u8_list :: "json list \<Rightarrow> bytes option" where
  "json_u8_list [] = Some []"
| "json_u8_list (v # vs) =
     (case (case v of JNull \<Rightarrow> Some 0 | JNum t \<Rightarrow> parse_uint 8 t | _ \<Rightarrow> None) of
        None \<Rightarrow> None
      | Some n \<Rightarrow> map_option (Cons (char_of n)) (json_u8_list vs))"

definition json_bytes :: "json \<Rightarrow> bytes option option" where
  "json_bytes v =
     (case v of JNull \<Rightarrow> Some None
      | JStr t \<Rightarrow> map_option Some (b64_decode t)
      | JArr vs \<Rightarrow> map_option Some (json_u8_list vs)
      | _ \<Rightarrow> None)"

fun json_store_members :: "(bytes \<Rightarrow> json \<Rightarrow> 'a \<Rightarrow> 'a option) \<Rightarrow> (bytes \<times> json) list \<Rightarrow> 'a \<Rightarrow> 'a option" where
  "json_store_members st [] x = Some x"
| "json_store_members st ((k, v) # ms) x =
     (case st (fold_name k) v x of None \<Rightarrow> None | Some y \<Rightarrow> json_store_members st ms y)"

subsection \<open>Reading back what was written\<close>

definition no_space_start :: "bytes \<Rightarrow> bool" where
  "no_space_start s \<longleftrightarrow> s \<noteq> [] \<and> \<not> is_space (hd s)"

lemma skip_ws_no_space: "no_space_start s \<Longrightarrow> skip_ws s = s"
  by (cases s) (auto simp: no_space_start_def)

lemma json_value_quote:
  "valid_utf8 s \<Longrightarrow> json_value (Suc k) (json_quote s @ r) = Some (JStr s, r)"
  by (simp add: json_value.simps(2) json_quote_def is_space_def json_str_quote_body)

lemma json_value_null: "json_value (Suc k) (''null'' @ r) = Some (JNull, r)"
  by (simp add: json_value.simps(2) is_space_def has_prefix_def)

lemma dec_int_start:
  obtains c cs where "dec_int i = c # cs" "c = CHR ''-'' \<or> is_digit c"
proof (cases "i < 0")
  case True
  then show ?thesis using that by (simp add: dec_int_def)
next
  case False
  with dec_nat_digits [of "nat i"] show ?thesis
    using that by (cases "dec_nat (nat i)") (auto simp: dec_int_def)
qed

lemma json_value_dec_int:
  assumes "number_end r"
  shows "json_value (Suc k) (dec_int i @ r) = Some (JNum (dec_int i), r)"
proof -
  obtain c cs where c: "dec_int i = c # cs" "c = CHR ''-'' \<or> is_digit c"
    by (rule dec_int_start)
  from c(2) have "\<not> is_space c" "c \<noteq> quote_char" "c \<noteq> CHR ''{''" "c \<noteq> CHR ''[''"
    "c \<noteq> CHR ''n''" "c \<noteq> CHR ''t''" "c \<noteq> CHR ''f''"
    by (auto simp: is_space_def is_digit_def)
  with json_number_dec_int [OF assms, of i] c(1) show ?thesis
    by (simp add: json_value.simps(2) has_prefix_def)
qed

definition json_member :: "bytes \<Rightarrow> bytes \<Rightarrow> bytes" where
  "json_member key enc = json_quote key @ CHR '':'' # enc"

lemma json_members_step:
  assumes "valid_utf8 key" "json_value k (enc @ CHR '','' # r) = Some (v, CHR '','' # r)"
  shows "json_members (Suc k) (json_member key enc @ CHR '','' # r)
    = map_option (\<lambda>(ms, r'). ((key, v) # ms, r')) (json_members k r)"
  using assms by (simp add: json_members.simps(2) json_member_def json_quote_def is_space_def
      json_str_quote_body)

lemma json_members_last:
  assumes "valid_utf8 key" "json_value k (enc @ CHR ''}'' # r) = Some (v, CHR ''}'' # r)"
  shows "json_members (Suc k) (json_member key enc @ CHR ''}'' # r) = Some ([(key, v)], r)"
  using assms by (simp add: json_members.simps(2) json_member_def json_quote_def is_space_def
      json_str_quote_body)

lemma json_value_object:
  assumes "json_members k (json_member key enc @ r) = Some (ms, r')"
  shows "json_value (Suc k) (CHR ''{'' # json_member key enc @ r) = Some (JObj ms, r')"
  using assms by (simp add: json_value.simps(2) json_member_def json_quote_def is_space_def)

lemma json_u32_dec [simp]: "json_u32 old (JNum (dec_int (uint w))) = Some w"
proof -
  have "unat w < 2 ^ 32" using unsigned_less [of w] by simp
  moreover have "dec_int (uint w) = dec_nat (unat w)"
    by (simp add: dec_int_def)
  ultimately show ?thesis
    using parse_uint_dec_nat [of "unat w" 32] by (simp add: json_u32_def)
qed

lemma json_i64_dec [simp]: "json_i64 old (JNum (dec_int (sint w))) = Some w"
proof -
  have "- (2 ^ 63) \<le> sint w" "sint w < 2 ^ 63"
    using sint_range_size [of w] by (simp_all add: word_size)
  then have "parse_int64 (dec_int (sint w)) = Some (sint w)"
    by (rule parse_int64_dec_int)
  then show ?thesis by (simp add: json_i64_def)
qed

lemma json_string_str [simp]: "json_string old (JStr s) = Some s"
  by (simp add: json_string_def)

lemma json_bytes_b64 [simp]:
  "json_bytes (JStr (b64_encode s)) = Some (Some s)" "json_bytes JNull = Some None"
  by (simp_all add: json_bytes_def b64_roundtrip)

text \<open>Strings that come out of the parser are valid UTF-8.\<close>

definition str_ok :: "json \<Rightarrow> bool" where
  "str_ok v \<longleftrightarrow> (\<forall>t. v = JStr t \<longrightarrow> valid_utf8 t)"

lemma json_value_str_ok: "json_value k s = Some (v, r) \<Longrightarrow> str_ok v"
  by (cases k) (auto simp: json_value.simps(2) str_ok_def split: list.splits if_splits dest: json_str_valid)

lemma json_members_str_ok:
  "json_members k s = Some (ms, r) \<Longrightarrow> \<forall>(key, v) \<in> set ms. str_ok v"
proof (induction k arbitrary: s ms r)
  case (Suc k)
  from Suc.prems show ?case
    by (auto simp: json_members.simps(2) split: list.splits option.splits if_splits
        dest!: Suc.IH) (blast dest: json_value_str_ok)+
qed simp

lemma json_parse_str_ok: "json_parse s = Some (JObj ms) \<Longrightarrow> \<forall>(key, v) \<in> set ms. str_ok v"
  by (auto simp: json_parse_def json_value.simps(2) split: option.splits list.splits if_splits
      dest!: json_members_str_ok)

lemma json_string_ok: "str_ok v \<Longrightarrow> valid_utf8 old \<Longrightarrow> json_string old v = Some t \<Longrightarrow> valid_utf8 t"
  by (auto simp: json_string_def str_ok_def split: json.splits)

lemma json_store_members_invariant:
  assumes "\<And>k v x y. P x \<Longrightarrow> str_ok v \<Longrightarrow> st k v x = Some y \<Longrightarrow> P y"
  shows "P x \<Longrightarrow> \<forall>(k, v) \<in> set ms. str_ok v \<Longrightarrow> json_store_members st ms x = Some y \<Longrightarrow> P y"
  by (induction ms arbitrary: x) (auto split: option.splits, blast dest: assms)

subsection \<open>The contract of a codec\<close>

text \<open>
  What the storage package relies on for each of its document types: a value whose strings are
  valid UTF-8 survives \<^verbatim>\<open>Marshal\<close> followed by \<^verbatim>\<open>Unmarshal\<close>, and \<^verbatim>\<open>Unmarshal\<close> only
  returns such values.
\<close>

locale json_codec =
  fixes marshal :: "'a \<Rightarrow> bytes"
    and unmarshal :: "bytes \<Rightarrow> 'a option"
    and valid :: "'a \<Rightarrow> bool"
  assumes unmarshal_marshal: "valid x \<Longrightarrow> unmarshal (marshal x) = Some x"
    and unmarshal_valid: "unmarshal s = Some x \<Longrightarrow> valid x"
begin

lemma marshal_inject: "valid x \<Longrightarrow> valid y \<Longrightarrow> marshal x = marshal y \<Longrightarrow> x = y"
  using unmarshal_marshal by (metis option.inject)

lemma remarshal: "unmarshal s = Some x \<Longrightarrow> unmarshal (marshal x) = Some x"
  by (rule unmarshal_marshal) (rule unmarshal_valid)

end

end
