(* ===== verification/Commands.thy ===== *)
theory Commands
  imports Go_Json_Value
begin

section \<open>Commands (storage/command.go, storage/command_impl.go)\<close>

text \<open>
  A command is a name and a JSON document. The two kinds, the key-value command and the lock
  command, are the two dynamic types of the interface \<^verbatim>\<open>CommandOperator\<close>. \<^verbatim>\<open>json.Marshal\<close> of
  these structs (integers, strings and a byte slice) never fails, so the constructors have no
  error branch; \<^verbatim>\<open>Unmarshal\<close> fails on documents that do not fit. The theory gives the two
  round trips, as interpretations of \<open>json_codec\<close>, and what a fast index tells of the command.
\<close>

subsection \<open>Data\<close>

record Command =
  commandName :: bytes
  commandContent :: bytes

record KeyValue =
  kv_Key :: bytes
  kv_Value :: "bytes option"

record LockInfo =
  li_LockNonce :: u32
  li_LockName :: bytes
  li_NewOwner :: bytes
  li_Timestamp :: i64
  li_Expire :: i64

datatype CommandOperator = CommandKVStore Command | CommandDLock Command

definition GetCommandName :: "CommandOperator \<Rightarrow> bytes" where
  "GetCommandName c = (case c of CommandKVStore b \<Rightarrow> commandName b | CommandDLock b \<Rightarrow> commandName b)"

definition GetCommandContent :: "CommandOperator \<Rightarrow> bytes" where
  "GetCommandContent c =
     (case c of CommandKVStore b \<Rightarrow> commandContent b | CommandDLock b \<Rightarrow> commandContent b)"

definition SetCommandName :: "bytes \<Rightarrow> Command \<Rightarrow> Command" where
  "SetCommandName name c = c\<lparr>commandName := name\<rparr>"

definition SetCommandContent :: "bytes \<Rightarrow> Command \<Rightarrow> Command" where
  "SetCommandContent content c = c\<lparr>commandContent := content\<rparr>"

abbreviation new_Command :: Command where
  "new_Command \<equiv> \<lparr>commandName = [], commandContent = []\<rparr>"

subsection \<open>The JSON documents\<close>

definition marshal_KeyValue :: "KeyValue \<Rightarrow> bytes" where
  "marshal_KeyValue kv =
     CHR ''{'' # json_member ''key'' (json_quote (kv_Key kv)) @ CHR '','' #
     json_member ''value''
       (case kv_Value kv of None \<Rightarrow> ''null'' | Some v \<Rightarrow> json_quote (b64_encode v)) @ [CHR ''}'']"

definition store_KeyValue :: "bytes \<Rightarrow> json \<Rightarrow> KeyValue \<Rightarrow> KeyValue option" where
  "store_KeyValue k v x =
     (if k = ''key'' then map_option (\<lambda>s. x\<lparr>kv_Key := s\<rparr>) (json_string (kv_Key x) v)
      else if k = ''value'' then map_option (\<lambda>b. x\<lparr>kv_Value := b\<rparr>) (json_bytes v)
      else Some x)"

text \<open>
  \<^verbatim>\<open>Unmarshal\<close> gets a pointer to the pointer here, so the document \<^verbatim>\<open>null\<close> sets the pointer
  to nil: the inner option.
\<close>

definition unmarshal_KeyValue :: "bytes \<Rightarrow> KeyValue option option" where
  "unmarshal_KeyValue s =
     (case json_parse s of
        Some JNull \<Rightarrow> Some None
      | Some (JObj ms) \<Rightarrow>
          map_option Some (json_store_members store_KeyValue ms \<lparr>kv_Key = [], kv_Value = None\<rparr>)
      | _ \<Rightarrow> None)"

definition marshal_LockInfo :: "LockInfo \<Rightarrow> bytes" where
  "marshal_LockInfo li =
     CHR ''{'' # json_member ''lock_nonce'' (dec_int (uint (li_LockNonce li))) @ CHR '','' #
     json_member ''lock_name'' (json_quote (li_LockName li)) @ CHR '','' #
     json_member ''new_owner'' (json_quote (li_NewOwner li)) @ CHR '','' #
     json_member ''timestamp'' (dec_int (sint (li_Timestamp li))) @ CHR '','' #
     json_member ''expire'' (dec_int (sint (li_Expire li))) @ [CHR ''}'']"

definition store_LockInfo :: "bytes \<Rightarrow> json \<Rightarrow> LockInfo \<Rightarrow> LockInfo option" where
  "store_LockInfo k v x =
     (if k = ''lock_nonce'' then map_option (\<lambda>n. x\<lparr>li_LockNonce := n\<rparr>) (json_u32 (li_LockNonce x) v)
      else if k = ''lock_name'' then map_option (\<lambda>s. x\<lparr>li_LockName := s\<rparr>) (json_string (li_LockName x) v)
      else if k = ''new_owner'' then map_option (\<lambda>s. x\<lparr>li_NewOwner := s\<rparr>) (json_string (li_NewOwner x) v)
      else if k = ''timestamp'' then map_option (\<lambda>n. x\<lparr>li_Timestamp := n\<rparr>) (json_i64 (li_Timestamp x) v)
      else if k = ''expire'' then map_option (\<lambda>n. x\<lparr>li_Expire := n\<rparr>) (json_i64 (li_Expire x) v)
      else Some x)"

abbreviation new_LockInfo :: LockInfo where
  "new_LockInfo \<equiv>
     \<lparr>li_LockNonce = 0, li_LockName = [], li_NewOwner = [], li_Timestamp = 0, li_Expire = 0\<rparr>"

definition unmarshal_LockInfo :: "bytes \<Rightarrow> LockInfo option" where
  "unmarshal_LockInfo s =
     (case json_parse s of
        Some JNull \<Rightarrow> Some new_LockInfo
      | Some (JObj ms) \<Rightarrow> json_store_members store_LockInfo ms new_LockInfo
      | _ \<Rightarrow> None)"

subsection \<open>Key-value commands\<close>

definition NewCommandKVStore :: "bytes \<Rightarrow> bytes option \<Rightarrow> Command" where
  "NewCommandKVStore key val =
     (let encodedKeyValue = marshal_KeyValue \<lparr>kv_Key = key, kv_Value = val\<rparr>
      in SetCommandContent encodedKeyValue (SetCommandName ''KVStore'' new_Command))"

text \<open>The method builds a second command and drops it; its receiver is unchanged.\<close>

definition SetAsKVStore :: "KeyValue \<Rightarrow> Command \<Rightarrow> Command" where
  "SetAsKVStore keyValue c =
     (let encodedKeyValue = marshal_KeyValue keyValue;
          commandKVStore = SetCommandContent encodedKeyValue new_Command
      in c)"

definition GetAsKVStore :: "Command \<Rightarrow> go_error + KeyValue option" where
  "GetAsKVStore c =
     (case unmarshal_KeyValue (commandContent c) of None \<Rightarrow> Inl JsonError | Some p \<Rightarrow> Inr p)"

definition GetFastIndex_KVStore :: "Command \<Rightarrow> go_error + bytes" where
  "GetFastIndex_KVStore c =
     (case GetAsKVStore c of
        Inl e \<Rightarrow> Inl e
      | Inr None \<Rightarrow> Inl (GoPanic NilDereference)
      | Inr (Some kvStore) \<Rightarrow> Inr (''KVStore:'' @ kv_Key kvStore))"

subsection \<open>Lock commands\<close>

definition NewCommandDLock :: "u32 \<Rightarrow> bytes \<Rightarrow> bytes \<Rightarrow> i64 \<Rightarrow> i64 \<Rightarrow> Command" where
  "NewCommandDLock lockNonce lockName newOwner timestamp expire =
     (let lockInfo = \<lparr>li_LockNonce = lockNonce, li_LockName = lockName, li_NewOwner = newOwner,
                      li_Timestamp = timestamp, li_Expire = expire\<rparr>;
          encodedLockInfo = marshal_LockInfo lockInfo
      in SetCommandContent encodedLockInfo (SetCommandName ''DLock'' new_Command))"

definition SetAsDLockInfo :: "LockInfo \<Rightarrow> Command \<Rightarrow> Command" where
  "SetAsDLockInfo lockInfo c = SetCommandContent (marshal_LockInfo lockInfo) c"

definition GetAsDLockInfo :: "Command \<Rightarrow> go_error + LockInfo" where
  "GetAsDLockInfo c =
     (case unmarshal_LockInfo (commandContent c) of None \<Rightarrow> Inl JsonError | Some li \<Rightarrow> Inr li)"

definition GetFastIndex_DLock :: "Command \<Rightarrow> go_error + bytes" where
  "GetFastIndex_DLock c =
     (case GetAsDLockInfo c of
        Inl e \<Rightarrow> Inl e
      | Inr dLockInfo \<Rightarrow> Inr (''DLock:'' @ li_LockName dLockInfo))"

definition GetFastIndex :: "CommandOperator \<Rightarrow> go_error + bytes" where
  "GetFastIndex c =
     (case c of CommandKVStore b \<Rightarrow> GetFastIndex_KVStore b | CommandDLock b \<Rightarrow> GetFastIndex_DLock b)"

definition NewCommandFromRaw :: "bytes \<Rightarrow> bytes \<Rightarrow> CommandOperator option" where
  "NewCommandFromRaw name content =
     (if name = ''KVStore''
      then Some (CommandKVStore (SetCommandContent content (SetCommandName ''KVStore'' new_Command)))
      else if name = ''DLock''
      then Some (CommandDLock (SetCommandContent content (SetCommandName ''DLock'' new_Command)))
      else None)"

lemmas command_defs = GetCommandName_def GetCommandContent_def SetCommandName_def
  SetCommandContent_def NewCommandKVStore_def NewCommandDLock_def SetAsDLockInfo_def
  GetAsKVStore_def GetAsDLockInfo_def NewCommandFromRaw_def

subsection \<open>Round trips\<close>

definition valid_KeyValue :: "KeyValue \<Rightarrow> bool" where
  "valid_KeyValue kv \<longleftrightarrow> valid_utf8 (kv_Key kv)"

definition valid_LockInfo :: "LockInfo \<Rightarrow> bool" where
  "valid_LockInfo li \<longleftrightarrow> valid_utf8 (li_LockName li) \<and> valid_utf8 (li_NewOwner li)"

lemma valid_utf8_literals [simp]:
  "valid_utf8 ''key''" "valid_utf8 ''value''" "valid_utf8 ''lock_nonce''" "valid_utf8 ''lock_name''"
  "valid_utf8 ''new_owner''" "valid_utf8 ''timestamp''" "valid_utf8 ''expire''" "valid_utf8 ''owner''"
  by (simp_all add: valid_utf8_Cons_ascii)

lemma number_end_punctuation [simp]: "number_end (CHR '','' # r)" "number_end (CHR ''}'' # r)"
  by (simp_all add: number_end_def)

lemmas json_read_simps = json_members_step json_members_last json_value_quote json_value_dec_int
  json_value_null [simplified]

lemma json_member_length: "3 \<le> length (json_member k e)"
  by (simp add: json_member_def json_quote_def)

lemma json_parse_object:
  assumes s: "s = CHR ''{'' # json_member key enc @ r"
    and len: "6 \<le> length s"
    and m: "\<And>k. json_members (Suc (Suc (Suc (Suc (Suc (Suc k)))))) (json_member key enc @ r) = Some (ms, [])"
  shows "json_parse s = Some (JObj ms)"
proof -
  obtain k where "length s = 6 + k"
    using len by (metis le_iff_add)
  then have "length s = Suc (Suc (Suc (Suc (Suc (Suc k)))))" by simp
  then show ?thesis
    using json_value_object [OF m [of k]] by (simp add: json_parse_def s)
qed

lemma parse_marshal_KeyValue:
  assumes "valid_KeyValue kv"
  shows "json_parse (marshal_KeyValue kv) = Some (JObj [(''key'', JStr (kv_Key kv)),
    (''value'', case kv_Value kv of None \<Rightarrow> JNull | Some v \<Rightarrow> JStr (b64_encode v))])"
proof (rule json_parse_object [OF marshal_KeyValue_def])
  show "6 \<le> length (marshal_KeyValue kv)"
    using json_member_length [of "''key''" "json_quote (kv_Key kv)"]
      json_member_length [of "''value''"
        "case kv_Value kv of None \<Rightarrow> ''null'' | Some v \<Rightarrow> json_quote (b64_encode v)"]
    by (simp add: marshal_KeyValue_def)
qed (use assms in \<open>simp add: valid_KeyValue_def json_read_simps b64_encode_valid split: option.split\<close>)

lemma parse_marshal_LockInfo:
  assumes "valid_LockInfo li"
  shows "json_parse (marshal_LockInfo li) = Some (JObj
    [(''lock_nonce'', JNum (dec_int (uint (li_LockNonce li)))), (''lock_name'', JStr (li_LockName li)),
     (''new_owner'', JStr (li_NewOwner li)), (''timestamp'', JNum (dec_int (sint (li_Timestamp li)))),
     (''expire'', JNum (dec_int (sint (li_Expire li))))])"
  by (rule json_parse_object [OF marshal_LockInfo_def])
     (use assms json_member_length [of "''lock_nonce''" "dec_int (uint (li_LockNonce li))"] in
       \<open>simp_all add: marshal_LockInfo_def valid_LockInfo_def json_read_simps\<close>)

lemma unmarshal_marshal_KeyValue:
  "valid_KeyValue kv \<Longrightarrow> unmarshal_KeyValue (marshal_KeyValue kv) = Some (Some kv)"
  by (cases "kv_Value kv")
     (simp_all add: unmarshal_KeyValue_def parse_marshal_KeyValue store_KeyValue_def)

lemma unmarshal_marshal_LockInfo:
  "valid_LockInfo li \<Longrightarrow> unmarshal_LockInfo (marshal_LockInfo li) = Some li"
  by (simp add: unmarshal_LockInfo_def parse_marshal_LockInfo store_LockInfo_def)

lemma unmarshal_LockInfo_valid:
  assumes "unmarshal_LockInfo s = Some li"
  shows "valid_LockInfo li"
proof (cases "json_parse s")
  case (Some v)
  have step: "valid_LockInfo x \<Longrightarrow> str_ok v \<Longrightarrow> store_LockInfo k v x = Some y \<Longrightarrow> valid_LockInfo y" for k v x y
    by (auto simp: store_LockInfo_def valid_LockInfo_def split: if_splits dest: json_string_ok)
  have new: "valid_LockInfo new_LockInfo" by (simp add: valid_LockInfo_def)
  have members: "json_store_members store_LockInfo ms new_LockInfo = Some y \<Longrightarrow>
      \<forall>(k, v) \<in> set ms. str_ok v \<Longrightarrow> valid_LockInfo y" for ms y
    by (rule json_store_members_invariant [where P = valid_LockInfo and st = store_LockInfo, OF _ new])
       (rule step)
  from Some assms show ?thesis
    by (cases v) (auto simp: unmarshal_LockInfo_def new dest!: json_parse_str_ok intro: members)
qed (use assms in \<open>simp add: unmarshal_LockInfo_def\<close>)

lemma unmarshal_KeyValue_valid:
  assumes "unmarshal_KeyValue s = Some (Some kv)"
  shows "valid_KeyValue kv"
proof (cases "json_parse s")
  case (Some v)
  have step: "valid_KeyValue x \<Longrightarrow> str_ok v \<Longrightarrow> store_KeyValue k v x = Some y \<Longrightarrow> valid_KeyValue y" for k v x y
    by (auto simp: store_KeyValue_def valid_KeyValue_def split: if_splits dest: json_string_ok)
  have new: "valid_KeyValue \<lparr>kv_Key = [], kv_Value = None\<rparr>" by (simp add: valid_KeyValue_def)
  have members: "json_store_members store_KeyValue ms \<lparr>kv_Key = [], kv_Value = None\<rparr> = Some y \<Longrightarrow>
      \<forall>(k, v) \<in> set ms. str_ok v \<Longrightarrow> valid_KeyValue y" for ms y
    by (rule json_store_members_invariant [where P = valid_KeyValue and st = store_KeyValue, OF _ new])
       (rule step)
  from Some assms show ?thesis
    by (cases v) (auto simp: unmarshal_KeyValue_def new dest!: json_parse_str_ok intro: members)
qed (use assms in \<open>simp add: unmarshal_KeyValue_def\<close>)

interpretation lock_codec: json_codec marshal_LockInfo unmarshal_LockInfo valid_LockInfo
  by unfold_locales (auto intro: unmarshal_marshal_LockInfo unmarshal_LockInfo_valid)

interpretation kv_codec: json_codec marshal_KeyValue "\<lambda>s. Option.bind (unmarshal_KeyValue s) id" valid_KeyValue
  by unfold_locales
     (auto simp: unmarshal_marshal_KeyValue bind_eq_Some_conv intro: unmarshal_KeyValue_valid)

lemma GetAsDLockInfo_NewCommandDLock:
  assumes "valid_utf8 name" "valid_utf8 owner"
  shows "GetAsDLockInfo (NewCommandDLock n name owner ts ex) =
    Inr \<lparr>li_LockNonce = n, li_LockName = name, li_NewOwner = owner, li_Timestamp = ts, li_Expire = ex\<rparr>"
  using assms
  by (simp add: command_defs Let_def lock_codec.unmarshal_marshal valid_LockInfo_def)

lemma GetAsDLockInfo_SetAsDLockInfo:
  "valid_LockInfo li \<Longrightarrow> GetAsDLockInfo (SetAsDLockInfo li c) = Inr li"
  by (simp add: command_defs lock_codec.unmarshal_marshal)

lemma GetAsDLockInfo_valid: "GetAsDLockInfo c = Inr li \<Longrightarrow> valid_LockInfo li"
  by (auto simp: GetAsDLockInfo_def split: option.splits intro: lock_codec.unmarshal_valid)

lemma GetAsKVStore_valid: "GetAsKVStore c = Inr (Some kv) \<Longrightarrow> valid_KeyValue kv"
  by (auto simp: GetAsKVStore_def split: option.splits intro: unmarshal_KeyValue_valid)

lemma commandName_SetAsDLockInfo [simp]: "commandName (SetAsDLockInfo li c) = commandName c"
  by (simp add: SetAsDLockInfo_def SetCommandContent_def)

lemma GetFastIndex_KVStore_prefix:
  "GetFastIndex_KVStore c = Inr f \<Longrightarrow> \<exists>k. f = ''KVStore:'' @ k"
  by (auto simp: GetFastIndex_KVStore_def split: sum.splits option.splits)

lemma GetFastIndex_DLock_prefix:
  "GetFastIndex_DLock c = Inr f \<Longrightarrow> \<exists>k. f = ''DLock:'' @ k"
  by (auto simp: GetFastIndex_DLock_def split: sum.splits)

end
