(* ===== verification/Log_Entry.thy ===== *)
theory Log_Entry
  imports Commands
begin

section \<open>Log entries and their framing on disk (storage/log_entry.go)\<close>

text \<open>
  A log entry is a protobuf \<^verbatim>\<open>Entry\<close> with the fast index of its command. On disk an entry is a
  frame: the length of its protobuf encoding in hexadecimal, padded to eight columns, a newline,
  and the encoding. \<^verbatim>\<open>proto.Marshal\<close> and \<^verbatim>\<open>proto.Unmarshal\<close> belong to a package outside the
  repository and are parameters (the record \<open>pb\<close>); the formatted printing and scanning of the
  header and \<^verbatim>\<open>io.ReadFull\<close> are library functions and are modelled. An entry whose protobuf
  pointer is nil carries no data: it never occurs outside the guard of \<^verbatim>\<open>InsertLogEntry\<close>, where
  the model represents it like the nil pointer.
\<close>

subsection \<open>Data\<close>

record Entry =
  e_Term :: u64
  e_Index :: u64
  e_CommandName :: bytes
  e_CommandContent :: bytes

record LogEntry =
  le_Entry :: Entry
  le_fastIndex :: bytes

abbreviation le_Term :: "LogEntry \<Rightarrow> u64" where
  "le_Term le \<equiv> e_Term (le_Entry le)"

abbreviation le_Index :: "LogEntry \<Rightarrow> u64" where
  "le_Index le \<equiv> e_Index (le_Entry le)"

text \<open>The two functions of the protobuf package.\<close>

record pb =
  pb_marshal :: "Entry \<Rightarrow> go_error + bytes"
  pb_unmarshal :: "bytes \<Rightarrow> go_error + Entry"

subsection \<open>Construction\<close>

definition NewLogEntry :: "u64 \<Rightarrow> u64 \<Rightarrow> CommandOperator \<Rightarrow> go_error + LogEntry" where
  "NewLogEntry term index command =
     (let pbEntry = \<lparr>e_Term = term, e_Index = index, e_CommandName = GetCommandName command,
                     e_CommandContent = GetCommandContent command\<rparr>
      in case GetFastIndex command of
           Inl e \<Rightarrow> Inl e
         | Inr fastIndex \<Rightarrow> Inr \<lparr>le_Entry = pbEntry, le_fastIndex = fastIndex\<rparr>)"

text \<open>The command is used without a nil test, so an unknown command name panics.\<close>

definition NewLogEntryList :: "Entry \<Rightarrow> go_error + LogEntry" where
  "NewLogEntryList pbEntry =
     (case NewCommandFromRaw (e_CommandName pbEntry) (e_CommandContent pbEntry) of
        None \<Rightarrow> Inl (GoPanic NilDereference)
      | Some command \<Rightarrow>
          (case GetFastIndex command of
             Inl e \<Rightarrow> Inl e
           | Inr fastIndex \<Rightarrow> Inr \<lparr>le_Entry = pbEntry, le_fastIndex = fastIndex\<rparr>))"

definition EncodeLogEntry :: "pb \<Rightarrow> LogEntry \<Rightarrow> go_error + bytes" where
  "EncodeLogEntry pb le = pb_marshal pb (le_Entry le)"

text \<open>On an error the caller drops the receiver, so only the decoded entry is returned.\<close>

definition DecodeLogEntry :: "pb \<Rightarrow> bytes \<Rightarrow> go_error + LogEntry" where
  "DecodeLogEntry pb encodedLogEntry =
     (case pb_unmarshal pb encodedLogEntry of
        Inl e \<Rightarrow> Inl e
      | Inr pbEntry \<Rightarrow>
          (case NewCommandFromRaw (e_CommandName pbEntry) (e_CommandContent pbEntry) of
             None \<Rightarrow> Inl LogEntryContentDecodeError
           | Some command \<Rightarrow>
               (case GetFastIndex command of
                  Inl e \<Rightarrow> Inl (replace_error LogEntryFastIndexError e)
                | Inr fastIndex \<Rightarrow> Inr \<lparr>le_Entry = pbEntry, le_fastIndex = fastIndex\<rparr>)))"

subsection \<open>Files and formatted headers\<close>

text \<open>
  A file is the bytes it holds and the room left for writing (\<open>None\<close>: no limit). A write that
  does not fit stores what fits and fails.
\<close>

record os_file =
  f_bytes :: bytes
  f_room :: "nat option"

definition file_write :: "bytes \<Rightarrow> os_file \<Rightarrow> (go_error + nat) \<times> os_file" where
  "file_write bs f =
     (case f_room f of
        None \<Rightarrow> (Inr (length bs), f\<lparr>f_bytes := f_bytes f @ bs\<rparr>)
      | Some n \<Rightarrow>
          if length bs \<le> n
          then (Inr (length bs), f\<lparr>f_bytes := f_bytes f @ bs, f_room := Some (n - length bs)\<rparr>)
          else (Inl IoWriteError, f\<lparr>f_bytes := f_bytes f @ take n bs, f_room := Some 0\<rparr>))"

fun hex_nat :: "nat \<Rightarrow> bytes" where
  "hex_nat n = (if n < 16 then [hex_digit n] else hex_nat (n div 16) @ [hex_digit (n mod 16)])"

declare hex_nat.simps [simp del]

text \<open>\<^verbatim>\<open>fmt.Fprintf(writer, "%8x\n", n)\<close>.\<close>

definition header_bytes :: "nat \<Rightarrow> bytes" where
  "header_bytes n = replicate (8 - length (hex_nat n)) CHR '' '' @ hex_nat n @ [CHR 0x0A]"

definition scan_space :: "char \<Rightarrow> bool" where
  "scan_space c \<longleftrightarrow> c \<in> {CHR '' '', CHR 0x09, CHR 0x0B, CHR 0x0C, CHR 0x0D}"

definition is_hex :: "char \<Rightarrow> bool" where
  "is_hex c \<longleftrightarrow> hex_value c \<noteq> None"

definition hex_digits_value :: "bytes \<Rightarrow> nat" where
  "hex_digits_value s = foldl (\<lambda>a c. a * 16 + the (hex_value c)) 0 s"

text \<open>
  \<^verbatim>\<open>fmt.Fscanf(reader, "%8x\n", &length)\<close>: leading spaces do not count towards the width, a
  sign does; the newline of the format matches spaces and then a newline or the end of input.
  The result is the number and the rest of the input.
\<close>

definition scan_header :: "bytes \<Rightarrow> go_error + int \<times> bytes" where
  "scan_header s =
     (let s1 = dropWhile scan_space s in
      if s1 = [] then Inl IoEOF
      else if hd s1 = CHR 0x0A then Inl ScanError
      else
        let sg = (if hd s1 = CHR ''-'' \<or> hd s1 = CHR ''+'' then [hd s1] else []);
            s2 = drop (length sg) s1;
            ds = takeWhile is_hex (take (8 - length sg) s2);
            s3 = dropWhile scan_space (drop (length ds) s2)
        in if s2 = [] then Inl IoEOF
           else if ds = [] then Inl ScanError
           else if s3 \<noteq> [] \<and> hd s3 \<noteq> CHR 0x0A then Inl ScanError
           else Inr ((if sg = [CHR ''-''] then - int (hex_digits_value ds) else int (hex_digits_value ds)), tl s3))"

text \<open>\<^verbatim>\<open>io.ReadFull\<close> of \<open>n\<close> bytes.\<close>

definition read_full :: "nat \<Rightarrow> bytes \<Rightarrow> go_error + bytes \<times> bytes" where
  "read_full n s =
     (if n \<le> length s then Inr (take n s, drop n s)
      else if s = [] then Inl IoEOF else Inl IoUnexpectedEOF)"

subsection \<open>Storing and reloading one entry\<close>

definition LogStore :: "pb \<Rightarrow> LogEntry \<Rightarrow> os_file \<Rightarrow> (go_error + nat) \<times> os_file" where
  "LogStore pb le writer =
     (case EncodeLogEntry pb le of
        Inl e \<Rightarrow> (Inl e, writer)
      | Inr encodedLogEntry \<Rightarrow>
          (case file_write (header_bytes (length encodedLogEntry)) writer of
             (Inl e, writer') \<Rightarrow> (Inl e, writer')
           | (Inr _, writer') \<Rightarrow> file_write encodedLogEntry writer'))"

text \<open>The entry, the number of bytes the method reports, and the rest of the input.\<close>

definition LogReload_entry :: "pb \<Rightarrow> bytes \<Rightarrow> go_error + LogEntry \<times> nat \<times> bytes" where
  "LogReload_entry pb reader =
     (case scan_header reader of
        Inl e \<Rightarrow> Inl e
      | Inr (length', reader1) \<Rightarrow>
          if length' < 0 then Inl (GoPanic NegativeLength)
          else
            (case read_full (nat length') reader1 of
               Inl e \<Rightarrow> Inl e
             | Inr (byteLogEntry, reader2) \<Rightarrow>
                 (case DecodeLogEntry pb byteLogEntry of
                    Inl e \<Rightarrow> Inl e
                  | Inr le \<Rightarrow> Inr (le, nat length' + 8 + 1, reader2))))"

subsection \<open>Well-formed entries\<close>

text \<open>The fast index is the one of the command the entry carries.\<close>

definition wf_LogEntry :: "LogEntry \<Rightarrow> bool" where
  "wf_LogEntry le \<longleftrightarrow> NewLogEntryList (le_Entry le) = Inr le"

lemma NewCommandFromRaw_cases:
  "NewCommandFromRaw n c = Some cmd \<Longrightarrow>
   GetCommandName cmd = n \<and> GetCommandContent cmd = c \<and> n \<in> {''KVStore'', ''DLock''}"
  by (auto simp: command_defs split: if_splits)

definition wf_command :: "CommandOperator \<Rightarrow> bool" where
  "wf_command c \<longleftrightarrow> NewCommandFromRaw (GetCommandName c) (GetCommandContent c) = Some c"

lemma wf_command_new [wf_intros, simp]:
  "wf_command (CommandKVStore (NewCommandKVStore k v))"
  "wf_command (CommandDLock (NewCommandDLock n l w t e))"
  by (simp_all add: wf_command_def command_defs Let_def)

lemma wf_command_SetAsDLockInfo [wf_intros]:
  "wf_command (CommandDLock c) \<Longrightarrow> wf_command (CommandDLock (SetAsDLockInfo li c))"
  by (cases c) (auto simp: wf_command_def command_defs split: if_splits)

lemma NewLogEntry_wf [wf_intros]:
  "wf_command c \<Longrightarrow> NewLogEntry t i c = Inr le \<Longrightarrow> wf_LogEntry le"
  by (auto simp: wf_LogEntry_def NewLogEntry_def NewLogEntryList_def wf_command_def split: sum.splits)

lemma NewLogEntryList_wf [wf_intros]: "NewLogEntryList e = Inr le \<Longrightarrow> wf_LogEntry le"
  by (auto simp: wf_LogEntry_def NewLogEntryList_def split: option.splits sum.splits)

lemma NewLogEntryList_Entry: "NewLogEntryList e = Inr le \<Longrightarrow> le_Entry le = e"
  by (auto simp: NewLogEntryList_def split: option.splits sum.splits)

lemma NewLogEntry_fields:
  "NewLogEntry t i c = Inr le \<Longrightarrow> le_Term le = t \<and> le_Index le = i \<and>
     e_CommandName (le_Entry le) = GetCommandName c \<and> e_CommandContent (le_Entry le) = GetCommandContent c"
  by (auto simp: NewLogEntry_def split: sum.splits)

lemma DecodeLogEntry_wf:
  "pb_unmarshal pb s = Inr (le_Entry le) \<Longrightarrow> wf_LogEntry le \<Longrightarrow> DecodeLogEntry pb s = Inr le"
  by (auto simp: wf_LogEntry_def NewLogEntryList_def DecodeLogEntry_def split: option.splits sum.splits)

subsection \<open>Reading back a frame\<close>

lemma hex_nat_digits: "hex_nat n \<noteq> [] \<and> (\<forall>c \<in> set (hex_nat n). is_hex c)"
proof (induction n rule: hex_nat.induct)
  case (1 n)
  then show ?case by (cases "n < 16") (auto simp: hex_nat.simps [of n] is_hex_def)
qed

lemma hex_digits_value_hex_nat: "hex_digits_value (hex_nat n) = n"
proof (induction n rule: hex_nat.induct)
  case (1 n)
  then show ?case by (cases "n < 16") (simp_all add: hex_nat.simps [of n] hex_digits_value_def)
qed

lemma hex_nat_length: "n < 16 ^ Suc k \<Longrightarrow> length (hex_nat n) \<le> Suc k"
proof (induction k arbitrary: n)
  case 0
  then show ?case by (simp add: hex_nat.simps [of n])
next
  case (Suc k)
  show ?case
  proof (cases "n < 16")
    case False
    have "n div 16 < 16 ^ Suc k" using Suc.prems by (simp add: less_mult_imp_div_less)
    then have "length (hex_nat (n div 16)) \<le> Suc k" by (rule Suc.IH)
    with False show ?thesis by (simp add: hex_nat.simps [of n])
  qed (simp add: hex_nat.simps [of n])
qed

lemma is_hex_char: "is_hex c \<Longrightarrow> \<not> scan_space c \<and> c \<notin> {CHR 0x0A, CHR ''-'', CHR ''+''}"
  by (auto simp: is_hex_def hex_value_def scan_space_def)

lemma scan_header_frame:
  assumes "n < 2 ^ 32"
  shows "scan_header (header_bytes n @ r) = Inr (int n, r)"
proof -
  have len: "length (hex_nat n) \<le> 8" using hex_nat_length [of n 7] assms by simp
  obtain c cs where c: "hex_nat n = c # cs" using hex_nat_digits [of n] by (cases "hex_nat n") auto
  have hex: "\<forall>x \<in> set (hex_nat n). is_hex x" using hex_nat_digits by blast
  have "hd (hex_nat n @ CHR 0x0A # r) = c" "\<not> scan_space c"
    using c hex is_hex_char by auto
  then have "dropWhile scan_space (replicate (8 - length (hex_nat n)) CHR '' '' @ (hex_nat n @ CHR 0x0A # r))
      = hex_nat n @ CHR 0x0A # r"
    by (intro dropWhile_append_stop) (auto simp: scan_space_def)
  then have s1: "dropWhile scan_space (header_bytes n @ r) = hex_nat n @ CHR 0x0A # r"
    by (simp add: header_bytes_def)
  have take8: "take 8 (hex_nat n @ CHR 0x0A # r) = hex_nat n @ take (8 - length (hex_nat n)) (CHR 0x0A # r)"
    using len by simp
  have ds: "takeWhile is_hex (take 8 (hex_nat n @ CHR 0x0A # r)) = hex_nat n"
    unfolding take8 using hex
    by (intro takeWhile_append_stop) (auto simp: take_Cons' is_hex_def hex_value_def)
  have "hd (hex_nat n @ CHR 0x0A # r) \<notin> {CHR 0x0A, CHR ''-'', CHR ''+''}"
    using c hex is_hex_char by auto
  then show ?thesis
    using s1 ds c hex_digits_value_hex_nat [of n]
    by (simp add: scan_header_def Let_def scan_space_def)
qed

text \<open>The frame of an encoded entry.\<close>

definition frame :: "bytes \<Rightarrow> bytes" where
  "frame enc = header_bytes (length enc) @ enc"

lemma LogReload_entry_frame:
  assumes "length enc < 2 ^ 32" "pb_unmarshal pb enc = Inr (le_Entry le)" "wf_LogEntry le"
  shows "LogReload_entry pb (frame enc @ r) = Inr (le, length enc + 9, r)"
  using assms
  by (simp add: LogReload_entry_def frame_def scan_header_frame read_full_def DecodeLogEntry_wf)

lemma LogStore_frame:
  assumes "f_room f = None" "pb_marshal pb (le_Entry le) = Inr enc"
  shows "LogStore pb le f = (Inr (length enc), f\<lparr>f_bytes := f_bytes f @ frame enc\<rparr>)"
  using assms by (simp add: LogStore_def EncodeLogEntry_def file_write_def frame_def)

lemma scan_header_shorter:
  assumes "scan_header s = Inr (n, r)"
  shows "length r < length s"
proof -
  let ?s1 = "dropWhile scan_space s"
  obtain sg s2 ds where
    sg: "sg = (if hd ?s1 = CHR ''-'' \<or> hd ?s1 = CHR ''+'' then [hd ?s1] else [])"
    and s2: "s2 = drop (length sg) ?s1" and ds: "ds = takeWhile is_hex (take (8 - length sg) s2)"
    and ne: "s2 \<noteq> []" "ds \<noteq> []"
    and r: "r = tl (dropWhile scan_space (drop (length ds) s2))"
    using assms by (auto simp: scan_header_def Let_def split: if_splits)
  have "length r \<le> length s2 - length ds"
    using length_dropWhile_le [of scan_space "drop (length ds) s2"] r by simp
  moreover have "length s2 \<le> length s"
    using length_dropWhile_le [of scan_space s] s2 by simp
  moreover have "0 < length ds" "0 < length s2" using ne by auto
  ultimately show ?thesis by linarith
qed

lemma LogReload_entry_shorter:
  "LogReload_entry pb s = Inr (le, n, r) \<Longrightarrow> length r < length s"
  by (auto simp: LogReload_entry_def read_full_def split: sum.splits prod.splits if_splits
      dest!: scan_header_shorter)

end
