(* ===== verification/Log_Memory.thy ===== *)
theory Log_Memory
  imports Log_Entry
begin

section \<open>The in-memory log (storage/log_memory.go)\<close>

text \<open>
  The log is a map from indexes to entries and the largest index ever inserted. The loops over
  indexes count upwards to an end index; the model stops at the end index itself, so it differs
  from the code only for an end index of \<open>2\<^sup>6\<^sup>4 - 1\<close>, where the counter of the code wraps around.

  The interface the rest of the node relies on is the locale \<open>indexed_log\<close> (what a lookup
  returns after an insertion, and what an insertion keeps); its lemmas about appending to the
  log are used by the lock interchange and the Raft handlers. The section on the disk proves
  that a stored log is reloaded unchanged.
\<close>

subsection \<open>Data and operations\<close>

record LogMemory =
  logInMemory :: "u64 \<rightharpoonup> LogEntry"
  maximumIndex :: u64

definition NewLogMemory :: LogMemory where
  "NewLogMemory = \<lparr>logInMemory = Map.empty, maximumIndex = 0\<rparr>"

definition MaximumIndex :: "LogMemory \<Rightarrow> u64" where
  "MaximumIndex lm = maximumIndex lm"

definition put_entry :: "LogMemory \<Rightarrow> LogEntry \<Rightarrow> LogMemory" where
  "put_entry lm entry =
     lm\<lparr>logInMemory := (logInMemory lm)(le_Index entry \<mapsto> entry),
        maximumIndex := (if maximumIndex lm < le_Index entry then le_Index entry else maximumIndex lm)\<rparr>"

definition InsertLogEntry :: "LogMemory \<Rightarrow> LogEntry option \<Rightarrow> go_error option \<times> LogMemory" where
  "InsertLogEntry lm entry =
     (case entry of
        None \<Rightarrow> (Some InMemoryLogInsertError, lm)
      | Some e \<Rightarrow> (None, put_entry lm e))"

definition FetchLogEntry :: "LogMemory \<Rightarrow> u64 \<Rightarrow> go_error + LogEntry" where
  "FetchLogEntry lm index =
     (if maximumIndex lm < index then Inl InMemoryLogEntryNotExistError
      else case logInMemory lm index of
             None \<Rightarrow> Inl InMemoryLogEntryNotExistError
           | Some e \<Rightarrow> Inr e)"

fun InsertValidEntryList :: "LogMemory \<Rightarrow> LogEntry option list \<Rightarrow> go_error option \<times> LogMemory" where
  "InsertValidEntryList lm [] = (None, lm)"
| "InsertValidEntryList lm (entry # rest) =
     (case InsertLogEntry lm entry of
        (Some e, lm') \<Rightarrow> (Some e, lm')
      | (None, lm') \<Rightarrow> InsertValidEntryList lm' rest)"

function last_index_loop :: "LogMemory \<Rightarrow> u64 \<Rightarrow> u64 \<Rightarrow> go_error + u64" where
  "last_index_loop lm term i =
     (if i = 0 then Inl InMemoryNoSpecificTerm
      else case FetchLogEntry lm i of
             Inl e \<Rightarrow> Inl e
           | Inr logEntry \<Rightarrow> if le_Term logEntry = term then Inr i else last_index_loop lm term (i - 1))"
  by pat_completeness auto
termination
  by (relation "measure (\<lambda>(lm, term, i). unat i)") (auto simp: unat_minus_one unat_gt_0)

declare last_index_loop.simps [simp del]

definition FetchLastIndexOfTerm :: "LogMemory \<Rightarrow> u64 \<Rightarrow> go_error + u64" where
  "FetchLastIndexOfTerm lm term = (if term = 0 then Inr 0 else last_index_loop lm term (maximumIndex lm))"

function store_loop :: "pb \<Rightarrow> LogMemory \<Rightarrow> u64 \<Rightarrow> u64 \<Rightarrow> nat \<Rightarrow> os_file \<Rightarrow> (go_error + nat) \<times> os_file" where
  "store_loop pb lm i end' totalBytesWritten writer =
     (case FetchLogEntry lm i of
        Inl err1 \<Rightarrow> (Inl err1, writer)
      | Inr entry \<Rightarrow>
          (case LogStore pb entry writer of
             (Inl err2, writer') \<Rightarrow> (Inl err2, writer')
           | (Inr currentBytesWritten, writer') \<Rightarrow>
               if i < end'
               then store_loop pb lm (i + 1) end' (totalBytesWritten + currentBytesWritten) writer'
               else (Inr (totalBytesWritten + currentBytesWritten), writer')))"
  by pat_completeness auto
termination
  by (relation "measure (\<lambda>(pb, lm, i, end', t, w). unat end' - unat i)")
     (auto simp: unat_Suc_no_wrap word_less_nat_alt)

declare store_loop.simps [simp del]

definition StoreLogMemory :: "pb \<Rightarrow> LogMemory \<Rightarrow> u64 \<Rightarrow> u64 \<Rightarrow> os_file \<Rightarrow> (go_error + nat) \<times> os_file" where
  "StoreLogMemory pb lm start end' writer =
     (if start = 0 \<or> end' = 0 \<or> maximumIndex lm < start \<or> maximumIndex lm < end' \<or> end' < start
      then (Inl InMemoryLogStoreError, writer)
      else store_loop pb lm start end' 0 writer)"

function LogReload :: "pb \<Rightarrow> LogMemory \<Rightarrow> bytes \<Rightarrow> nat \<Rightarrow> (go_error + nat) \<times> LogMemory" where
  "LogReload pb lm reader totalReadBytes =
     (case LogReload_entry pb reader of
        Inl e \<Rightarrow> if e = IoEOF then (Inr totalReadBytes, lm) else (Inl e, lm)
      | Inr (recoverLogEntry, currentReadBytes, reader') \<Rightarrow>
          LogReload pb (put_entry lm recoverLogEntry) reader' (totalReadBytes + currentReadBytes))"
  by pat_completeness auto
termination
  by (relation "measure (\<lambda>(pb, lm, r, t). length r)") (auto dest: LogReload_entry_shorter)

declare LogReload.simps [simp del]

subsection \<open>Invariant\<close>

definition wf_LogMemory :: "LogMemory \<Rightarrow> bool" where
  "wf_LogMemory lm \<longleftrightarrow>
     (\<forall>i e. logInMemory lm i = Some e \<longrightarrow> le_Index e = i \<and> i \<le> maximumIndex lm \<and> wf_LogEntry e)"

text \<open>No holes: the indexes present are exactly those from 1 to the maximum.\<close>

definition contiguous :: "LogMemory \<Rightarrow> bool" where
  "contiguous lm \<longleftrightarrow> dom (logInMemory lm) = {1..maximumIndex lm}"

lemma wf_NewLogMemory [wf_intros]: "wf_LogMemory NewLogMemory" "contiguous NewLogMemory"
  by (simp_all add: wf_LogMemory_def contiguous_def NewLogMemory_def)

lemma wf_put_entry [wf_intros]: "wf_LogMemory lm \<Longrightarrow> wf_LogEntry e \<Longrightarrow> wf_LogMemory (put_entry lm e)"
  by (fastforce simp: wf_LogMemory_def put_entry_def)

lemma wf_LogMemoryD:
  "wf_LogMemory lm \<Longrightarrow> logInMemory lm i = Some e \<Longrightarrow>
   le_Index e = i \<and> i \<le> maximumIndex lm \<and> wf_LogEntry e"
  by (simp add: wf_LogMemory_def)

lemma FetchLogEntry_iff: "wf_LogMemory lm \<Longrightarrow> FetchLogEntry lm i = Inr e \<longleftrightarrow> logInMemory lm i = Some e"
  by (auto simp: FetchLogEntry_def split: option.splits dest: wf_LogMemoryD leD)

subsection \<open>The interface of a log\<close>

locale indexed_log =
  fixes put :: "'l \<Rightarrow> 'e \<Rightarrow> 'l"
    and get :: "'l \<Rightarrow> u64 \<Rightarrow> 'e option"
    and top :: "'l \<Rightarrow> u64"
    and idx :: "'e \<Rightarrow> u64"
    and ok :: "'e \<Rightarrow> bool"
    and invar :: "'l \<Rightarrow> bool"
  assumes get_put: "invar l \<Longrightarrow> ok e \<Longrightarrow> get (put l e) i = (if i = idx e then Some e else get l i)"
    and top_put: "top (put l e) = max (top l) (idx e)"
    and invar_put: "invar l \<Longrightarrow> ok e \<Longrightarrow> invar (put l e)"
    and get_le_top: "invar l \<Longrightarrow> get l i = Some e \<Longrightarrow> i \<le> top l"
begin

lemma invar_put_all: "invar l \<Longrightarrow> \<forall>e \<in> set es. ok e \<Longrightarrow> invar (foldl put l es)"
  by (induction es arbitrary: l) (auto simp: invar_put)

lemma top_put_all: "top (foldl put l es) = foldl max (top l) (map idx es)"
  by (induction es arbitrary: l) (simp_all add: top_put)

lemma top_put_all_ge: "top l \<le> top (foldl put l es)"
proof (induction es arbitrary: l)
  case (Cons e es)
  have "top l \<le> top (put l e)" by (simp add: top_put)
  with Cons [of "put l e"] show ?case by simp
qed simp

lemma get_put_all_other:
  "invar l \<Longrightarrow> \<forall>e \<in> set es. ok e \<Longrightarrow> i \<notin> idx ` set es \<Longrightarrow> get (foldl put l es) i = get l i"
  by (induction es arbitrary: l) (auto simp: get_put invar_put)

lemma get_put_all_in:
  assumes "invar l" "\<forall>e \<in> set es. ok e" "distinct (map idx es)" "e \<in> set es"
  shows "get (foldl put l es) (idx e) = Some e"
  using assms
proof (induction es arbitrary: l)
  case (Cons x es)
  show ?case
  proof (cases "e = x")
    case True
    with Cons.prems have "get (foldl put (put l x) es) (idx e) = get (put l x) (idx e)"
      by (intro get_put_all_other) (auto simp: invar_put)
    with True Cons.prems show ?thesis by (simp add: get_put)
  next
    case False
    with Cons show ?thesis by (auto simp: invar_put)
  qed
qed simp

text \<open>Appending at the next index.\<close>

lemma append_next:
  assumes "invar l" "ok e" "idx e = top l + 1" "top l < top l + 1"
  shows "top (put l e) = top l + 1" "get (put l e) (top l + 1) = Some e"
    "\<And>i. i \<le> top l \<Longrightarrow> get (put l e) i = get l i"
  using assms by (auto simp: top_put get_put max_def)

lemma append_next_dom:
  assumes "invar l" "ok e" "idx e = top l + 1" "top l < top l + 1" "dom (get l) = {1..top l}"
  shows "dom (get (put l e)) = {1..top (put l e)}"
proof -
  have "get (put l e) = (get l)(top l + 1 \<mapsto> e)"
    using assms(1-3) by (auto simp: get_put)
  moreover have "{1..top l + 1} = insert (top l + 1) {1..top l}"
    using assms(4) by (auto simp: word_le_nat_alt unat_Suc_no_wrap word_unat_eq_iff)
  ultimately show ?thesis
    using assms append_next(1) [OF assms(1-4)] by simp
qed

end

interpretation mem: indexed_log put_entry logInMemory maximumIndex le_Index wf_LogEntry wf_LogMemory
proof
  show "wf_LogMemory l \<Longrightarrow> wf_LogEntry e \<Longrightarrow> wf_LogMemory (put_entry l e)" for l e
    by (rule wf_put_entry)
  show "wf_LogMemory l \<Longrightarrow> logInMemory l i = Some e \<Longrightarrow> i \<le> maximumIndex l" for l i e
    by (simp add: wf_LogMemory_def)
qed (auto simp: put_entry_def max_def)

lemma InsertValidEntryList_Some:
  "InsertValidEntryList lm (map Some es) = (None, foldl put_entry lm es)"
  by (induction es arbitrary: lm) (simp_all add: InsertLogEntry_def)

lemma contiguous_append [wf_intros]:
  assumes "wf_LogMemory lm" "contiguous lm" "wf_LogEntry e"
    and "le_Index e = maximumIndex lm + 1" "maximumIndex lm < maximumIndex lm + 1"
  shows "contiguous (put_entry lm e)"
  using mem.append_next_dom [OF assms(1,3-5)] assms(2) by (simp add: contiguous_def)

lemma contiguous_lookup:
  "contiguous lm \<Longrightarrow> 1 \<le> i \<Longrightarrow> i \<le> maximumIndex lm \<Longrightarrow> \<exists>e. logInMemory lm i = Some e"
  unfolding contiguous_def by (metis atLeastAtMost_iff domD)

lemma contiguous_fetch:
  "contiguous lm \<Longrightarrow> 1 \<le> i \<Longrightarrow> i \<le> maximumIndex lm \<Longrightarrow> \<exists>e. FetchLogEntry lm i = Inr e \<and> logInMemory lm i = Some e"
  using contiguous_lookup [of lm i] by (auto simp: FetchLogEntry_def)

lemma word_ge_1: "(1 :: 'a::len word) \<le> i \<longleftrightarrow> i \<noteq> 0"
  by (simp add: word_le_nat_alt Suc_le_eq unat_gt_0)

lemma word_pred_less: "(i :: 'a::len word) \<noteq> 0 \<Longrightarrow> i - 1 < i \<and> unat (i - 1) = unat i - 1"
  by (simp add: unat_minus_one word_less_nat_alt unat_gt_0)

subsection \<open>The last index of a term\<close>

text \<open>In a log without holes the search returns the largest index of the term, or reports none.\<close>

definition last_of_term :: "LogMemory \<Rightarrow> u64 \<Rightarrow> u64 \<Rightarrow> u64 \<Rightarrow> bool" where
  "last_of_term lm tm i j \<longleftrightarrow>
     1 \<le> j \<and> j \<le> i \<and> (\<exists>e. logInMemory lm j = Some e \<and> le_Term e = tm) \<and>
     (\<forall>k e. j < k \<longrightarrow> k \<le> i \<longrightarrow> logInMemory lm k = Some e \<longrightarrow> le_Term e \<noteq> tm)"

definition none_of_term :: "LogMemory \<Rightarrow> u64 \<Rightarrow> u64 \<Rightarrow> bool" where
  "none_of_term lm tm i \<longleftrightarrow>
     (\<forall>k e. 1 \<le> k \<longrightarrow> k \<le> i \<longrightarrow> logInMemory lm k = Some e \<longrightarrow> le_Term e \<noteq> tm)"

lemma word_le_pred_iff: "(i :: 'a::len word) \<noteq> 0 \<Longrightarrow> k \<le> i \<longleftrightarrow> k \<le> i - 1 \<or> k = i"
  using word_pred_less [of i] by (auto simp: word_le_nat_alt word_unat_eq_iff)

lemma last_index_loop_spec:
  assumes "contiguous lm" "i \<le> maximumIndex lm"
  shows "(\<exists>j. last_index_loop lm tm i = Inr j \<and> last_of_term lm tm i j) \<or>
    (last_index_loop lm tm i = Inl InMemoryNoSpecificTerm \<and> none_of_term lm tm i)"
  using assms
proof (induction lm tm i rule: last_index_loop.induct)
  case (1 lm tm i)
  show ?case
  proof (cases "i = 0")
    case True
    then show ?thesis
      by (simp add: last_index_loop.simps none_of_term_def word_ge_1)
  next
    case False
    with "1.prems" obtain e where e: "FetchLogEntry lm i = Inr e" "logInMemory lm i = Some e"
      using contiguous_fetch [of lm i] word_ge_1 [of i] by blast
    show ?thesis
    proof (cases "le_Term e = tm")
      case True
      with False e have "last_index_loop lm tm i = Inr i" "last_of_term lm tm i i"
        by (auto simp: last_index_loop.simps [of lm tm i] last_of_term_def word_ge_1)
      then show ?thesis by blast
    next
      case neq: False
      have "i - 1 \<le> maximumIndex lm"
        using False "1.prems"(2) word_pred_less [of i] by (meson less_imp_le order.trans)
      with 1 False e neq have IH: "(\<exists>j. last_index_loop lm tm (i - 1) = Inr j \<and> last_of_term lm tm (i - 1) j) \<or>
        (last_index_loop lm tm (i - 1) = Inl InMemoryNoSpecificTerm \<and> none_of_term lm tm (i - 1))"
        by blast
      have step: "last_index_loop lm tm i = last_index_loop lm tm (i - 1)"
        using False e neq by (simp add: last_index_loop.simps [of lm tm i])
      show ?thesis
        using IH e neq word_le_pred_iff [OF False] unfolding step last_of_term_def none_of_term_def
        by (auto 4 3)
    qed
  qed
qed

theorem FetchLastIndexOfTerm_spec:
  assumes "contiguous lm" "tm \<noteq> 0"
  shows "FetchLastIndexOfTerm lm tm = Inr j \<Longrightarrow> last_of_term lm tm (maximumIndex lm) j"
    and "FetchLastIndexOfTerm lm tm = Inl er \<Longrightarrow>
           er = InMemoryNoSpecificTerm \<and> none_of_term lm tm (maximumIndex lm)"
  using last_index_loop_spec [OF assms(1) order_refl, of tm] assms(2)
  by (auto simp: FetchLastIndexOfTerm_def)

subsection \<open>Storing a log and reloading it\<close>

text \<open>The entries from one index to another, in order.\<close>

definition log_range :: "LogMemory \<Rightarrow> u64 \<Rightarrow> u64 \<Rightarrow> LogEntry list" where
  "log_range lm i j = map (\<lambda>k. the (logInMemory lm (of_nat k))) [unat i..<Suc (unat j)]"

lemma log_range_step:
  assumes "i < j"
  shows "log_range lm i j = the (logInMemory lm i) # log_range lm (i + 1) j"
proof -
  have "[unat i..<Suc (unat j)] = unat i # [unat (i + 1)..<Suc (unat j)]"
    using assms by (simp add: unat_Suc_no_wrap word_less_nat_alt upt_conv_Cons)
  then show ?thesis by (simp add: log_range_def)
qed

lemma log_range_last: "log_range lm i i = [the (logInMemory lm i)]"
  by (simp add: log_range_def)

text \<open>
  What the code relies on of the protobuf package, for the entries at hand: an entry is
  encoded in less than 4 GiB and decoded to the same entry.
\<close>

definition pb_roundtrip :: "pb \<Rightarrow> Entry \<Rightarrow> bool" where
  "pb_roundtrip pb e \<longleftrightarrow>
     (case pb_marshal pb e of
        Inl _ \<Rightarrow> False
      | Inr enc \<Rightarrow> length enc < 2 ^ 32 \<and> pb_unmarshal pb enc = Inr e)"

definition entry_frame :: "pb \<Rightarrow> LogEntry \<Rightarrow> bytes" where
  "entry_frame pb e = (case pb_marshal pb (le_Entry e) of Inl _ \<Rightarrow> [] | Inr enc \<Rightarrow> frame enc)"

lemma pb_roundtripE:
  assumes "pb_roundtrip pb (le_Entry e)"
  obtains enc where "pb_marshal pb (le_Entry e) = Inr enc" "entry_frame pb e = frame enc"
    "length enc < 2 ^ 32" "pb_unmarshal pb enc = Inr (le_Entry e)"
  using assms by (cases "pb_marshal pb (le_Entry e)") (auto simp: pb_roundtrip_def entry_frame_def)

lemma store_loop_frames:
  assumes "contiguous lm" "1 \<le> i" "i \<le> j" "j \<le> maximumIndex lm" "f_room w = None"
    and "\<forall>e \<in> set (log_range lm i j). pb_roundtrip pb (le_Entry e)"
  shows "\<exists>n. store_loop pb lm i j t w
    = (Inr n, w\<lparr>f_bytes := f_bytes w @ concat (map (entry_frame pb) (log_range lm i j))\<rparr>)"
  using assms
proof (induction pb lm i j t w rule: store_loop.induct)
  case (1 pb lm i j t w)
  obtain e where e: "FetchLogEntry lm i = Inr e" "logInMemory lm i = Some e"
    using contiguous_fetch [of lm i] 1 by (meson order.trans)
  have mem: "e \<in> set (log_range lm i j)"
    using e(2) "1.prems"(3) log_range_step [of i j lm] log_range_last [of lm i] by (cases "i = j") auto
  then obtain enc where enc: "pb_marshal pb (le_Entry e) = Inr enc" "entry_frame pb e = frame enc"
    using "1.prems"(6) by (blast elim: pb_roundtripE)
  let ?w = "w\<lparr>f_bytes := f_bytes w @ frame enc\<rparr>"
  have st: "LogStore pb e w = (Inr (length enc), ?w)"
    by (rule LogStore_frame) (use enc "1.prems" in auto)
  show ?case
  proof (cases "i < j")
    case True
    have le: "1 \<le> i + 1" "i + 1 \<le> j"
      using True by (auto simp: word_ge_1 word_succ_le) (metis word_less_succ word_not_simps(1))
    have "\<exists>n. store_loop pb lm (i + 1) j (t + length enc) ?w
      = (Inr n, ?w\<lparr>f_bytes := f_bytes ?w @ concat (map (entry_frame pb) (log_range lm (i + 1) j))\<rparr>)"
      by (rule "1.IH" [OF e(1) st [symmetric] refl True])
         (use "1.prems" le log_range_step [OF True, of lm] in auto)
    with True e st enc log_range_step [OF True, of lm] show ?thesis
      by (auto simp: store_loop.simps [of pb lm i j t w])
  next
    case False
    with "1.prems"(3) have "i = j" by simp
    with e st enc show ?thesis
      by (auto simp: store_loop.simps [of pb lm j j t w] log_range_last)
  qed
qed

lemma LogReload_frames:
  assumes "\<forall>e \<in> set es. pb_roundtrip pb (le_Entry e) \<and> wf_LogEntry e"
  shows "\<exists>n. LogReload pb lm (concat (map (entry_frame pb) es)) t = (Inr n, foldl put_entry lm es)"
  using assms
proof (induction es arbitrary: lm t)
  case Nil
  have "LogReload_entry pb [] = Inl IoEOF" by (simp add: LogReload_entry_def scan_header_def)
  then show ?case by (simp add: LogReload.simps [of pb lm "[]"])
next
  case (Cons e es)
  then have "pb_roundtrip pb (le_Entry e)" by simp
  then obtain enc where enc: "entry_frame pb e = frame enc" "length enc < 2 ^ 32"
      "pb_unmarshal pb enc = Inr (le_Entry e)"
    by (rule pb_roundtripE)
  let ?r = "concat (map (entry_frame pb) es)"
  have "LogReload_entry pb (frame enc @ ?r) = Inr (e, length enc + 9, ?r)"
    by (rule LogReload_entry_frame) (use enc Cons.prems in auto)
  moreover obtain n where "LogReload pb (put_entry lm e) ?r (t + (length enc + 9))
      = (Inr n, foldl put_entry (put_entry lm e) es)"
    using Cons.IH [of "put_entry lm e" "t + (length enc + 9)"] Cons.prems by force
  ultimately show ?case
    using enc by (simp add: LogReload.simps [of pb lm "frame enc @ ?r"])
qed

lemma log_range_all:
  assumes "contiguous lm" "k \<in> {1..maximumIndex lm}"
  shows "the (logInMemory lm k) \<in> set (log_range lm 1 (maximumIndex lm))"
proof -
  have "unat k \<in> set [unat (1 :: u64)..<Suc (unat (maximumIndex lm))]"
    using assms(2) by (auto simp: word_le_nat_alt)
  then have "the (logInMemory lm (of_nat (unat k))) \<in> set (log_range lm 1 (maximumIndex lm))"
    unfolding log_range_def set_map by (rule imageI)
  then show ?thesis by simp
qed

lemma log_range_member:
  assumes "wf_LogMemory lm" "contiguous lm" "e \<in> set (log_range lm 1 (maximumIndex lm))"
  shows "logInMemory lm (le_Index e) = Some e \<and> wf_LogEntry e"
proof -
  from assms(3) obtain k where k: "1 \<le> k" "k \<le> unat (maximumIndex lm)"
      "e = the (logInMemory lm (of_nat k))"
    by (auto simp: log_range_def)
  have "unat (of_nat k :: u64) = k"
    using k(2) unsigned_less [of "maximumIndex lm", where ?'a = nat] by (simp add: unat_of_nat)
  then have "1 \<le> (of_nat k :: u64)" "(of_nat k :: u64) \<le> maximumIndex lm"
    using k by (simp_all add: word_le_nat_alt)
  with contiguous_lookup [OF assms(2)] k(3) have "logInMemory lm (of_nat k) = Some e" by force
  with wf_LogMemoryD [OF assms(1), of "of_nat k" e] show ?thesis by simp
qed

lemma log_range_indexes:
  assumes "wf_LogMemory lm" "contiguous lm"
  shows "map (\<lambda>e. unat (le_Index e)) (log_range lm 1 (maximumIndex lm)) = [1..<Suc (unat (maximumIndex lm))]"
  unfolding log_range_def map_map unat_1
proof (rule map_idI)
  fix k assume "k \<in> set [1..<Suc (unat (maximumIndex lm))]"
  then have k: "1 \<le> k" "k \<le> unat (maximumIndex lm)" by auto
  have u: "unat (of_nat k :: u64) = k"
    using k(2) unsigned_less [of "maximumIndex lm", where ?'a = nat] by (simp add: unat_of_nat)
  then have "1 \<le> (of_nat k :: u64)" "(of_nat k :: u64) \<le> maximumIndex lm"
    using k by (simp_all add: word_le_nat_alt)
  then obtain e where e: "logInMemory lm (of_nat k) = Some e"
    using contiguous_lookup [OF assms(2)] by blast
  with wf_LogMemoryD [OF assms(1) e] u
  show "((\<lambda>e. unat (le_Index e)) \<circ> (\<lambda>k. the (logInMemory lm (of_nat k)))) k = k" by simp
qed

lemma log_range_distinct:
  assumes "wf_LogMemory lm" "contiguous lm"
  shows "distinct (map le_Index (log_range lm 1 (maximumIndex lm)))"
proof -
  have "distinct (map (\<lambda>e. unat (le_Index e)) (log_range lm 1 (maximumIndex lm)))"
    using log_range_indexes [OF assms] by simp
  then show ?thesis by (auto simp: distinct_map inj_on_def)
qed

lemma foldl_max_upper: "\<forall>x \<in> set xs. x \<le> b \<Longrightarrow> a \<le> b \<Longrightarrow> foldl max a xs \<le> (b :: 'a::linorder)"
  by (induction xs arbitrary: a) auto

lemma foldl_max_ge: "a \<le> foldl max a (xs :: 'a::linorder list)"
proof (induction xs arbitrary: a)
  case (Cons y ys)
  from Cons [of "max a y"] show ?case by simp
qed simp

lemma foldl_max_member: "x \<in> set xs \<Longrightarrow> x \<le> foldl max a (xs :: 'a::linorder list)"
proof (induction xs arbitrary: a)
  case (Cons y ys)
  have "y \<le> foldl max (max a y) ys"
    using foldl_max_ge [of "max a y" ys] by simp
  with Cons show ?case by auto
qed simp

lemma rebuild_log:
  assumes "wf_LogMemory lm" "contiguous lm"
  shows "foldl put_entry NewLogMemory (log_range lm 1 (maximumIndex lm)) = lm"
proof -
  let ?es = "log_range lm 1 (maximumIndex lm)"
  let ?lm = "foldl put_entry NewLogMemory ?es"
  have ok: "\<forall>e \<in> set ?es. wf_LogEntry e"
    using log_range_member [OF assms] by blast
  have "logInMemory ?lm i = logInMemory lm i" for i
  proof (cases "logInMemory lm i")
    case None
    then have "i \<notin> le_Index ` set ?es"
      using log_range_member [OF assms] by fastforce
    then show ?thesis
      using mem.get_put_all_other [OF wf_NewLogMemory(1) ok] None by (simp add: NewLogMemory_def)
  next
    case (Some e)
    then have i: "le_Index e = i" and "i \<in> {1..maximumIndex lm}"
      using assms wf_LogMemoryD [OF assms(1) Some] by (auto simp: contiguous_def)
    then have "e \<in> set ?es"
      using log_range_all [OF assms(2), of i] Some by simp
    then show ?thesis
      using mem.get_put_all_in [OF wf_NewLogMemory(1) ok log_range_distinct [OF assms]] Some i by auto
  qed
  moreover have "maximumIndex ?lm = maximumIndex lm"
  proof (rule antisym)
    show "maximumIndex ?lm \<le> maximumIndex lm"
      unfolding mem.top_put_all
      by (rule foldl_max_upper) (use log_range_member [OF assms] assms(1) in
        \<open>auto simp: wf_LogMemory_def NewLogMemory_def\<close>)
    show "maximumIndex lm \<le> maximumIndex ?lm"
    proof (cases "maximumIndex lm = 0")
      case False
      then have m: "maximumIndex lm \<in> {1..maximumIndex lm}" by (simp add: word_ge_1)
      then obtain e where e: "logInMemory lm (maximumIndex lm) = Some e"
        using contiguous_lookup [OF assms(2), of "maximumIndex lm"] by auto
      then have "maximumIndex lm \<in> set (map le_Index ?es)"
        using log_range_all [OF assms(2) m] wf_LogMemoryD [OF assms(1) e] by force
      then show ?thesis
        unfolding mem.top_put_all by (rule foldl_max_member)
    qed simp
  qed
  ultimately show ?thesis by (auto intro!: LogMemory.equality)
qed

theorem StoreLogMemory_LogReload:
  assumes wf: "wf_LogMemory lm" "contiguous lm" "1 \<le> maximumIndex lm"
    and pb: "\<forall>i e. logInMemory lm i = Some e \<longrightarrow> pb_roundtrip pb (le_Entry e)"
  shows "\<exists>n w m. StoreLogMemory pb lm 1 (maximumIndex lm) \<lparr>f_bytes = [], f_room = None\<rparr> = (Inr n, w) \<and>
           LogReload pb NewLogMemory (f_bytes w) 0 = (Inr m, lm)"
proof -
  let ?es = "log_range lm 1 (maximumIndex lm)"
  have ok: "\<forall>e \<in> set ?es. pb_roundtrip pb (le_Entry e) \<and> wf_LogEntry e"
    using log_range_member [OF wf(1,2)] pb by blast
  let ?w = "\<lparr>f_bytes = concat (map (entry_frame pb) ?es), f_room = None\<rparr>"
  obtain n where "store_loop pb lm 1 (maximumIndex lm) 0 \<lparr>f_bytes = [], f_room = None\<rparr> = (Inr n, ?w)"
    using store_loop_frames [OF wf(2) order_refl wf(3) order_refl, of "\<lparr>f_bytes = [], f_room = None\<rparr>" pb 0] ok
    by auto
  then have "StoreLogMemory pb lm 1 (maximumIndex lm) \<lparr>f_bytes = [], f_room = None\<rparr> = (Inr n, ?w)"
    using wf(3) by (simp add: StoreLogMemory_def word_ge_1 not_less)
  moreover obtain m where "LogReload pb NewLogMemory (f_bytes ?w) 0 = (Inr m, lm)"
    using LogReload_frames [OF ok, of NewLogMemory 0] rebuild_log [OF wf(1,2)] by auto
  ultimately show ?thesis by blast
qed

lemma wf_LogEntry_inj: "wf_LogEntry e \<Longrightarrow> wf_LogEntry e' \<Longrightarrow> le_Entry e = le_Entry e' \<Longrightarrow> e = e'"
  by (simp add: wf_LogEntry_def)

lemma log_range_nth:
  assumes "unat i + k \<le> unat j"
  shows "log_range lm i j ! k = the (logInMemory lm (i + of_nat k))"
proof -
  have "log_range lm i j ! k = the (logInMemory lm (of_nat (unat i + k)))"
    using assms by (simp add: log_range_def del: upt_Suc)
  then show ?thesis by simp
qed

end
