(* ===== verification/State_Map.thy ===== *)
theory State_Map
  imports Log_Memory
begin

section \<open>The replicated state (storage/statemap_memory.go, storage/statemap_memory_impl.go)\<close>

text \<open>
  A state map is fed the committed log entries one by one. The two kinds embed the same struct,
  so they share the record \<open>StateMapMemory\<close> and differ in the operations (suffixes \<open>_KVStore\<close>
  and \<open>_DLock\<close>). An operation that changes the receiver returns it, on its error branches too.

  The locale \<open>entry_applier\<close> is the contract between applying one entry and replaying a range
  of the log: an application that succeeds, or fails with a tolerated error after having moved
  the position, moves it to the entry's index; every other failure leaves the receiver alone.
  Its lemmas (a range is replayed piecewise, replaying reads the log only inside the range, a
  failed map stays where it is) are used for both kinds through the interpretations at the end.
\<close>

subsection \<open>Data\<close>

record StateMapMemory =
  keyword :: bytes
  StateMap :: "bytes \<rightharpoonup> bytes"
  prevIndex :: u64
  prevTerm :: u64

record DlockState =
  ds_Owner :: bytes
  ds_LockNonce :: u32
  ds_LockName :: bytes
  ds_Timestamp :: i64
  ds_Expire :: i64

definition GetPrevIndex :: "StateMapMemory \<Rightarrow> u64" where
  "GetPrevIndex sm = prevIndex sm"

definition GetPrevTerm :: "StateMapMemory \<Rightarrow> u64" where
  "GetPrevTerm sm = prevTerm sm"

definition GetKeyword :: "StateMapMemory \<Rightarrow> bytes" where
  "GetKeyword sm = keyword sm"

definition SetKeyword :: "StateMapMemory \<Rightarrow> bytes \<Rightarrow> StateMapMemory" where
  "SetKeyword sm k = sm\<lparr>keyword := k\<rparr>"

definition NewDlockState :: "bytes \<Rightarrow> u32 \<Rightarrow> bytes \<Rightarrow> i64 \<Rightarrow> i64 \<Rightarrow> DlockState" where
  "NewDlockState owner lockNonce lockName timestamp expire =
     \<lparr>ds_Owner = owner, ds_LockNonce = lockNonce, ds_LockName = lockName,
      ds_Timestamp = timestamp, ds_Expire = expire\<rparr>"

definition marshal_DlockState :: "DlockState \<Rightarrow> bytes" where
  "marshal_DlockState ds =
     CHR ''{'' # json_member ''owner'' (json_quote (ds_Owner ds)) @ CHR '','' #
     json_member ''lock_nonce'' (dec_int (uint (ds_LockNonce ds))) @ CHR '','' #
     json_member ''lock_name'' (json_quote (ds_LockName ds)) @ CHR '','' #
     json_member ''timestamp'' (dec_int (sint (ds_Timestamp ds))) @ CHR '','' #
     json_member ''expire'' (dec_int (sint (ds_Expire ds))) @ [CHR ''}'']"

definition store_DlockState :: "bytes \<Rightarrow> json \<Rightarrow> DlockState \<Rightarrow> DlockState option" where
  "store_DlockState k v x =
     (if k = ''owner'' then map_option (\<lambda>s. x\<lparr>ds_Owner := s\<rparr>) (json_string (ds_Owner x) v)
      else if k = ''lock_nonce'' then map_option (\<lambda>n. x\<lparr>ds_LockNonce := n\<rparr>) (json_u32 (ds_LockNonce x) v)
      else if k = ''lock_name'' then map_option (\<lambda>s. x\<lparr>ds_LockName := s\<rparr>) (json_string (ds_LockName x) v)
      else if k = ''timestamp'' then map_option (\<lambda>n. x\<lparr>ds_Timestamp := n\<rparr>) (json_i64 (ds_Timestamp x) v)
      else if k = ''expire'' then map_option (\<lambda>n. x\<lparr>ds_Expire := n\<rparr>) (json_i64 (ds_Expire x) v)
      else Some x)"

abbreviation new_DlockState :: DlockState where
  "new_DlockState \<equiv>
     \<lparr>ds_Owner = [], ds_LockNonce = 0, ds_LockName = [], ds_Timestamp = 0, ds_Expire = 0\<rparr>"

definition unmarshal_DlockState :: "bytes \<Rightarrow> DlockState option" where
  "unmarshal_DlockState s =
     (case json_parse s of
        Some JNull \<Rightarrow> Some new_DlockState
      | Some (JObj ms) \<Rightarrow> json_store_members store_DlockState ms new_DlockState
      | _ \<Rightarrow> None)"

subsection \<open>The key-value map\<close>

definition NewStateMapMemoryKVStore :: "bytes \<Rightarrow> go_error + StateMapMemory" where
  "NewStateMapMemoryKVStore kw =
     (if \<not> has_prefix kw ''KVStore'' then Inl InMemoryStateMapCreateError
      else Inr \<lparr>keyword = kw, StateMap = Map.empty, prevIndex = 0, prevTerm = 0\<rparr>)"

definition advance :: "LogEntry \<Rightarrow> StateMapMemory \<Rightarrow> StateMapMemory" where
  "advance entry sm = sm\<lparr>prevIndex := le_Index entry, prevTerm := le_Term entry\<rparr>"

definition apply_KeyValue :: "KeyValue \<Rightarrow> LogEntry \<Rightarrow> StateMapMemory \<Rightarrow> go_error option \<times> StateMapMemory" where
  "apply_KeyValue kvStore entry sm =
     (case kv_Value kvStore of
        None \<Rightarrow>
          (if StateMap sm (kv_Key kvStore) \<noteq> None
           then (None, advance entry (sm\<lparr>StateMap := (StateMap sm)(kv_Key kvStore := None)\<rparr>))
           else (Some InMemoryStateMapDeleteNoKeyError, sm))
      | Some v \<Rightarrow> (None, advance entry (sm\<lparr>StateMap := (StateMap sm)(kv_Key kvStore \<mapsto> v)\<rparr>)))"

definition UpdateStateFromLogEntry_KVStore ::
  "StateMapMemory \<Rightarrow> LogEntry option \<Rightarrow> go_error option \<times> StateMapMemory" where
  "UpdateStateFromLogEntry_KVStore sm entry_ptr =
     (case entry_ptr of
        None \<Rightarrow> (None, sm)
      | Some entry \<Rightarrow>
          if prevIndex sm + 1 \<noteq> le_Index entry \<or> le_Term entry < prevTerm sm
          then (Some InMemoryStateMapIndexTermError, sm)
          else if \<not> has_prefix (le_fastIndex entry) (keyword sm)
          then (Some InMemoryStateMapKeywordError, advance entry sm)
          else case NewCommandFromRaw (e_CommandName (le_Entry entry)) (e_CommandContent (le_Entry entry)) of
                 Some (CommandKVStore commandKVStore) \<Rightarrow>
                   (case GetAsKVStore commandKVStore of
                      Inl err \<Rightarrow> (Some err, sm)
                    | Inr None \<Rightarrow> (Some (GoPanic NilDereference), sm)
                    | Inr (Some kvStore) \<Rightarrow> apply_KeyValue kvStore entry sm)
               | _ \<Rightarrow> (Some InMemoryStateMapContentError, sm))"

definition QuerySpecificState_KVStore :: "StateMapMemory \<Rightarrow> bytes \<Rightarrow> go_error + bytes" where
  "QuerySpecificState_KVStore sm key =
     (case StateMap sm key of None \<Rightarrow> Inl InMemoryStateMapKVFetchError | Some v \<Rightarrow> Inr v)"

subsection \<open>The lock map\<close>

definition NewStateMapMemoryDLock :: "bytes \<Rightarrow> go_error + StateMapMemory" where
  "NewStateMapMemoryDLock kw =
     (if \<not> has_prefix kw ''DLock'' then Inl InMemoryStateMapCreateError
      else Inr \<lparr>keyword = kw, StateMap = Map.empty, prevIndex = 0, prevTerm = 0\<rparr>)"

definition QuerySpecificState_DLock :: "StateMapMemory \<Rightarrow> bytes \<Rightarrow> go_error + DlockState" where
  "QuerySpecificState_DLock sm key =
     (case StateMap sm key of
        None \<Rightarrow> Inl InMemoryStateMapDLockFetchError
      | Some encodedDlockState \<Rightarrow>
          (case unmarshal_DlockState encodedDlockState of None \<Rightarrow> Inl JsonError | Some ds \<Rightarrow> Inr ds))"

definition write_LockInfo :: "LockInfo \<Rightarrow> LogEntry \<Rightarrow> StateMapMemory \<Rightarrow> StateMapMemory" where
  "write_LockInfo dlockInfo entry sm =
     (let lockState = NewDlockState (li_NewOwner dlockInfo) (li_LockNonce dlockInfo)
                        (li_LockName dlockInfo) (li_Timestamp dlockInfo) (li_Expire dlockInfo);
          encodedLockState = marshal_DlockState lockState
      in advance entry (sm\<lparr>StateMap := (StateMap sm)(li_LockName dlockInfo \<mapsto> encodedLockState)\<rparr>))"

definition apply_LockInfo :: "LockInfo \<Rightarrow> LogEntry \<Rightarrow> StateMapMemory \<Rightarrow> go_error option \<times> StateMapMemory" where
  "apply_LockInfo dlockInfo entry sm =
     (case QuerySpecificState_DLock sm (li_LockName dlockInfo) of
        Inl err2 \<Rightarrow>
          if err2 \<noteq> InMemoryStateMapDLockFetchError then (Some err2, sm)
          else (None, write_LockInfo dlockInfo entry sm)
      | Inr lockStatePrevious \<Rightarrow>
          if li_LockNonce dlockInfo \<noteq> ds_LockNonce lockStatePrevious + 1
          then (Some InMemoryStateMapDLockNonceMisMatchError, sm)
          else (None, write_LockInfo dlockInfo entry sm))"

definition UpdateStateFromLogEntry_DLock ::
  "StateMapMemory \<Rightarrow> LogEntry option \<Rightarrow> go_error option \<times> StateMapMemory" where
  "UpdateStateFromLogEntry_DLock sm entry_ptr =
     (case entry_ptr of
        None \<Rightarrow> (None, sm)
      | Some entry \<Rightarrow>
          if prevIndex sm + 1 \<noteq> le_Index entry \<or> le_Term entry < prevTerm sm
          then (Some InMemoryStateMapIndexTermError, sm)
          else if \<not> has_prefix (le_fastIndex entry) (keyword sm)
          then (Some InMemoryStateMapKeywordError, advance entry sm)
          else case NewCommandFromRaw (e_CommandName (le_Entry entry)) (e_CommandContent (le_Entry entry)) of
                 Some (CommandDLock commandDLock) \<Rightarrow>
                   (case GetAsDLockInfo commandDLock of
                      Inl err \<Rightarrow> (Some err, sm)
                    | Inr dlockInfo \<Rightarrow> apply_LockInfo dlockInfo entry sm)
               | _ \<Rightarrow> (Some InMemoryStateMapContentError, sm))"

subsection \<open>Replaying a range of the log\<close>

text \<open>
  The two \<^verbatim>\<open>UpdateStateFromLogMemory\<close> have the same loop; they differ in the application of an
  entry and in the errors after which the loop goes on.
\<close>

function update_loop ::
  "(StateMapMemory \<Rightarrow> LogEntry option \<Rightarrow> go_error option \<times> StateMapMemory) \<Rightarrow> (go_error \<Rightarrow> bool) \<Rightarrow>
   LogMemory \<Rightarrow> u64 \<Rightarrow> u64 \<Rightarrow> StateMapMemory \<Rightarrow> go_error option \<times> StateMapMemory" where
  "update_loop apply tolerated lm sequence end' sm =
     (case FetchLogEntry lm sequence of
        Inl err \<Rightarrow> (Some err, sm)
      | Inr logEntry \<Rightarrow>
          (case apply sm (Some logEntry) of
             (err, sm') \<Rightarrow>
               if (case err of None \<Rightarrow> False | Some e \<Rightarrow> \<not> tolerated e) then (err, sm')
               else if sequence < end' then update_loop apply tolerated lm (sequence + 1) end' sm'
               else (None, sm')))"
  by pat_completeness auto
termination
  by (relation "measure (\<lambda>(ap, tol, lm, i, end', sm). unat end' - unat i)")
     (auto simp: unat_Suc_no_wrap word_less_nat_alt)

declare update_loop.simps [simp del]

definition tolerated_KVStore :: "go_error \<Rightarrow> bool" where
  "tolerated_KVStore e \<longleftrightarrow> e = InMemoryStateMapKeywordError \<or> e = InMemoryStateMapDeleteNoKeyError"

definition tolerated_DLock :: "go_error \<Rightarrow> bool" where
  "tolerated_DLock e \<longleftrightarrow> e = InMemoryStateMapKeywordError"

definition range_refused :: "StateMapMemory \<Rightarrow> LogMemory \<Rightarrow> u64 \<Rightarrow> u64 \<Rightarrow> bool" where
  "range_refused sm lm start end' \<longleftrightarrow>
     start = 0 \<or> end' = 0 \<or> start \<noteq> prevIndex sm + 1 \<or> end' < start \<or> maximumIndex lm < end'"

definition UpdateStateFromLogMemory_KVStore ::
  "StateMapMemory \<Rightarrow> LogMemory \<Rightarrow> u64 \<Rightarrow> u64 \<Rightarrow> go_error option \<times> StateMapMemory" where
  "UpdateStateFromLogMemory_KVStore sm lm start end' =
     (if range_refused sm lm start end' then (Some InMemoryStateMapIndexTermError, sm)
      else update_loop UpdateStateFromLogEntry_KVStore tolerated_KVStore lm start end' sm)"

definition UpdateStateFromLogMemory_DLock ::
  "StateMapMemory \<Rightarrow> LogMemory \<Rightarrow> u64 \<Rightarrow> u64 \<Rightarrow> go_error option \<times> StateMapMemory" where
  "UpdateStateFromLogMemory_DLock sm lm start end' =
     (if range_refused sm lm start end' then (Some InMemoryStateMapIndexTermError, sm)
      else update_loop UpdateStateFromLogEntry_DLock tolerated_DLock lm start end' sm)"

lemmas update_entry_defs = UpdateStateFromLogEntry_KVStore_def UpdateStateFromLogEntry_DLock_def
  apply_KeyValue_def apply_LockInfo_def write_LockInfo_def advance_def

subsection \<open>The codec of a lock state\<close>

definition valid_DlockState :: "DlockState \<Rightarrow> bool" where
  "valid_DlockState ds \<longleftrightarrow> valid_utf8 (ds_Owner ds) \<and> valid_utf8 (ds_LockName ds)"

lemma parse_marshal_DlockState:
  assumes "valid_DlockState ds"
  shows "json_parse (marshal_DlockState ds) = Some (JObj
    [(''owner'', JStr (ds_Owner ds)), (''lock_nonce'', JNum (dec_int (uint (ds_LockNonce ds)))),
     (''lock_name'', JStr (ds_LockName ds)), (''timestamp'', JNum (dec_int (sint (ds_Timestamp ds)))),
     (''expire'', JNum (dec_int (sint (ds_Expire ds))))])"
  by (rule json_parse_object [OF marshal_DlockState_def])
     (use assms json_member_length [of "''owner''" "json_quote (ds_Owner ds)"] in
       \<open>simp_all add: marshal_DlockState_def valid_DlockState_def json_read_simps\<close>)

lemma unmarshal_marshal_DlockState:
  "valid_DlockState ds \<Longrightarrow> unmarshal_DlockState (marshal_DlockState ds) = Some ds"
  by (simp add: unmarshal_DlockState_def parse_marshal_DlockState store_DlockState_def)

lemma unmarshal_DlockState_valid:
  assumes "unmarshal_DlockState s = Some ds"
  shows "valid_DlockState ds"
proof (cases "json_parse s")
  case (Some v)
  have step: "valid_DlockState x \<Longrightarrow> str_ok v \<Longrightarrow> store_DlockState k v x = Some y \<Longrightarrow> valid_DlockState y" for k v x y
    by (auto simp: store_DlockState_def valid_DlockState_def split: if_splits dest: json_string_ok)
  have new: "valid_DlockState new_DlockState" by (simp add: valid_DlockState_def)
  have members: "json_store_members store_DlockState ms new_DlockState = Some y \<Longrightarrow>
      \<forall>(k, v) \<in> set ms. str_ok v \<Longrightarrow> valid_DlockState y" for ms y
    by (rule json_store_members_invariant [where P = valid_DlockState and st = store_DlockState, OF _ new])
       (rule step)
  from Some assms show ?thesis
    by (cases v) (auto simp: unmarshal_DlockState_def new dest!: json_parse_str_ok intro: members)
qed (use assms in \<open>simp add: unmarshal_DlockState_def\<close>)

interpretation state_codec: json_codec marshal_DlockState unmarshal_DlockState valid_DlockState
  by unfold_locales (auto intro: unmarshal_marshal_DlockState unmarshal_DlockState_valid)

subsection \<open>Replaying in pieces\<close>

text \<open>Replaying reads the log only between the two ends.\<close>

lemma loop_cong:
  assumes "\<And>k. i \<le> k \<Longrightarrow> k \<le> j \<Longrightarrow> FetchLogEntry lm k = FetchLogEntry lm' k" "i \<le> j"
  shows "update_loop ap tol lm i j sm = update_loop ap tol lm' i j sm"
  using assms
proof (induction ap tol lm i j sm rule: update_loop.induct)
  case (1 ap tol lm i j sm)
  have i: "FetchLogEntry lm i = FetchLogEntry lm' i" using 1(2) 1(3) by blast
  show ?case
  proof (cases "FetchLogEntry lm i")
    case (Inr e)
    obtain er sm' where ap: "ap sm (Some e) = (er, sm')" by fastforce
    show ?thesis
    proof (cases "(case er of None \<Rightarrow> False | Some e \<Rightarrow> \<not> tol e) \<or> \<not> i < j")
      case True
      with Inr ap i show ?thesis
        by (auto simp: update_loop.simps [of ap tol lm i] update_loop.simps [of ap tol lm' i])
    next
      case False
      then have ij: "i \<le> i + 1" "i + 1 \<le> j"
        using word_less_succ [of i j] word_succ_le [of i j] by simp_all
      have "update_loop ap tol lm (i + 1) j sm' = update_loop ap tol lm' (i + 1) j sm'"
        by (rule "1.IH" [OF Inr ap [symmetric]])
           (use False "1.prems"(1) ij in \<open>blast intro: order.trans\<close>)+
      with Inr ap i False show ?thesis
        by (simp add: update_loop.simps [of ap tol lm i] update_loop.simps [of ap tol lm' i])
    qed
  qed (use i in \<open>simp add: update_loop.simps [of ap tol lm i] update_loop.simps [of ap tol lm' i]\<close>)
qed

text \<open>A range may be replayed in two pieces.\<close>

lemma loop_split:
  assumes "i \<le> j" "j < k"
  shows "update_loop ap tol lm i k sm =
    (case update_loop ap tol lm i j sm of
       (None, sm') \<Rightarrow> update_loop ap tol lm (j + 1) k sm'
     | (Some er, sm') \<Rightarrow> (Some er, sm'))"
  using assms
proof (induction ap tol lm i j sm rule: update_loop.induct)
  case (1 ap tol lm i j sm)
  show ?case
  proof (cases "FetchLogEntry lm i")
    case (Inr e)
    obtain er sm' where ap: "ap sm (Some e) = (er, sm')" by fastforce
    have ik: "i < k" using "1.prems" by simp
    show ?thesis
    proof (cases "case er of None \<Rightarrow> False | Some e \<Rightarrow> \<not> tol e")
      case True
      with Inr ap show ?thesis
        by (cases er) (auto simp: update_loop.simps [of ap tol lm i])
    next
      case ok: False
      show ?thesis
      proof (cases "i < j")
        case True
        have "update_loop ap tol lm (i + 1) k sm' =
          (case update_loop ap tol lm (i + 1) j sm' of
             (None, sm'') \<Rightarrow> update_loop ap tol lm (j + 1) k sm''
           | (Some er, sm'') \<Rightarrow> (Some er, sm''))"
          by (rule "1.IH" [OF Inr ap [symmetric] ok True])
             (use True "1.prems" in \<open>auto intro: word_succ_le\<close>)
        with Inr ap ok True ik show ?thesis
          by (simp add: update_loop.simps [of ap tol lm i])
      next
        case False
        with "1.prems" have "i = j" by simp
        with Inr ap ok ik show ?thesis
          by (simp add: update_loop.simps [of ap tol lm j])
      qed
    qed
  qed (simp add: update_loop.simps [of ap tol lm i])
qed

lemma update_loop_invariant:
  assumes "\<And>sm e er sm'. P sm \<Longrightarrow> ap sm (Some e) = (er, sm') \<Longrightarrow> P sm'"
  shows "P sm \<Longrightarrow> update_loop ap tol lm i j sm = (er, sm') \<Longrightarrow> P sm'"
proof (induction "unat j - unat i" arbitrary: i sm)
  case 0
  then have "\<not> i < j" by (simp add: word_less_nat_alt)
  with 0 assms show ?case
    by (auto simp: update_loop.simps [of ap tol lm i] split: sum.splits prod.splits if_splits; blast)
next
  case (Suc n)
  then have "i < j" by (simp add: word_less_nat_alt)
  then have n: "n = unat j - unat (i + 1)" using Suc(2) by (simp add: unat_Suc_no_wrap)
  from Suc.prems assms Suc.hyps(1) [OF n] show ?case
    by (auto simp: update_loop.simps [of ap tol lm i] split: sum.splits prod.splits if_splits; blast)
qed

subsection \<open>The contract between applying an entry and replaying a range\<close>

locale entry_applier =
  fixes ap :: "StateMapMemory \<Rightarrow> LogEntry option \<Rightarrow> go_error option \<times> StateMapMemory"
    and tol :: "go_error \<Rightarrow> bool"
  assumes ap_ok: "ap sm (Some e) = (None, sm') \<Longrightarrow> prevIndex sm' = le_Index e \<and> prevTerm sm' = le_Term e"
    and ap_fail: "ap sm (Some e) = (Some er, sm') \<Longrightarrow>
          sm' = sm \<or> (tol er \<and> prevIndex sm' = le_Index e \<and> prevTerm sm' = le_Term e)"
    and ap_position: "prevIndex sm + 1 \<noteq> le_Index e \<Longrightarrow>
          ap sm (Some e) = (Some InMemoryStateMapIndexTermError, sm)"
    and ap_keyword: "ap sm (Some e) = (r, sm') \<Longrightarrow> keyword sm' = keyword sm"
    and position_not_tolerated: "\<not> tol InMemoryStateMapIndexTermError"
begin

text \<open>A map that is not just before the range does not move.\<close>

lemma loop_wrong_position:
  assumes "wf_LogMemory lm" "FetchLogEntry lm i = Inr e" "i \<noteq> prevIndex sm + 1"
  shows "update_loop ap tol lm i j sm = (Some InMemoryStateMapIndexTermError, sm)"
proof -
  have "le_Index e = i"
    using assms by (metis FetchLogEntry_iff wf_LogMemoryD)
  with assms ap_position [of sm e] position_not_tolerated show ?thesis
    by (simp add: update_loop.simps [of ap tol lm i])
qed

lemma loop_keyword: "update_loop ap tol lm i j sm = (er, sm') \<Longrightarrow> keyword sm' = keyword sm"
  by (rule update_loop_invariant [where P = "\<lambda>x. keyword x = keyword sm"]) (auto dest: ap_keyword)

end

text \<open>
  The lock map tolerates only errors after which the position has moved. A success then ends
  exactly at the end of the range.
\<close>

locale strict_applier = entry_applier +
  assumes tolerated_moves: "ap sm (Some e) = (Some er, sm') \<Longrightarrow> tol er \<Longrightarrow> prevIndex sm' = le_Index e"
begin

lemma loop_success_position:
  assumes "wf_LogMemory lm" "i \<le> j" "update_loop ap tol lm i j sm = (None, sm')"
  shows "prevIndex sm' = j"
  using assms(2-)
proof (induction "unat j - unat i" arbitrary: i sm)
  case 0
  then have ij: "i = j" "\<not> i < j" by (simp_all add: word_le_nat_alt word_less_nat_alt word_unat_eq_iff)
  from 0 obtain e r where e: "FetchLogEntry lm i = Inr e" "ap sm (Some e) = (r, sm')"
    and r: "r = None \<or> (\<exists>er. r = Some er \<and> tol er)"
    by (auto simp: update_loop.simps [of ap tol lm i] ij(2) split: sum.splits prod.splits if_splits option.splits)
  have "le_Index e = i"
    using e(1) assms(1) by (metis FetchLogEntry_iff wf_LogMemoryD)
  with e(2) r ij(1) show ?case by (auto dest: ap_ok tolerated_moves)
next
  case (Suc n)
  then have lt: "i < j" by (simp add: word_less_nat_alt)
  then have n: "n = unat j - unat (i + 1)" using Suc(2) by (simp add: unat_Suc_no_wrap)
  from Suc.prems lt obtain sm1 where "update_loop ap tol lm (i + 1) j sm1 = (None, sm')"
    by (auto simp: update_loop.simps [of ap tol lm i] split: sum.splits prod.splits if_splits option.splits)
  from Suc.hyps(1) [OF n _ this] lt show ?case by (simp add: word_succ_le)
qed

end

lemma UpdateStateFromLogEntry_KVStore_cases:
  assumes "UpdateStateFromLogEntry_KVStore sm (Some e) = (r, sm')"
  shows "keyword sm' = keyword sm \<and>
    (sm' = sm \<and> r \<noteq> None \<or>
     prevIndex sm + 1 = le_Index e \<and> prevIndex sm' = le_Index e \<and> prevTerm sm' = le_Term e \<and>
     (r = None \<or> r = Some InMemoryStateMapKeywordError))"
  using assms
  by (auto simp: update_entry_defs split: if_splits option.splits CommandOperator.splits sum.splits)

lemma GetAsDLockInfo_error: "GetAsDLockInfo c = Inl er \<Longrightarrow> er = JsonError"
  by (auto simp: GetAsDLockInfo_def split: option.splits)

lemma QuerySpecificState_DLock_error:
  "QuerySpecificState_DLock sm key = Inl er \<Longrightarrow> er = JsonError \<or> er = InMemoryStateMapDLockFetchError"
  by (auto simp: QuerySpecificState_DLock_def split: option.splits)

lemma UpdateStateFromLogEntry_DLock_cases:
  assumes "UpdateStateFromLogEntry_DLock sm (Some e) = (r, sm')"
  shows "keyword sm' = keyword sm \<and>
    (sm' = sm \<and> r \<noteq> None \<and> r \<noteq> Some InMemoryStateMapKeywordError \<or>
     prevIndex sm + 1 = le_Index e \<and> prevIndex sm' = le_Index e \<and> prevTerm sm' = le_Term e \<and>
     (r = None \<or> r = Some InMemoryStateMapKeywordError))"
  using assms
  by (auto simp: update_entry_defs Let_def split: if_splits option.splits CommandOperator.splits sum.splits
      dest!: GetAsDLockInfo_error QuerySpecificState_DLock_error)

lemma UpdateStateFromLogEntry_position:
  assumes "prevIndex sm + 1 \<noteq> le_Index e"
  shows "UpdateStateFromLogEntry_KVStore sm (Some e) = (Some InMemoryStateMapIndexTermError, sm)"
    "UpdateStateFromLogEntry_DLock sm (Some e) = (Some InMemoryStateMapIndexTermError, sm)"
  using assms by (simp_all add: UpdateStateFromLogEntry_KVStore_def UpdateStateFromLogEntry_DLock_def)

interpretation kvmap: entry_applier UpdateStateFromLogEntry_KVStore tolerated_KVStore
  by unfold_locales
     (auto simp: tolerated_KVStore_def UpdateStateFromLogEntry_position dest: UpdateStateFromLogEntry_KVStore_cases)

interpretation lockmap: strict_applier UpdateStateFromLogEntry_DLock tolerated_DLock
  by unfold_locales
     (auto simp: tolerated_DLock_def UpdateStateFromLogEntry_position dest: UpdateStateFromLogEntry_DLock_cases)

subsection \<open>What a log says about the locks\<close>

text \<open>
  The abstract state is a map from lock names to lock states. An update creates a lock, or
  replaces the state of an existing one if its nonce is the next one.
\<close>

type_synonym locks = "bytes \<rightharpoonup> DlockState"

definition state_of_info :: "LockInfo \<Rightarrow> DlockState" where
  "state_of_info li =
     NewDlockState (li_NewOwner li) (li_LockNonce li) (li_LockName li) (li_Timestamp li) (li_Expire li)"

definition lock_accepts :: "locks \<Rightarrow> LockInfo \<Rightarrow> bool" where
  "lock_accepts L li \<longleftrightarrow>
     (case L (li_LockName li) of None \<Rightarrow> True | Some ds \<Rightarrow> li_LockNonce li = ds_LockNonce ds + 1)"

definition lock_update :: "LockInfo \<Rightarrow> locks \<Rightarrow> locks" where
  "lock_update li L = L(li_LockName li \<mapsto> state_of_info li)"

definition entry_LockInfo :: "LogEntry \<Rightarrow> LockInfo option" where
  "entry_LockInfo e =
     (case NewCommandFromRaw (e_CommandName (le_Entry e)) (e_CommandContent (le_Entry e)) of
        Some (CommandDLock c) \<Rightarrow> (case GetAsDLockInfo c of Inl _ \<Rightarrow> None | Inr li \<Rightarrow> Some li)
      | _ \<Rightarrow> None)"

fun lock_replay :: "LogEntry list \<Rightarrow> locks \<Rightarrow> locks option" where
  "lock_replay [] L = Some L"
| "lock_replay (e # es) L =
     (case entry_LockInfo e of
        None \<Rightarrow> lock_replay es L
      | Some li \<Rightarrow> if lock_accepts L li then lock_replay es (lock_update li L) else None)"

definition abs_locks :: "StateMapMemory \<Rightarrow> locks" where
  "abs_locks sm name = Option.bind (StateMap sm name) unmarshal_DlockState"

definition wf_LockMap :: "StateMapMemory \<Rightarrow> bool" where
  "wf_LockMap sm \<longleftrightarrow> keyword sm = ''DLock'' \<and>
     (\<forall>name enc. StateMap sm name = Some enc \<longrightarrow>
        (\<exists>ds. unmarshal_DlockState enc = Some ds \<and> ds_LockName ds = name))"

lemma wf_LockMap_new [wf_intros]: "NewStateMapMemoryDLock ''DLock'' = Inr sm \<Longrightarrow> wf_LockMap sm"
  by (auto simp: NewStateMapMemoryDLock_def wf_LockMap_def split: if_splits)

lemma abs_locks_new: "NewStateMapMemoryDLock kw = Inr sm \<Longrightarrow> abs_locks sm = Map.empty"
  by (auto simp: NewStateMapMemoryDLock_def abs_locks_def split: if_splits)

lemma abs_locks_advance [frame_simps]: "abs_locks (advance e sm) = abs_locks sm"
  by (simp add: abs_locks_def advance_def fun_eq_iff)

lemma QuerySpecificState_abs:
  assumes "wf_LockMap sm"
  shows "QuerySpecificState_DLock sm name =
    (case abs_locks sm name of None \<Rightarrow> Inl InMemoryStateMapDLockFetchError | Some ds \<Rightarrow> Inr ds)"
proof (cases "StateMap sm name")
  case (Some enc)
  with assms obtain ds where "unmarshal_DlockState enc = Some ds"
    by (auto simp: wf_LockMap_def)
  with Some show ?thesis by (simp add: QuerySpecificState_DLock_def abs_locks_def)
qed (simp add: QuerySpecificState_DLock_def abs_locks_def)

lemma unmarshal_state_of_info:
  "valid_LockInfo li \<Longrightarrow> unmarshal_DlockState (marshal_DlockState (state_of_info li)) = Some (state_of_info li)"
  by (rule state_codec.unmarshal_marshal)
     (simp add: valid_LockInfo_def valid_DlockState_def state_of_info_def NewDlockState_def)

lemma write_LockInfo_abs:
  assumes "valid_LockInfo li"
  shows "abs_locks (write_LockInfo li e sm) = lock_update li (abs_locks sm)"
    and "wf_LockMap sm \<Longrightarrow> wf_LockMap (write_LockInfo li e sm)"
    and "wf_LockMap sm \<Longrightarrow> wf_LockMap (advance e sm)"
  using unmarshal_state_of_info [OF assms]
  by (auto simp: write_LockInfo_def abs_locks_def lock_update_def advance_def wf_LockMap_def
      state_of_info_def NewDlockState_def Let_def)

lemma apply_LockInfo_abs:
  assumes "wf_LockMap sm" "valid_LockInfo li"
  shows "apply_LockInfo li e sm =
    (if lock_accepts (abs_locks sm) li then (None, write_LockInfo li e sm)
     else (Some InMemoryStateMapDLockNonceMisMatchError, sm))"
  by (simp add: apply_LockInfo_def QuerySpecificState_abs [OF assms(1)] lock_accepts_def split: option.split)

lemma wf_LogEntry_lock:
  assumes "wf_LogEntry e"
  shows "has_prefix (le_fastIndex e) ''DLock'' \<longleftrightarrow> entry_LockInfo e \<noteq> None"
  using assms
  by (cases e) (auto simp: wf_LogEntry_def NewLogEntryList_def entry_LockInfo_def GetFastIndex_def GetFastIndex_KVStore_def
      GetFastIndex_DLock_def has_prefix_def split: option.splits CommandOperator.splits sum.splits)

lemma entry_LockInfo_valid: "entry_LockInfo e = Some li \<Longrightarrow> valid_LockInfo li"
  by (auto simp: entry_LockInfo_def split: option.splits CommandOperator.splits sum.splits intro: GetAsDLockInfo_valid)

lemma UpdateStateFromLogEntry_DLock_wf:
  assumes "wf_LockMap sm" "wf_LogEntry e"
  shows "UpdateStateFromLogEntry_DLock sm (Some e) =
    (if prevIndex sm + 1 \<noteq> le_Index e \<or> le_Term e < prevTerm sm then (Some InMemoryStateMapIndexTermError, sm)
     else case entry_LockInfo e of
            None \<Rightarrow> (Some InMemoryStateMapKeywordError, advance e sm)
          | Some li \<Rightarrow> apply_LockInfo li e sm)"
proof -
  have kw: "keyword sm = ''DLock''" using assms(1) by (simp add: wf_LockMap_def)
  show ?thesis
    using wf_LogEntry_lock [OF assms(2)]
    by (auto simp: UpdateStateFromLogEntry_DLock_def kw entry_LockInfo_def
        split: option.splits CommandOperator.splits sum.splits)
qed

theorem UpdateStateFromLogEntry_DLock_refines:
  assumes "wf_LockMap sm" "wf_LogEntry e" "le_Index e = prevIndex sm + 1" "prevTerm sm \<le> le_Term e"
  shows "case entry_LockInfo e of
      None \<Rightarrow> UpdateStateFromLogEntry_DLock sm (Some e) = (Some InMemoryStateMapKeywordError, advance e sm)
    | Some li \<Rightarrow>
        if lock_accepts (abs_locks sm) li
        then \<exists>sm'. UpdateStateFromLogEntry_DLock sm (Some e) = (None, sm') \<and> wf_LockMap sm' \<and>
               abs_locks sm' = lock_update li (abs_locks sm) \<and> prevIndex sm' = le_Index e
        else UpdateStateFromLogEntry_DLock sm (Some e) = (Some InMemoryStateMapDLockNonceMisMatchError, sm)"
  using assms
  by (auto simp: UpdateStateFromLogEntry_DLock_wf apply_LockInfo_abs entry_LockInfo_valid
      write_LockInfo_abs not_less split: option.split)
     (auto simp: write_LockInfo_def advance_def Let_def)

text \<open>One step of the replay, on the entry at the position of the map.\<close>

lemma lock_step:
  assumes "wf_LockMap sm" "wf_LogEntry e" "le_Index e = prevIndex sm + 1" "prevTerm sm \<le> le_Term e"
    "UpdateStateFromLogEntry_DLock sm (Some e) = (r, sm1)"
  shows "if lock_replay [e] (abs_locks sm) = None
         then r = Some InMemoryStateMapDLockNonceMisMatchError \<and> sm1 = sm
         else (r = None \<or> r = Some InMemoryStateMapKeywordError) \<and> wf_LockMap sm1 \<and>
           lock_replay [e] (abs_locks sm) = Some (abs_locks sm1) \<and>
           prevIndex sm1 = le_Index e \<and> prevTerm sm1 = le_Term e"
proof -
  have "\<not> le_Term e < prevTerm sm" using assms(4) by simp
  then have r: "(r, sm1) = (case entry_LockInfo e of
      None \<Rightarrow> (Some InMemoryStateMapKeywordError, advance e sm) | Some li \<Rightarrow> apply_LockInfo li e sm)"
    using assms(3,5) by (simp add: UpdateStateFromLogEntry_DLock_wf [OF assms(1,2)])
  show ?thesis
  proof (cases "entry_LockInfo e")
    case None
    with r assms(1) show ?thesis
      by (simp add: frame_simps) (simp add: advance_def wf_LockMap_def)
  next
    case (Some li)
    with r assms(1) entry_LockInfo_valid [OF Some] show ?thesis
      by (auto simp: apply_LockInfo_abs write_LockInfo_abs split: if_splits)
         (auto simp: write_LockInfo_def advance_def Let_def)
  qed
qed

lemma lock_replay_Cons:
  "lock_replay (e # es) L = Option.bind (lock_replay [e] L) (lock_replay es)"
  by (auto split: option.split)

lemma lock_loop_refines:
  assumes "wf_LogMemory lm" "contiguous lm" "i \<noteq> 0" "i \<le> j" "j \<le> maximumIndex lm"
    and "wf_LockMap sm" "prevIndex sm + 1 = i"
    and "sorted (prevTerm sm # map le_Term (log_range lm i j))"
  shows "case lock_replay (log_range lm i j) (abs_locks sm) of
      Some L \<Rightarrow> \<exists>sm'. update_loop UpdateStateFromLogEntry_DLock tolerated_DLock lm i j sm = (None, sm') \<and>
                  wf_LockMap sm' \<and> abs_locks sm' = L \<and> prevIndex sm' = j
    | None \<Rightarrow> \<exists>sm'. update_loop UpdateStateFromLogEntry_DLock tolerated_DLock lm i j sm =
                  (Some InMemoryStateMapDLockNonceMisMatchError, sm') \<and> wf_LockMap sm' \<and> prevIndex sm' < j"
  using assms(3-)
proof (induction "unat j - unat i" arbitrary: i sm)
  case 0
  then have ij: "i = j" by (simp add: word_le_nat_alt word_unat_eq_iff)
  with 0 obtain e where e: "FetchLogEntry lm j = Inr e" "logInMemory lm j = Some e"
    using contiguous_fetch [OF assms(2), of j] word_ge_1 [of j] by auto
  obtain r sm1 where st: "UpdateStateFromLogEntry_DLock sm (Some e) = (r, sm1)" by fastforce
  have wf: "wf_LogEntry e" "le_Index e = prevIndex sm + 1" "prevTerm sm \<le> le_Term e"
    using wf_LogMemoryD [OF assms(1) e(2)] 0 ij e by (auto simp: log_range_last)
  have lt: "prevIndex sm < j" using 0 ij by (metis add_diff_cancel_right' word_pred_less)
  from lock_step [OF _ wf st] lt 0 ij e wf_LogMemoryD [OF assms(1) e(2)] st show ?case
    by (auto simp: update_loop.simps [of _ _ lm j] tolerated_DLock_def log_range_last
        simp del: lock_replay.simps split: if_splits option.split)
next
  case (Suc n)
  then have lt: "i < j" by (simp add: word_less_nat_alt)
  then have n: "n = unat j - unat (i + 1)" using Suc(2) by (simp add: unat_Suc_no_wrap)
  have "1 \<le> i" "i \<le> maximumIndex lm"
    using Suc.prems by (simp_all add: word_ge_1)
  then obtain e where e: "FetchLogEntry lm i = Inr e" "logInMemory lm i = Some e"
    using contiguous_fetch [OF assms(2)] by blast
  have range: "log_range lm i j = e # log_range lm (i + 1) j"
    using log_range_step [OF lt] e by simp
  obtain r sm1 where st: "UpdateStateFromLogEntry_DLock sm (Some e) = (r, sm1)" by fastforce
  have wf: "wf_LogEntry e" "le_Index e = prevIndex sm + 1" "prevTerm sm \<le> le_Term e"
    using wf_LogMemoryD [OF assms(1) e(2)] Suc.prems range by auto
  note step = lock_step [OF Suc.prems(4) wf st]
  have i1: "i + 1 \<noteq> 0" "i + 1 \<le> j" using lt word_less_succ [OF lt] word_succ_le [OF lt] by auto
  show ?case
  proof (cases "lock_replay [e] (abs_locks sm)")
    case None
    moreover have "prevIndex sm < j"
      using Suc.prems lt by (metis add_diff_cancel_right' order.strict_trans word_pred_less)
    ultimately show ?thesis
      using step e st Suc.prems(4) unfolding range lock_replay_Cons [of e "log_range lm (i + 1) j"]
      by (auto simp: update_loop.simps [of _ _ lm i] tolerated_DLock_def simp del: lock_replay.simps)
  next
    case (Some L1)
    with step have s1: "r = None \<or> r = Some InMemoryStateMapKeywordError" "wf_LockMap sm1" "L1 = abs_locks sm1"
        "prevIndex sm1 = i" "prevTerm sm1 = le_Term e"
      using wf Suc.prems by auto
    have eq: "update_loop UpdateStateFromLogEntry_DLock tolerated_DLock lm i j sm =
        update_loop UpdateStateFromLogEntry_DLock tolerated_DLock lm (i + 1) j sm1"
      using s1 e st lt by (auto simp: update_loop.simps [of _ _ lm i] tolerated_DLock_def)
    from Suc.hyps(1) [OF n i1 Suc.prems(3) s1(2)] s1 Some Suc.prems(6) show ?thesis
      unfolding eq range lock_replay_Cons [of e "log_range lm (i + 1) j"] by (simp del: lock_replay.simps)
  qed
qed

theorem UpdateStateFromLogMemory_DLock_refines:
  assumes "wf_LogMemory lm" "contiguous lm" "prevIndex sm < n" "n \<le> maximumIndex lm" "wf_LockMap sm"
    and "sorted (prevTerm sm # map le_Term (log_range lm (prevIndex sm + 1) n))"
  shows "case lock_replay (log_range lm (prevIndex sm + 1) n) (abs_locks sm) of
      Some L \<Rightarrow> \<exists>sm'. UpdateStateFromLogMemory_DLock sm lm (prevIndex sm + 1) n = (None, sm') \<and>
                  wf_LockMap sm' \<and> abs_locks sm' = L \<and> prevIndex sm' = n
    | None \<Rightarrow> \<exists>sm'. UpdateStateFromLogMemory_DLock sm lm (prevIndex sm + 1) n =
                  (Some InMemoryStateMapDLockNonceMisMatchError, sm') \<and> wf_LockMap sm' \<and> prevIndex sm' < n"
proof -
  have i: "prevIndex sm + 1 \<noteq> 0" "prevIndex sm + 1 \<le> n" "n \<noteq> 0"
    using word_less_succ [OF assms(3)] word_succ_le [OF assms(3)] assms(3) by auto
  have "\<not> range_refused sm lm (prevIndex sm + 1) n"
    using i assms(4) by (simp add: range_refused_def not_less)
  with lock_loop_refines [OF assms(1,2) i(1,2) assms(4,5) refl assms(6)] show ?thesis
    by (simp add: UpdateStateFromLogMemory_DLock_def del: lock_replay.simps sorted_simps split: option.split_asm option.split)
qed

subsection \<open>Nonces count updates\<close>

definition updates_of :: "bytes \<Rightarrow> LogEntry list \<Rightarrow> nat" where
  "updates_of name es =
     length (filter (\<lambda>e. case entry_LockInfo e of None \<Rightarrow> False | Some li \<Rightarrow> li_LockName li = name) es)"

lemma updates_of_simps [simp]:
  "updates_of name [] = 0"
  "updates_of name (e # es) =
     (case entry_LockInfo e of
        Some li \<Rightarrow> if li_LockName li = name then Suc (updates_of name es) else updates_of name es
      | None \<Rightarrow> updates_of name es)"
  by (simp_all add: updates_of_def split: option.split)

lemma lock_replay_nonce:
  assumes "lock_replay es L = Some L'" "L name = Some ds"
  shows "\<exists>ds'. L' name = Some ds' \<and> ds_LockNonce ds' = ds_LockNonce ds + of_nat (updates_of name es)"
  using assms
proof (induction es arbitrary: L ds)
  case (Cons e es)
  show ?case
  proof (cases "\<exists>li. entry_LockInfo e = Some li \<and> li_LockName li = name")
    case True
    then obtain li where li: "entry_LockInfo e = Some li" "li_LockName li = name" by blast
    with Cons.prems have "lock_replay es (lock_update li L) = Some L'" "li_LockNonce li = ds_LockNonce ds + 1"
      by (auto simp: lock_accepts_def split: if_splits)
    moreover have "lock_update li L name = Some (state_of_info li)"
      using li by (simp add: lock_update_def)
    ultimately show ?thesis
      using Cons.IH [of "lock_update li L" "state_of_info li"] li
      by (simp add: state_of_info_def NewDlockState_def add.assoc)
  next
    case False
    then obtain L1 where "lock_replay es L1 = Some L'" "L1 name = Some ds"
      using Cons.prems by (cases "entry_LockInfo e") (auto simp: lock_update_def split: if_splits)
    with Cons.IH [of L1 ds] False show ?thesis by (auto split: option.split)
  qed
qed simp

text \<open>A range replayed in pieces: the ends of the pieces, in order.\<close>

fun replay_pieces :: "LogMemory \<Rightarrow> u64 list \<Rightarrow> StateMapMemory \<Rightarrow> go_error option \<times> StateMapMemory" where
  "replay_pieces lm [] sm = (None, sm)"
| "replay_pieces lm (k # ks) sm =
     (case UpdateStateFromLogMemory_DLock sm lm (prevIndex sm + 1) k of
        (None, sm') \<Rightarrow> replay_pieces lm ks sm'
      | (Some er, sm') \<Rightarrow> (Some er, sm'))"

lemma replay_pieces_whole:
  assumes "wf_LogMemory lm" "sorted_wrt (<) (prevIndex sm # ks)" "ks \<noteq> []" "last ks \<le> maximumIndex lm"
  shows "replay_pieces lm ks sm = UpdateStateFromLogMemory_DLock sm lm (prevIndex sm + 1) (last ks)"
  using assms(2-)
proof (induction ks arbitrary: sm)
  case (Cons k ks)
  show ?case
  proof (cases ks)
    case Nil
    then show ?thesis by (auto split: prod.split option.split)
  next
    case (Cons k2 ks2)
    then have ks: "ks \<noteq> []" "last (k # ks) = last ks" by simp_all
    have lt: "prevIndex sm < k" "k < last ks"
      using Cons.prems ks by auto
    then have i: "prevIndex sm + 1 \<noteq> 0" "prevIndex sm + 1 \<le> k" "k \<noteq> 0" "last ks \<noteq> 0" "k \<le> maximumIndex lm"
      using word_less_succ [OF lt(1)] word_succ_le [OF lt(1)] Cons.prems(3) ks(2) by auto
    then have ok: "\<not> range_refused sm lm (prevIndex sm + 1) k" "\<not> range_refused sm lm (prevIndex sm + 1) (last ks)"
      using lt Cons.prems(3) ks(2) by (auto simp: range_refused_def not_less)
    let ?loop = "update_loop UpdateStateFromLogEntry_DLock tolerated_DLock lm"
    have split: "UpdateStateFromLogMemory_DLock sm lm (prevIndex sm + 1) (last ks) =
        (case ?loop (prevIndex sm + 1) k sm of
           (None, sm') \<Rightarrow> ?loop (k + 1) (last ks) sm' | (Some er, sm') \<Rightarrow> (Some er, sm'))"
      using ok(2) loop_split [OF i(2) lt(2)] by (simp add: UpdateStateFromLogMemory_DLock_def)
    have rest: "replay_pieces lm ks sm' = ?loop (k + 1) (last ks) sm'"
      if "?loop (prevIndex sm + 1) k sm = (None, sm')" for sm'
    proof -
      have pos: "prevIndex sm' = k"
        by (rule lockmap.loop_success_position [OF assms(1) i(2) that])
      have "\<not> range_refused sm' lm (k + 1) (last ks)"
        using pos i lt(2) word_less_succ [OF lt(2)] word_succ_le [OF lt(2)] Cons.prems(3) ks(2)
        by (auto simp: range_refused_def not_less)
      with Cons.IH [of sm'] pos Cons.prems ks show ?thesis
        by (simp add: UpdateStateFromLogMemory_DLock_def)
    qed
    show ?thesis
      using rest ok(1) split ks(2)
      by (auto simp: UpdateStateFromLogMemory_DLock_def split: prod.split option.split)
  qed
qed simp

subsection \<open>Key-value commands\<close>

lemma NewLogEntry_KVStore:
  assumes "valid_utf8 key"
  shows "NewLogEntry t i (CommandKVStore (NewCommandKVStore key v)) = Inr
    \<lparr>le_Entry = \<lparr>e_Term = t, e_Index = i, e_CommandName = ''KVStore'',
        e_CommandContent = marshal_KeyValue \<lparr>kv_Key = key, kv_Value = v\<rparr>\<rparr>,
     le_fastIndex = ''KVStore:'' @ key\<rparr>"
  using assms
  by (simp add: NewLogEntry_def GetFastIndex_def GetFastIndex_KVStore_def command_defs Let_def
      unmarshal_marshal_KeyValue valid_KeyValue_def)

text \<open>The effect of the entry of a key-value command at the position of the map.\<close>

theorem UpdateStateFromLogEntry_KVStore_effect:
  assumes "valid_utf8 key" "keyword sm = ''KVStore''" "prevTerm sm \<le> t"
    and "NewLogEntry t (prevIndex sm + 1) (CommandKVStore (NewCommandKVStore key v)) = Inr e"
  shows "UpdateStateFromLogEntry_KVStore sm (Some e) =
    (if v = None \<and> StateMap sm key = None then (Some InMemoryStateMapDeleteNoKeyError, sm)
     else (None, sm\<lparr>StateMap := (StateMap sm)(key := v), prevIndex := prevIndex sm + 1, prevTerm := t\<rparr>))"
proof -
  have e: "e = \<lparr>le_Entry = \<lparr>e_Term = t, e_Index = prevIndex sm + 1, e_CommandName = ''KVStore'',
        e_CommandContent = marshal_KeyValue \<lparr>kv_Key = key, kv_Value = v\<rparr>\<rparr>, le_fastIndex = ''KVStore:'' @ key\<rparr>"
    using assms(4) NewLogEntry_KVStore [OF assms(1)] by simp
  have "\<not> t < prevTerm sm" using assms(3) by simp
  with assms(1,2) show ?thesis
    by (cases v) (simp_all add: e UpdateStateFromLogEntry_KVStore_def apply_KeyValue_def advance_def
        command_defs unmarshal_marshal_KeyValue valid_KeyValue_def has_prefix_def)
qed

end
