(* ===== verification/Acquirement.thy ===== *)
theory Acquirement
  imports State_Map
begin

section \<open>Pending acquirements of a lock (node/dlock_acquirement.go)\<close>

text \<open>
  Requests for a lock that is held wait in a queue: sequence numbers from
  \<open>lastProcessedAcquirement + 1\<close> to \<open>lastAssignedAcquirement\<close>, kept in a map. The map holds
  pointers that nothing else in the program writes through, so the model stores the values and
  writes an updated value back. The time is an argument of every operation.

  The abstract view is the list \<open>pending\<close>; each operation is shown to act on it as an operation
  of an expiring first-in first-out queue, whose contract is the locale \<open>expiring_queue\<close>.
\<close>

subsection \<open>Data and operations\<close>

record DlockAcquirementInfo =
  Acquirer :: bytes
  LastRefreshedTimestamp :: i64
  ai_Expire :: i64
  ai_Command :: Command

record DlockVolatileAcquirement =
  va_LockName :: bytes
  lastProcessedAcquirement :: u32
  lastAssignedAcquirement :: u32
  LastAppendedNonce :: u32
  PendingAcquirement :: "u32 \<rightharpoonup> DlockAcquirementInfo"

definition NewDlockVolatileAcquirement :: "bytes \<Rightarrow> u32 \<Rightarrow> DlockVolatileAcquirement" where
  "NewDlockVolatileAcquirement lockName lastAppendedNonce =
     \<lparr>va_LockName = lockName, lastProcessedAcquirement = 0, lastAssignedAcquirement = 0,
      LastAppendedNonce = lastAppendedNonce, PendingAcquirement = Map.empty\<rparr>"

definition NewDlockAcquirementInfo :: "bytes \<Rightarrow> i64 \<Rightarrow> i64 \<Rightarrow> Command \<Rightarrow> DlockAcquirementInfo" where
  "NewDlockAcquirementInfo acquirer lastRefreshedTimestamp expire command =
     \<lparr>Acquirer = acquirer, LastRefreshedTimestamp = lastRefreshedTimestamp, ai_Expire = expire,
      ai_Command = command\<rparr>"

text \<open>The sum wraps around like the \<^verbatim>\<open>int64\<close> addition; the comparison is signed.\<close>

definition acq_expired :: "i64 \<Rightarrow> DlockAcquirementInfo \<Rightarrow> bool" where
  "acq_expired timestamp a \<longleftrightarrow> i64_less (LastRefreshedTimestamp a + ai_Expire a) timestamp"

function abandon_loop ::
  "DlockVolatileAcquirement \<Rightarrow> i64 \<Rightarrow> u32 \<Rightarrow> go_error option \<times> DlockVolatileAcquirement" where
  "abandon_loop dva timestamp i =
     (if i \<le> lastAssignedAcquirement dva
      then case PendingAcquirement dva i of
             None \<Rightarrow> (Some VolatileAcquirementInfoFetchingError, dva)
           | Some fetchedAcquirement \<Rightarrow>
               if acq_expired timestamp fetchedAcquirement
               then abandon_loop (dva\<lparr>PendingAcquirement := (PendingAcquirement dva)(i := None),
                                      lastProcessedAcquirement := i\<rparr>) timestamp (i + 1)
               else (None, dva)
      else (None, dva))"
  by pat_completeness auto
termination
  by (relation "measure (\<lambda>(dva, ts, i). card (dom (PendingAcquirement dva)))")
     (auto simp: card_gt_0_iff intro!: psubset_card_mono)

declare abandon_loop.simps [simp del]

definition AbandonExpiredAcquirement ::
  "DlockVolatileAcquirement \<Rightarrow> i64 \<Rightarrow> go_error option \<times> DlockVolatileAcquirement" where
  "AbandonExpiredAcquirement dva timestamp = abandon_loop dva timestamp (lastProcessedAcquirement dva + 1)"

definition RefreshAcquirement ::
  "DlockVolatileAcquirement \<Rightarrow> u32 \<Rightarrow> i64 \<Rightarrow> go_error option \<times> DlockVolatileAcquirement" where
  "RefreshAcquirement dva0 acquireSeq timestamp =
     (case AbandonExpiredAcquirement dva0 timestamp of
        (Some err, dva) \<Rightarrow> (Some err, dva)
      | (None, dva) \<Rightarrow>
          if lastAssignedAcquirement dva < acquireSeq \<or> acquireSeq \<le> lastProcessedAcquirement dva
          then (Some VolatileAcquirementInvalidSequenceError, dva)
          else case PendingAcquirement dva acquireSeq of
                 None \<Rightarrow> (Some VolatileAcquirementInfoFetchingError, dva)
               | Some fetchedAcquirement \<Rightarrow>
                   if acq_expired timestamp fetchedAcquirement
                   then (Some VolatileAcquirementExpireError, dva)
                   else (None, dva\<lparr>PendingAcquirement := (PendingAcquirement dva)
                          (acquireSeq \<mapsto> fetchedAcquirement\<lparr>LastRefreshedTimestamp := timestamp\<rparr>)\<rparr>))"

text \<open>
  The search for the acquirer. Keys already visited are dropped from the local copy of the map,
  which changes nothing unless the counter comes round to a visited key, that is, unless all
  \<open>2\<^sup>3\<^sup>2\<close> sequence numbers are pending (the loop of the code does not end then).
\<close>

function search_loop ::
  "(u32 \<rightharpoonup> DlockAcquirementInfo) \<Rightarrow> u32 \<Rightarrow> bytes \<Rightarrow> u32 \<Rightarrow> go_error + u32 option" where
  "search_loop pa lastAssigned acquirer i =
     (if i \<le> lastAssigned
      then case pa i of
             None \<Rightarrow> Inl VolatileAcquirementInfoFetchingError
           | Some fetchedAcquirement \<Rightarrow>
               if Acquirer fetchedAcquirement = acquirer then Inr (Some i)
               else search_loop (pa(i := None)) lastAssigned acquirer (i + 1)
      else Inr None)"
  by pat_completeness auto
termination
  by (relation "measure (\<lambda>(pa, la, a, i). card (dom pa))") (auto simp: card_gt_0_iff intro!: psubset_card_mono)

declare search_loop.simps [simp del]

definition InsertNewAcquirement ::
  "DlockVolatileAcquirement \<Rightarrow> Command \<Rightarrow> i64 \<Rightarrow> i64 \<Rightarrow> (go_error + u32) \<times> DlockVolatileAcquirement" where
  "InsertNewAcquirement dva0 command timestamp expire =
     (case AbandonExpiredAcquirement dva0 timestamp of
        (Some err, dva) \<Rightarrow> (Inl err, dva)
      | (None, dva) \<Rightarrow>
          (case GetAsDLockInfo command of
             Inl err \<Rightarrow> (Inl err, dva)
           | Inr dlockInfo \<Rightarrow>
               let acquirer = li_NewOwner dlockInfo
               in case search_loop (PendingAcquirement dva) (lastAssignedAcquirement dva) acquirer
                         (lastProcessedAcquirement dva + 1) of
                    Inl err \<Rightarrow> (Inl err, dva)
                  | Inr (Some i) \<Rightarrow> (Inr i, dva)
                  | Inr None \<Rightarrow>
                      let dlockAcqInfo = NewDlockAcquirementInfo acquirer timestamp expire command;
                          seq = lastAssignedAcquirement dva + 1
                      in (Inr seq, dva\<lparr>lastAssignedAcquirement := seq,
                            PendingAcquirement := (PendingAcquirement dva)(seq \<mapsto> dlockAcqInfo)\<rparr>)))"

definition FetchFirstValidAcquirement ::
  "DlockVolatileAcquirement \<Rightarrow> bool \<Rightarrow> i64 \<Rightarrow> (go_error + Command option) \<times> DlockVolatileAcquirement" where
  "FetchFirstValidAcquirement dva0 popTag timestamp =
     (case AbandonExpiredAcquirement dva0 timestamp of
        (Some err, dva) \<Rightarrow> (Inl err, dva)
      | (None, dva) \<Rightarrow>
          if lastAssignedAcquirement dva = lastProcessedAcquirement dva then (Inr None, dva)
          else let seq = lastProcessedAcquirement dva + 1
               in case PendingAcquirement dva seq of
                    None \<Rightarrow> (Inl VolatileAcquirementInfoFetchingError, dva)
                  | Some fetchedAcquirement \<Rightarrow>
                      (case GetAsDLockInfo (ai_Command fetchedAcquirement) of
                         Inl err \<Rightarrow> (Inl err, dva)
                       | Inr info \<Rightarrow>
                           let fetchedDlockInfo = info\<lparr>li_Timestamp := timestamp,
                                                       li_LockNonce := LastAppendedNonce dva + 1\<rparr>;
                               command = SetAsDLockInfo fetchedDlockInfo (ai_Command fetchedAcquirement);
                               dva' = dva\<lparr>PendingAcquirement := (PendingAcquirement dva)
                                        (seq \<mapsto> fetchedAcquirement\<lparr>ai_Command := command\<rparr>)\<rparr>;
                               dva'' = (if popTag then dva'\<lparr>lastProcessedAcquirement := seq\<rparr> else dva')
                           in (Inr (Some command), dva'')))"

subsection \<open>The queue behind the map\<close>

definition pending :: "DlockVolatileAcquirement \<Rightarrow> (u32 \<times> DlockAcquirementInfo) list" where
  "pending dva = map (\<lambda>k. (of_nat k, the (PendingAcquirement dva (of_nat k))))
     [Suc (unat (lastProcessedAcquirement dva))..<Suc (unat (lastAssignedAcquirement dva))]"

text \<open>The command of an acquirement names the acquirer and the lock of the queue.\<close>

definition wf_info :: "bytes \<Rightarrow> DlockAcquirementInfo \<Rightarrow> bool" where
  "wf_info name a \<longleftrightarrow>
     (case GetAsDLockInfo (ai_Command a) of
        Inl _ \<Rightarrow> False
      | Inr li \<Rightarrow> li_NewOwner li = Acquirer a \<and> li_LockName li = name) \<and> wf_command (CommandDLock (ai_Command a))"

definition wf_Acquirement :: "DlockVolatileAcquirement \<Rightarrow> bool" where
  "wf_Acquirement dva \<longleftrightarrow>
     lastProcessedAcquirement dva \<le> lastAssignedAcquirement dva \<and> lastAssignedAcquirement dva \<noteq> - 1 \<and>
     (\<forall>k. lastProcessedAcquirement dva < k \<longrightarrow> k \<le> lastAssignedAcquirement dva \<longrightarrow>
        (\<exists>a. PendingAcquirement dva k = Some a \<and> wf_info (va_LockName dva) a)) \<and>
     distinct (map (\<lambda>p. Acquirer (snd p)) (pending dva))"

lemma pending_empty [simp]:
  "lastProcessedAcquirement dva = lastAssignedAcquirement dva \<Longrightarrow> pending dva = []"
  by (simp add: pending_def)

lemma pending_cong:
  assumes "lastProcessedAcquirement dva' = lastProcessedAcquirement dva"
    "lastAssignedAcquirement dva' = lastAssignedAcquirement dva"
    "\<And>k. lastProcessedAcquirement dva < k \<Longrightarrow> k \<le> lastAssignedAcquirement dva \<Longrightarrow>
       PendingAcquirement dva' k = PendingAcquirement dva k"
  shows "pending dva' = pending dva"
  unfolding pending_def assms(1,2)
proof (rule map_cong [OF refl])
  fix k assume "k \<in> set [Suc (unat (lastProcessedAcquirement dva))..<Suc (unat (lastAssignedAcquirement dva))]"
  then have k: "unat (lastProcessedAcquirement dva) < k" "k \<le> unat (lastAssignedAcquirement dva)" by auto
  have "unat (of_nat k :: u32) = k"
    using k(2) unsigned_less [of "lastAssignedAcquirement dva", where ?'a = nat] by (simp add: unat_of_nat)
  with k show "(of_nat k, the (PendingAcquirement dva' (of_nat k))) = (of_nat k :: u32, the (PendingAcquirement dva (of_nat k)))"
    by (simp add: assms(3) word_less_nat_alt word_le_nat_alt)
qed

lemma pending_Cons:
  assumes "lastProcessedAcquirement dva < lastAssignedAcquirement dva"
  shows "pending dva = (lastProcessedAcquirement dva + 1, the (PendingAcquirement dva (lastProcessedAcquirement dva + 1)))
    # pending (dva\<lparr>lastProcessedAcquirement := lastProcessedAcquirement dva + 1\<rparr>)"
proof -
  have "unat (lastProcessedAcquirement dva) < unat (lastAssignedAcquirement dva)"
    using assms by (simp add: word_less_nat_alt)
  then have "[Suc (unat (lastProcessedAcquirement dva))..<Suc (unat (lastAssignedAcquirement dva))] =
      Suc (unat (lastProcessedAcquirement dva)) #
      [Suc (Suc (unat (lastProcessedAcquirement dva)))..<Suc (unat (lastAssignedAcquirement dva))]"
    by (simp add: upt_conv_Cons)
  moreover have "(of_nat (Suc (unat (lastProcessedAcquirement dva))) :: u32) = lastProcessedAcquirement dva + 1"
    by simp
  ultimately show ?thesis
    by (simp add: pending_def unat_Suc_no_wrap [OF assms] del: upt_Suc of_nat_Suc)
qed

lemma pending_snoc:
  assumes "lastProcessedAcquirement dva \<le> lastAssignedAcquirement dva" "lastAssignedAcquirement dva \<noteq> - 1"
  shows "pending (dva\<lparr>lastAssignedAcquirement := lastAssignedAcquirement dva + 1,
             PendingAcquirement := (PendingAcquirement dva)(lastAssignedAcquirement dva + 1 \<mapsto> a)\<rparr>)
    = pending dva @ [(lastAssignedAcquirement dva + 1, a)]"
proof -
  let ?dva = "dva\<lparr>PendingAcquirement := (PendingAcquirement dva)(lastAssignedAcquirement dva + 1 \<mapsto> a)\<rparr>"
  have lt: "lastAssignedAcquirement dva < lastAssignedAcquirement dva + 1"
    using assms(2) by (simp add: word_less_plus_1)
  have "pending ?dva = pending dva"
    by (rule pending_cong) (use lt in auto)
  moreover have "unat (lastAssignedAcquirement dva + 1) = Suc (unat (lastAssignedAcquirement dva))"
    using unat_Suc_no_wrap [OF lt] .
  moreover have "(1 :: u32) + of_nat (unat (lastAssignedAcquirement dva)) = lastAssignedAcquirement dva + 1"
    by (simp add: add.commute)
  ultimately show ?thesis
    using assms(1) by (simp add: pending_def word_le_nat_alt add.commute)
qed

lemma wf_Acquirement_new [wf_intros]: "wf_Acquirement (NewDlockVolatileAcquirement name n)"
  by (auto simp: wf_Acquirement_def NewDlockVolatileAcquirement_def pending_def)

lemma pending_member:
  assumes "wf_Acquirement dva" "(k, a) \<in> set (pending dva)"
  shows "PendingAcquirement dva k = Some a \<and> wf_info (va_LockName dva) a \<and>
    lastProcessedAcquirement dva < k \<and> k \<le> lastAssignedAcquirement dva"
proof -
  from assms(2) obtain n where n: "unat (lastProcessedAcquirement dva) < n" "n \<le> unat (lastAssignedAcquirement dva)"
      "k = of_nat n" "a = the (PendingAcquirement dva k)"
    unfolding pending_def by (auto simp del: upt_Suc simp: Suc_le_eq less_Suc_eq_le)
  have "unat k = n"
    using n(2,3) unsigned_less [of "lastAssignedAcquirement dva", where ?'a = nat] by (simp add: unat_of_nat)
  then have k: "lastProcessedAcquirement dva < k" "k \<le> lastAssignedAcquirement dva"
    using n by (simp_all add: word_less_nat_alt word_le_nat_alt)
  with assms(1) n(4) show ?thesis by (fastforce simp: wf_Acquirement_def)
qed

lemma pending_all:
  assumes "lastProcessedAcquirement dva < k" "k \<le> lastAssignedAcquirement dva"
  shows "(k, the (PendingAcquirement dva k)) \<in> set (pending dva)"
proof -
  have "unat k \<in> set [Suc (unat (lastProcessedAcquirement dva))..<Suc (unat (lastAssignedAcquirement dva))]"
    using assms by (auto simp: word_less_nat_alt word_le_nat_alt)
  then have "(of_nat (unat k), the (PendingAcquirement dva (of_nat (unat k)))) \<in> set (pending dva)"
    unfolding pending_def set_map by (rule imageI)
  then show ?thesis by simp
qed

subsection \<open>The operations on the queue\<close>

text \<open>Dropping the head: the key is deleted and the counter moved.\<close>

lemma drop_head:
  assumes "wf_Acquirement dva" "lastProcessedAcquirement dva < lastAssignedAcquirement dva"
    and "dva' = dva\<lparr>PendingAcquirement := (PendingAcquirement dva)(lastProcessedAcquirement dva + 1 := x),
                lastProcessedAcquirement := lastProcessedAcquirement dva + 1\<rparr>"
  shows "pending dva = (lastProcessedAcquirement dva + 1,
      the (PendingAcquirement dva (lastProcessedAcquirement dva + 1))) # pending dva'"
    and "wf_Acquirement dva'"
proof -
  let ?mid = "dva\<lparr>lastProcessedAcquirement := lastProcessedAcquirement dva + 1\<rparr>"
  have p: "pending dva' = pending ?mid"
    unfolding assms(3) by (rule pending_cong) auto
  with pending_Cons [OF assms(2)]
  show c: "pending dva = (lastProcessedAcquirement dva + 1,
      the (PendingAcquirement dva (lastProcessedAcquirement dva + 1))) # pending dva'" by simp
  have "lastProcessedAcquirement dva < k" if "lastProcessedAcquirement dva + 1 < k" for k
    using that word_less_succ [OF assms(2)] by simp
  then have "\<forall>k. lastProcessedAcquirement dva + 1 < k \<longrightarrow> k \<le> lastAssignedAcquirement dva \<longrightarrow>
        (\<exists>a. PendingAcquirement dva k = Some a \<and> wf_info (va_LockName dva) a)"
    using assms(1) by (simp add: wf_Acquirement_def)
  moreover have "distinct (map (\<lambda>p. Acquirer (snd p)) (pending dva'))"
    using assms(1) c by (simp add: wf_Acquirement_def)
  ultimately show "wf_Acquirement dva'"
    using assms(1,2) by (auto simp: wf_Acquirement_def assms(3) word_succ_le)
qed

lemma abandon_loop_spec:
  assumes "wf_Acquirement dva"
  shows "\<exists>dva'. abandon_loop dva ts (lastProcessedAcquirement dva + 1) = (None, dva') \<and> wf_Acquirement dva' \<and>
    pending dva' = dropWhile (\<lambda>p. acq_expired ts (snd p)) (pending dva) \<and>
    lastAssignedAcquirement dva' = lastAssignedAcquirement dva \<and>
    lastProcessedAcquirement dva \<le> lastProcessedAcquirement dva' \<and>
    LastAppendedNonce dva' = LastAppendedNonce dva \<and> va_LockName dva' = va_LockName dva"
  using assms
proof (induction "unat (lastAssignedAcquirement dva) - unat (lastProcessedAcquirement dva)" arbitrary: dva)
  case 0
  then have eq: "lastProcessedAcquirement dva = lastAssignedAcquirement dva"
    by (simp add: wf_Acquirement_def word_le_nat_alt word_unat_eq_iff)
  have "\<not> lastProcessedAcquirement dva + 1 \<le> lastAssignedAcquirement dva"
    using 0 eq by (simp add: wf_Acquirement_def not_le word_less_plus_1)
  with 0 eq show ?case by (simp add: abandon_loop.simps [of dva])
next
  case (Suc n)
  let ?lp = "lastProcessedAcquirement dva"
  have lt: "?lp < lastAssignedAcquirement dva" using Suc(2) by (simp add: word_less_nat_alt)
  obtain a where a: "PendingAcquirement dva (?lp + 1) = Some a"
    using Suc.prems lt word_less_succ [OF lt] word_succ_le [OF lt] by (fastforce simp: wf_Acquirement_def)
  define dva1 where "dva1 = dva\<lparr>PendingAcquirement := (PendingAcquirement dva)(?lp + 1 := None),
      lastProcessedAcquirement := ?lp + 1\<rparr>"
  note d = drop_head [OF Suc.prems lt dva1_def]
  have d1: "lastProcessedAcquirement dva1 = ?lp + 1" "lastAssignedAcquirement dva1 = lastAssignedAcquirement dva"
    "LastAppendedNonce dva1 = LastAppendedNonce dva" "va_LockName dva1 = va_LockName dva"
    by (simp_all add: dva1_def)
  show ?case
  proof (cases "acq_expired ts a")
    case True
    have n: "n = unat (lastAssignedAcquirement dva1) - unat (lastProcessedAcquirement dva1)"
      using Suc(2) lt by (simp add: d1 unat_Suc_no_wrap)
    have "abandon_loop dva ts (?lp + 1) = abandon_loop dva1 ts (lastProcessedAcquirement dva1 + 1)"
      using True a lt by (simp add: abandon_loop.simps [of dva] dva1_def word_succ_le)
    with Suc.hyps(1) [OF n d(2)] True a d(1) d1 word_less_succ [OF lt] show ?thesis
      by (auto intro: order.trans less_imp_le)
  next
    case False
    with a lt Suc.prems d(1) show ?thesis
      by (simp add: abandon_loop.simps [of dva] word_succ_le)
  qed
qed

lemma search_loop_spec:
  assumes "wf_Acquirement dva"
  shows "search_loop (PendingAcquirement dva) (lastAssignedAcquirement dva) acq (lastProcessedAcquirement dva + 1)
    = Inr (map_option fst (find (\<lambda>p. Acquirer (snd p) = acq) (pending dva)))"
  using assms
proof (induction "unat (lastAssignedAcquirement dva) - unat (lastProcessedAcquirement dva)" arbitrary: dva)
  case 0
  then have eq: "lastProcessedAcquirement dva = lastAssignedAcquirement dva"
    by (simp add: wf_Acquirement_def word_le_nat_alt word_unat_eq_iff)
  have "\<not> lastProcessedAcquirement dva + 1 \<le> lastAssignedAcquirement dva"
    using 0 eq by (simp add: wf_Acquirement_def not_le word_less_plus_1)
  with eq show ?case by (simp add: search_loop.simps [of "PendingAcquirement dva"])
next
  case (Suc n)
  let ?lp = "lastProcessedAcquirement dva"
  have lt: "?lp < lastAssignedAcquirement dva" using Suc(2) by (simp add: word_less_nat_alt)
  obtain a where a: "PendingAcquirement dva (?lp + 1) = Some a"
    using Suc.prems lt word_less_succ [OF lt] word_succ_le [OF lt] by (fastforce simp: wf_Acquirement_def)
  define dva1 where "dva1 = dva\<lparr>PendingAcquirement := (PendingAcquirement dva)(?lp + 1 := None),
      lastProcessedAcquirement := ?lp + 1\<rparr>"
  note d = drop_head [OF Suc.prems lt dva1_def]
  have n: "n = unat (lastAssignedAcquirement dva1) - unat (lastProcessedAcquirement dva1)"
    using Suc(2) lt by (simp add: dva1_def unat_Suc_no_wrap)
  have "search_loop (PendingAcquirement dva) (lastAssignedAcquirement dva) acq (?lp + 1) =
      (if Acquirer a = acq then Inr (Some (?lp + 1))
       else search_loop (PendingAcquirement dva1) (lastAssignedAcquirement dva1) acq (lastProcessedAcquirement dva1 + 1))"
    using a lt by (simp add: search_loop.simps [of "PendingAcquirement dva"] dva1_def word_succ_le)
  with Suc.hyps(1) [OF n d(2)] a d(1) show ?case by simp
qed

lemma AbandonExpired_spec:
  assumes "wf_Acquirement dva"
  obtains dva' where "AbandonExpiredAcquirement dva ts = (None, dva')" "wf_Acquirement dva'"
    "pending dva' = dropWhile (\<lambda>p. acq_expired ts (snd p)) (pending dva)"
    "lastAssignedAcquirement dva' = lastAssignedAcquirement dva"
    "lastProcessedAcquirement dva \<le> lastProcessedAcquirement dva'"
    "LastAppendedNonce dva' = LastAppendedNonce dva" "va_LockName dva' = va_LockName dva"
  using abandon_loop_spec [OF assms, of ts] by (auto simp: AbandonExpiredAcquirement_def)

lemma find_Some_member: "find P xs = Some x \<Longrightarrow> x \<in> set xs \<and> P x"
  by (auto simp: find_Some_iff)

theorem InsertNewAcquirement_spec:
  assumes wf: "wf_Acquirement dva" and li: "GetAsDLockInfo command = Inr li" "li_LockName li = va_LockName dva"
    and cmd: "wf_command (CommandDLock command)" and room: "lastAssignedAcquirement dva + 1 \<noteq> - 1"
  shows "\<exists>dva'. wf_Acquirement dva' \<and> LastAppendedNonce dva' = LastAppendedNonce dva \<and>
    va_LockName dva' = va_LockName dva \<and>
    (let q = dropWhile (\<lambda>p. acq_expired ts (snd p)) (pending dva) in
     case find (\<lambda>p. Acquirer (snd p) = li_NewOwner li) q of
       Some p \<Rightarrow> InsertNewAcquirement dva command ts ex = (Inr (fst p), dva') \<and> pending dva' = q
     | None \<Rightarrow> InsertNewAcquirement dva command ts ex = (Inr (lastAssignedAcquirement dva + 1), dva') \<and>
         pending dva' = q @ [(lastAssignedAcquirement dva + 1,
                              NewDlockAcquirementInfo (li_NewOwner li) ts ex command)])"
proof -
  obtain d where d: "AbandonExpiredAcquirement dva ts = (None, d)" "wf_Acquirement d"
    "pending d = dropWhile (\<lambda>p. acq_expired ts (snd p)) (pending dva)"
    "lastAssignedAcquirement d = lastAssignedAcquirement dva"
    "LastAppendedNonce d = LastAppendedNonce dva" "va_LockName d = va_LockName dva"
    using AbandonExpired_spec [OF wf] by metis
  show ?thesis
  proof (cases "find (\<lambda>p. Acquirer (snd p) = li_NewOwner li) (pending d)")
    case (Some p)
    then have "InsertNewAcquirement dva command ts ex = (Inr (fst p), d)"
      using d li search_loop_spec [OF d(2)] by (simp add: InsertNewAcquirement_def)
    with Some d show ?thesis by (auto simp: Let_def)
  next
    case None
    let ?la = "lastAssignedAcquirement d" and ?a = "NewDlockAcquirementInfo (li_NewOwner li) ts ex command"
    define d' where "d' = d\<lparr>lastAssignedAcquirement := ?la + 1,
        PendingAcquirement := (PendingAcquirement d)(?la + 1 \<mapsto> ?a)\<rparr>"
    have ins: "InsertNewAcquirement dva command ts ex = (Inr (?la + 1), d')"
      using None d li search_loop_spec [OF d(2)] by (simp add: InsertNewAcquirement_def Let_def d'_def)
    have pend: "pending d' = pending d @ [(?la + 1, ?a)]"
      using d(2) pending_snoc [of d ?a] by (simp add: d'_def wf_Acquirement_def)
    have lt: "?la < ?la + 1"
      using d(2) by (simp add: wf_Acquirement_def word_less_plus_1)
    have nz: "?la + 1 \<noteq> 0"
      using lt by (metis word_not_simps(1))
    have old: "\<exists>a. PendingAcquirement d k = Some a \<and> wf_info (va_LockName d) a"
      if "lastProcessedAcquirement d < k" "k \<le> ?la + 1" "k \<noteq> ?la + 1" for k
      using that d(2) nz word_le_pred_iff [of "?la + 1" k] by (auto simp: wf_Acquirement_def)
    have new: "wf_info (va_LockName d) ?a"
      using li cmd d(6) by (simp add: wf_info_def NewDlockAcquirementInfo_def)
    have "Acquirer ?a \<notin> (\<lambda>p. Acquirer (snd p)) ` set (pending d)"
      using None by (fastforce simp: find_None_iff NewDlockAcquirementInfo_def)
    then have "distinct (map (\<lambda>p. Acquirer (snd p)) (pending d'))"
      using d(2) unfolding pend by (simp add: wf_Acquirement_def)
    moreover have "lastProcessedAcquirement d \<le> ?la + 1"
      using d(2) lt by (auto simp: wf_Acquirement_def)
    ultimately have "wf_Acquirement d'"
      using old new room d(4) by (simp add: wf_Acquirement_def d'_def)
    moreover have "LastAppendedNonce d' = LastAppendedNonce dva" "va_LockName d' = va_LockName dva"
      using d by (simp_all add: d'_def)
    ultimately show ?thesis using ins pend None d by (auto simp: Let_def)
  qed
qed

lemma update_head:
  assumes wf: "wf_Acquirement dva" and p: "pending dva = (k, a) # rest"
    and a': "Acquirer a' = Acquirer a" "wf_info (va_LockName dva) a'"
  shows "k = lastProcessedAcquirement dva + 1" "PendingAcquirement dva k = Some a"
    "lastAssignedAcquirement dva \<noteq> lastProcessedAcquirement dva"
    "pending (dva\<lparr>PendingAcquirement := (PendingAcquirement dva)(k \<mapsto> a')\<rparr>) = (k, a') # rest"
    "wf_Acquirement (dva\<lparr>PendingAcquirement := (PendingAcquirement dva)(k \<mapsto> a')\<rparr>)"
    "pending (dva\<lparr>PendingAcquirement := (PendingAcquirement dva)(k \<mapsto> a'), lastProcessedAcquirement := k\<rparr>) = rest"
    "wf_Acquirement (dva\<lparr>PendingAcquirement := (PendingAcquirement dva)(k \<mapsto> a'), lastProcessedAcquirement := k\<rparr>)"
proof -
  let ?d = "dva\<lparr>PendingAcquirement := (PendingAcquirement dva)(k \<mapsto> a')\<rparr>"
  let ?p = "dva\<lparr>PendingAcquirement := (PendingAcquirement dva)(k \<mapsto> a'), lastProcessedAcquirement := k\<rparr>"
  from p show ne: "lastAssignedAcquirement dva \<noteq> lastProcessedAcquirement dva" by auto
  with wf have lt: "lastProcessedAcquirement dva < lastAssignedAcquirement dva"
    by (simp add: wf_Acquirement_def order.not_eq_order_implies_strict)
  from pending_Cons [OF lt] p show k: "k = lastProcessedAcquirement dva + 1" by simp
  from pending_member [OF wf, of k a] p show ka: "PendingAcquirement dva k = Some a" by simp
  have "?p = dva\<lparr>PendingAcquirement := (PendingAcquirement dva)(lastProcessedAcquirement dva + 1 := Some a'),
                lastProcessedAcquirement := lastProcessedAcquirement dva + 1\<rparr>" using k by simp
  note dh = drop_head [OF wf lt this]
  show pp: "pending ?p = rest" using dh(1) p by simp
  show "wf_Acquirement ?p" by (rule dh(2))
  have "pending ?d = (k, a') # pending ?p"
    using pending_Cons [of ?d] lt k by simp
  then show pd: "pending ?d = (k, a') # rest" using pp by simp
  have "\<exists>b. PendingAcquirement ?d j = Some b \<and> wf_info (va_LockName dva) b"
    if "lastProcessedAcquirement dva < j" "j \<le> lastAssignedAcquirement dva" for j
    using that wf a'(2) by (simp add: wf_Acquirement_def)
  moreover have "distinct (map (\<lambda>p. Acquirer (snd p)) (pending ?d))"
    using wf p a'(1) unfolding pd by (simp add: wf_Acquirement_def)
  ultimately show "wf_Acquirement ?d" using wf by (simp add: wf_Acquirement_def)
qed

theorem FetchFirstValidAcquirement_spec:
  assumes wf: "wf_Acquirement dva"
  shows "\<exists>dva'. wf_Acquirement dva' \<and> LastAppendedNonce dva' = LastAppendedNonce dva \<and>
    va_LockName dva' = va_LockName dva \<and> lastAssignedAcquirement dva' = lastAssignedAcquirement dva \<and>
    (case dropWhile (\<lambda>p. acq_expired ts (snd p)) (pending dva) of
       [] \<Rightarrow> FetchFirstValidAcquirement dva popTag ts = (Inr None, dva') \<and> pending dva' = []
     | (k, a) # rest \<Rightarrow>
         \<exists>li. GetAsDLockInfo (ai_Command a) = Inr li \<and>
           (let command = SetAsDLockInfo (li\<lparr>li_Timestamp := ts, li_LockNonce := LastAppendedNonce dva + 1\<rparr>)
                            (ai_Command a)
            in FetchFirstValidAcquirement dva popTag ts = (Inr (Some command), dva') \<and>
               pending dva' = (if popTag then rest else (k, a\<lparr>ai_Command := command\<rparr>) # rest)))"
proof -
  obtain d where d: "AbandonExpiredAcquirement dva ts = (None, d)" "wf_Acquirement d"
    "pending d = dropWhile (\<lambda>p. acq_expired ts (snd p)) (pending dva)"
    "lastAssignedAcquirement d = lastAssignedAcquirement dva"
    "LastAppendedNonce d = LastAppendedNonce dva" "va_LockName d = va_LockName dva"
    using AbandonExpired_spec [OF wf] by metis
  show ?thesis
  proof (cases "pending d")
    case Nil
    then have "lastAssignedAcquirement d = lastProcessedAcquirement d"
      using d(2) pending_Cons [of d] by (fastforce simp: wf_Acquirement_def)
    with d Nil show ?thesis by (auto simp: FetchFirstValidAcquirement_def)
  next
    case (Cons ka rest)
    obtain k a where ka: "ka = (k, a)" by fastforce
    with Cons have p: "pending d = (k, a) # rest" by simp
    have wa: "wf_info (va_LockName d) a" using pending_member [OF d(2), of k a] p by simp
    then obtain li where li: "GetAsDLockInfo (ai_Command a) = Inr li" "li_NewOwner li = Acquirer a"
        "li_LockName li = va_LockName d" "wf_command (CommandDLock (ai_Command a))"
      by (auto simp: wf_info_def split: sum.splits)
    let ?li = "li\<lparr>li_Timestamp := ts, li_LockNonce := LastAppendedNonce dva + 1\<rparr>"
    let ?a = "a\<lparr>ai_Command := SetAsDLockInfo ?li (ai_Command a)\<rparr>"
    have "valid_LockInfo ?li" using GetAsDLockInfo_valid [OF li(1)] by (simp add: valid_LockInfo_def)
    then have wa': "wf_info (va_LockName d) ?a"
      using li by (simp add: wf_info_def GetAsDLockInfo_SetAsDLockInfo wf_command_SetAsDLockInfo)
    have aq: "Acquirer ?a = Acquirer a" by simp
    note u = update_head [OF d(2) p aq wa']
    define d' where "d' = (if popTag
      then d\<lparr>PendingAcquirement := (PendingAcquirement d)(k \<mapsto> ?a), lastProcessedAcquirement := k\<rparr>
      else d\<lparr>PendingAcquirement := (PendingAcquirement d)(k \<mapsto> ?a)\<rparr>)"
    have "FetchFirstValidAcquirement dva popTag ts = (Inr (Some (ai_Command ?a)), d')"
      using d u li by (simp add: FetchFirstValidAcquirement_def Let_def d'_def)
    moreover have "wf_Acquirement d'" "pending d' = (if popTag then rest else (k, ?a) # rest)"
      "LastAppendedNonce d' = LastAppendedNonce dva" "va_LockName d' = va_LockName dva"
      "lastAssignedAcquirement d' = lastAssignedAcquirement dva"
      using u d by (simp_all add: d'_def)
    ultimately show ?thesis using p d(3) li by (auto simp: Let_def)
  qed
qed

text \<open>Refreshing changes the refresh time of one waiting request, and nothing else.\<close>

lemma pending_set:
  assumes "lastProcessedAcquirement dva < seq" "seq \<le> lastAssignedAcquirement dva"
  shows "pending (dva\<lparr>PendingAcquirement := (PendingAcquirement dva)(seq \<mapsto> b)\<rparr>) =
    map (\<lambda>p. if fst p = seq then (seq, b) else p) (pending dva)"
  unfolding pending_def by (auto simp: comp_def)

theorem RefreshAcquirement_spec:
  assumes wf: "wf_Acquirement dva"
  shows "\<exists>dva'. wf_Acquirement dva' \<and> LastAppendedNonce dva' = LastAppendedNonce dva \<and> va_LockName dva' = va_LockName dva \<and>
    (let q = dropWhile (\<lambda>p. acq_expired ts (snd p)) (pending dva) in
     case map_of q seq of
       None \<Rightarrow> RefreshAcquirement dva seq ts = (Some VolatileAcquirementInvalidSequenceError, dva') \<and>
               pending dva' = q
     | Some a \<Rightarrow>
         if acq_expired ts a
         then RefreshAcquirement dva seq ts = (Some VolatileAcquirementExpireError, dva') \<and> pending dva' = q
         else RefreshAcquirement dva seq ts = (None, dva') \<and>
              pending dva' = map (\<lambda>p. if fst p = seq then (seq, a\<lparr>LastRefreshedTimestamp := ts\<rparr>) else p) q)"
proof -
  obtain d where d: "AbandonExpiredAcquirement dva ts = (None, d)" "wf_Acquirement d"
    "pending d = dropWhile (\<lambda>p. acq_expired ts (snd p)) (pending dva)"
    "LastAppendedNonce d = LastAppendedNonce dva" "va_LockName d = va_LockName dva"
    using AbandonExpired_spec [OF wf] by metis
  show ?thesis
  proof (cases "lastProcessedAcquirement d < seq \<and> seq \<le> lastAssignedAcquirement d")
    case False
    then have "map_of (pending d) seq = None"
      using pending_member [OF d(2)] by (force simp: map_of_eq_None_iff)
    with False d show ?thesis
      by (auto simp: RefreshAcquirement_def not_less not_le Let_def)
  next
    case True
    then obtain a where a: "PendingAcquirement d seq = Some a"
      using d(2) by (fastforce simp: wf_Acquirement_def)
    have mem: "(seq, a) \<in> set (pending d)" using pending_all [of d seq] True a by simp
    then have m: "map_of (pending d) seq = Some a"
      using pending_member [OF d(2)] a by (metis map_of_SomeD not_None_eq option.inject weak_map_of_SomeI)
    let ?a = "a\<lparr>LastRefreshedTimestamp := ts\<rparr>"
    let ?d = "d\<lparr>PendingAcquirement := (PendingAcquirement d)(seq \<mapsto> ?a)\<rparr>"
    have wa: "wf_info (va_LockName d) ?a"
      using pending_member [OF d(2) mem] by (auto simp: wf_info_def split: sum.splits)
    have ps: "pending ?d = map (\<lambda>p. if fst p = seq then (seq, ?a) else p) (pending d)"
      using pending_set [of d seq ?a] True by simp
    have "map (\<lambda>p. Acquirer (snd p)) (pending ?d) = map (\<lambda>p. Acquirer (snd p)) (pending d)"
      unfolding ps using pending_member [OF d(2)] a by fastforce
    then have wf': "wf_Acquirement ?d"
      using d(2) wa by (simp add: wf_Acquirement_def)
    have r: "RefreshAcquirement dva seq ts =
        (if acq_expired ts a then (Some VolatileAcquirementExpireError, d) else (None, ?d))"
      using True a d(1) by (auto simp: RefreshAcquirement_def not_less not_le)
    show ?thesis
      using r m d wf' ps by (cases "acq_expired ts a") (auto simp: Let_def intro!: exI [of _ ?d])
  qed
qed

subsection \<open>The contract of an expiring queue\<close>

text \<open>
  What the lock interchange relies on: cleaning drops exactly the expired requests at the
  front; taking the first one removes it alone. So the requests are served in the order of their
  arrival, and no operation but the arrival of a request puts anything before or behind them.
\<close>

locale expiring_queue =
  fixes items :: "'q \<Rightarrow> 'a list"
    and invar :: "'q \<Rightarrow> bool"
    and stale :: "i64 \<Rightarrow> 'a \<Rightarrow> bool"
    and clean :: "'q \<Rightarrow> i64 \<Rightarrow> go_error option \<times> 'q"
    and pop :: "'q \<Rightarrow> i64 \<Rightarrow> (go_error + 'c option) \<times> 'q"
  assumes clean_ok: "invar q \<Longrightarrow>
      \<exists>q'. clean q ts = (None, q') \<and> invar q' \<and> items q' = dropWhile (stale ts) (items q)"
    and pop_ok: "invar q \<Longrightarrow>
      \<exists>r q'. pop q ts = (Inr r, q') \<and> invar q' \<and> items q' = drop 1 (dropWhile (stale ts) (items q)) \<and>
        (r = None \<longleftrightarrow> dropWhile (stale ts) (items q) = [])"
begin

definition serve :: "i64 \<Rightarrow> 'q \<Rightarrow> 'q" where
  "serve ts q = snd (pop q ts)"

lemma serve_suffix:
  assumes "invar q"
  shows "\<exists>n. items (serve ts q) = drop n (items q)" "invar (serve ts q)"
proof -
  obtain r q' where q': "pop q ts = (Inr r, q')" "invar q'" "items q' = drop 1 (dropWhile (stale ts) (items q))"
    using pop_ok [OF assms] by metis
  have "items (serve ts q) = drop (1 + length (takeWhile (stale ts) (items q))) (items q)"
    using q'(1) unfolding serve_def q'(3) dropWhile_eq_drop drop_drop
    by (simp add: q'(3) dropWhile_eq_drop)
  then show "\<exists>n. items (serve ts q) = drop n (items q)" by blast
  show "invar (serve ts q)" using q' by (simp add: serve_def)
qed

text \<open>Whatever is served, and when, the queue left is a suffix of the queue before.\<close>

lemma serve_all_suffix:
  assumes "invar q"
  shows "\<exists>n. items (fold serve tss q) = drop n (items q)"
  using assms
proof (induction tss arbitrary: q)
  case Nil
  have "items q = drop 0 (items q)" by simp
  then show ?case by (metis fold_simps(1))
next
  case (Cons ts tss)
  obtain n where "items (serve ts q) = drop n (items q)" using serve_suffix(1) [OF Cons.prems] by blast
  moreover obtain m where "items (fold serve tss (serve ts q)) = drop m (items (serve ts q))"
    using Cons.IH [OF serve_suffix(2) [OF Cons.prems]] by blast
  ultimately show ?case by (metis drop_drop fold_simps(2))
qed

text \<open>A request is reached after at most as many services as there are requests before it.\<close>

lemma served_within:
  assumes "invar q" "length (items q) \<le> length tss"
  shows "items (fold serve tss q) = []"
  using assms
proof (induction tss arbitrary: q)
  case (Cons ts tss)
  obtain r q' where q': "pop q ts = (Inr r, q')" "invar q'" "items q' = drop 1 (dropWhile (stale ts) (items q))"
    using pop_ok [OF Cons.prems(1)] by metis
  have "length (items q') \<le> length tss"
    using Cons.prems(2) q'(3) length_dropWhile_le [of "stale ts" "items q"] by simp
  with Cons.IH [OF q'(2)] q'(1) show ?case by (simp add: serve_def)
qed simp

end

lemma FetchFirst_pop:
  assumes "wf_Acquirement dva"
  shows "\<exists>r dva'. FetchFirstValidAcquirement dva True ts = (Inr r, dva') \<and> wf_Acquirement dva' \<and>
    pending dva' = drop 1 (dropWhile (\<lambda>p. acq_expired ts (snd p)) (pending dva)) \<and>
    (r = None \<longleftrightarrow> dropWhile (\<lambda>p. acq_expired ts (snd p)) (pending dva) = [])"
  using FetchFirstValidAcquirement_spec [OF assms, where ts = ts and popTag = True]
  by (cases "dropWhile (\<lambda>p. acq_expired ts (snd p)) (pending dva)")
     (auto simp: Let_def simp del: dropWhile_eq_Nil_conv)

interpretation acq_queue: expiring_queue pending wf_Acquirement "\<lambda>ts p. acq_expired ts (snd p)"
  AbandonExpiredAcquirement "\<lambda>dva ts. FetchFirstValidAcquirement dva True ts"
proof
  show "\<exists>q'. AbandonExpiredAcquirement q ts = (None, q') \<and> wf_Acquirement q' \<and>
      pending q' = dropWhile (\<lambda>p. acq_expired ts (snd p)) (pending q)" if "wf_Acquirement q" for q ts
    using AbandonExpired_spec [OF that, of ts] by blast
qed (rule FetchFirst_pop)

end
