(* ===== verification/Logger.thy ===== *)
theory Logger
  imports Log_Entry
begin

section \<open>The logger (utils/logging.go)\<close>

text \<open>
  Log levels, the parser of format templates, the rendering of a message and the methods of a
  logger. A level is a Go integer, so that a level outside of the table is representable; the
  counter of messages is passed along. What the run-time system supplies (the place of the call,
  the clock, the stack) is the argument \<open>log_env\<close>. The parser has a loop that may run forever: it is
  a partial function, and \<open>None\<close> says that it does not return.
\<close>

subsection \<open>Levels and colors\<close>

type_synonym LogLevel = i64

definition CriticalLevel :: LogLevel where "CriticalLevel = 1"
definition ErrorLevel :: LogLevel where "ErrorLevel = 2"
definition WarningLevel :: LogLevel where "WarningLevel = 3"
definition NoticeLevel :: LogLevel where "NoticeLevel = 4"
definition InfoLevel :: LogLevel where "InfoLevel = 5"
definition DebugLevel :: LogLevel where "DebugLevel = 6"

lemmas level_defs = CriticalLevel_def ErrorLevel_def WarningLevel_def NoticeLevel_def InfoLevel_def DebugLevel_def

definition GetLogLevelFromString :: "bytes \<Rightarrow> LogLevel" where
  "GetLogLevelFromString level =
     (case map_of [(''Critical'', CriticalLevel), (''Error'', ErrorLevel), (''Warning'', WarningLevel),
                   (''Notice'', NoticeLevel), (''Info'', InfoLevel), (''Debug'', DebugLevel)] level of
        None \<Rightarrow> InfoLevel
      | Some logLevel \<Rightarrow> logLevel)"

text \<open>A level outside of the table makes the index of the array invalid.\<close>

definition logLevelString :: "LogLevel \<Rightarrow> go_error + bytes" where
  "logLevelString level =
     (let logLevels = [''CRITICAL'', ''ERROR'', ''WARNING'', ''NOTICE'', ''INFO'', ''DEBUG'']
      in if 1 \<le> sint level \<and> sint level \<le> 6 then Inr (logLevels ! nat (sint level - 1))
         else Inl (GoPanic IndexOutOfRange))"

definition colorString :: "int \<Rightarrow> bytes" where
  "colorString color = CHR 0x1B # CHR ''['' # dec_int color @ ''m''"

text \<open>The colors are the numbers 30 (black) to 37 (white); a level that is not in the map has none.\<close>

definition colors :: "LogLevel \<Rightarrow> bytes" where
  "colors level =
     (case map_of [(CriticalLevel, colorString 35), (ErrorLevel, colorString 31), (WarningLevel, colorString 33),
                   (NoticeLevel, colorString 32), (DebugLevel, colorString 36), (InfoLevel, colorString 37)] level of
        None \<Rightarrow> [] | Some s \<Rightarrow> s)"

subsection \<open>Searching in strings\<close>

text \<open>\<^verbatim>\<open>strings.IndexRune\<close> of an ASCII character, \<^verbatim>\<open>strings.Index\<close> and \<^verbatim>\<open>strings.LastIndex\<close>; \<open>None\<close> is \<open>-1\<close>.\<close>

fun IndexRune :: "bytes \<Rightarrow> char \<Rightarrow> nat option" where
  "IndexRune [] c = None"
| "IndexRune (x # xs) c = (if x = c then Some 0 else map_option Suc (IndexRune xs c))"

fun Index :: "bytes \<Rightarrow> bytes \<Rightarrow> nat option" where
  "Index [] p = (if p = [] then Some 0 else None)"
| "Index (x # xs) p = (if has_prefix (x # xs) p then Some 0 else map_option Suc (Index xs p))"

fun LastIndex :: "bytes \<Rightarrow> bytes \<Rightarrow> nat option" where
  "LastIndex [] p = (if p = [] then Some 0 else None)"
| "LastIndex (x # xs) p =
     (case LastIndex xs p of
        Some i \<Rightarrow> Some (Suc i)
      | None \<Rightarrow> if has_prefix (x # xs) p then Some 0 else None)"

subsection \<open>Templates\<close>

definition phfs :: "bytes \<Rightarrow> bytes" where
  "phfs ph =
     (case map_of [(''%{id}'', ''%[1]d''), (''%{time}'', ''%[2]s''), (''%{module}'', ''%[3]s''),
                   (''%{filename}'', ''%[4]s''), (''%{file}'', ''%[4]s''), (''%{line}'', ''%[5]d''),
                   (''%{level}'', ''%[6]s''), (''%{lvl}'', ''%.3[6]s''), (''%{message}'', ''%[7]s'')] ph of
        None \<Rightarrow> [] | Some verb \<Rightarrow> verb)"

definition defFmt :: bytes where
  "defFmt = ''#%[1]d %[2]s %[4]s:%[5]d '' @ [CHR 0xE2, CHR 0x96, CHR 0xB6] @ '' %.3[6]s %[7]s''"

definition defTimeFmt :: bytes where
  "defTimeFmt = ''2006-01-02 15:04:05''"

definition ph2verb :: "bytes \<Rightarrow> bytes \<times> bytes" where
  "ph2verb ph =
     (let n = length ph
      in if n < 4 then ([], [])
         else if ph ! 0 \<noteq> CHR ''%'' \<or> ph ! 1 \<noteq> CHR ''{'' \<or> ph ! (n - 1) \<noteq> CHR ''}'' then ([], [])
         else case IndexRune ph CHR '':'' of
                None \<Rightarrow> (phfs ph, [])
              | Some idx \<Rightarrow> (phfs (take idx ph @ ''}''), drop (idx + 1) (take (n - 1) ph)))"

text \<open>
  The variables of the loop of \<^verbatim>\<open>parseFormat\<close>; \<open>ps_idx\<close> is the position of the next percent sign. A
  rest of at most two bytes is left as it is.
\<close>

record parse_state =
  ps_msgfmt :: bytes
  ps_timefmt :: bytes
  ps_format :: bytes
  ps_idx :: "nat option"

text \<open>The end of a round looks for the next percent sign.\<close>

definition resume :: "bytes \<Rightarrow> bytes \<Rightarrow> bytes \<Rightarrow> parse_state" where
  "resume m t f = \<lparr>ps_msgfmt = m, ps_timefmt = t, ps_format = f, ps_idx = IndexRune f CHR ''%''\<rparr>"

definition parse_round :: "parse_state \<Rightarrow> parse_state" where
  "parse_round st =
     (let idx = the (ps_idx st); msgfmt = ps_msgfmt st @ take idx (ps_format st); format = drop idx (ps_format st);
          timefmt = ps_timefmt st
      in if 2 < length format
         then if format ! 1 = CHR ''{''
              then (case IndexRune format CHR ''}'' of
                      None \<Rightarrow> resume msgfmt timefmt (drop 1 format)
                    | Some jdx \<Rightarrow>
                        let next = Index (drop 1 format) ''%{''
                        in if (case next of None \<Rightarrow> False | Some i \<Rightarrow> i < jdx)
                           then \<lparr>ps_msgfmt = msgfmt @ ''%%'', ps_timefmt = timefmt, ps_format = drop 1 format, ps_idx = next\<rparr>
                           else let (verb, arg) = ph2verb (take (jdx + 1) format)
                                in resume (msgfmt @ verb) (if verb = ''%[2]s'' \<and> arg \<noteq> [] then arg else timefmt)
                                     (drop (jdx + 1) format))
              else resume (msgfmt @ ''%%'') timefmt (drop 1 format)
         else resume msgfmt timefmt format)"

partial_function (option) parse_loop :: "parse_state \<Rightarrow> (bytes \<times> bytes) option" where
  "parse_loop st =
     (if ps_idx st = None then Some (ps_msgfmt st @ ps_format st, ps_timefmt st) else parse_loop (parse_round st))"

text \<open>The defaults are package variables, so they are arguments here.\<close>

definition parseFormat :: "bytes \<times> bytes \<Rightarrow> bytes \<Rightarrow> (bytes \<times> bytes) option" where
  "parseFormat defaults format =
     (if length format < 10 then Some defaults
      else parse_loop (resume [] (snd defaults) format))"

definition SetDefaultFormat :: "bytes \<Rightarrow> bytes \<times> bytes \<Rightarrow> (bytes \<times> bytes) option" where
  "SetDefaultFormat format defaults = parseFormat defaults format"

subsection \<open>Messages\<close>

record Info =
  info_Id :: u64
  info_Time :: bytes
  info_Module :: bytes
  info_Level :: LogLevel
  info_Line :: i64
  info_Filename :: bytes
  info_Message :: bytes

text \<open>
  \<^verbatim>\<open>fmt.Sprintf\<close> for the formats of this package: text, \<^verbatim>\<open>%%\<close> and the verbs of the table, all of which
  name their argument. \<open>None\<close> stands for any other verb. Without a verb that names its argument
  the arguments are reported at the end.
\<close>

definition verbs :: "Info \<Rightarrow> bytes \<Rightarrow> (bytes \<times> bytes) list" where
  "verbs r level =
     [(''%%'', ''%''), (''%[1]d'', dec_nat (unat (info_Id r))), (''%[2]s'', info_Time r), (''%[3]s'', info_Module r),
      (''%[4]s'', info_Filename r), (''%[5]d'', dec_int (sint (info_Line r))), (''%[6]s'', level),
      (''%.3[6]s'', take 3 level), (''%[7]s'', info_Message r)]"

fun render :: "(bytes \<times> bytes) list \<Rightarrow> bytes \<Rightarrow> (bytes \<times> bool) option" where
  "render vs [] = Some ([], False)"
| "render vs (c # s) =
     (if c \<noteq> CHR ''%'' then map_option (\<lambda>(t, named). (c # t, named)) (render vs s)
      else case find (\<lambda>(v, t). has_prefix (c # s) v) vs of
             None \<Rightarrow> None
           | Some (v, t) \<Rightarrow>
               map_option (\<lambda>(t', named). (t @ t', v \<noteq> ''%%'' \<or> named)) (render vs (drop (length v - 1) s)))"

definition extra :: "Info \<Rightarrow> bytes \<Rightarrow> bytes" where
  "extra r level =
     ''%!(EXTRA uint64='' @ dec_nat (unat (info_Id r)) @ '', string='' @ info_Time r @ '', string='' @ info_Module r @
     '', string='' @ info_Filename r @ '', int='' @ dec_int (sint (info_Line r)) @ '', string='' @ level @
     '', string='' @ info_Message r @ '')''"

definition Sprintf :: "bytes \<Rightarrow> Info \<Rightarrow> bytes \<Rightarrow> bytes option" where
  "Sprintf format r level =
     map_option (\<lambda>(t, named). if named then t else t @ extra r level) (render (verbs r level) format)"

definition Info_Output :: "bytes \<Rightarrow> Info \<Rightarrow> go_error + bytes option" where
  "Info_Output format r =
     (case logLevelString (info_Level r) of
        Inl err \<Rightarrow> Inl err
      | Inr level \<Rightarrow>
          Inr (map_option (\<lambda>msg. case LastIndex msg ''%!(EXTRA'' of Some i \<Rightarrow> take i msg | None \<Rightarrow> msg)
                 (Sprintf format r level)))"

subsection \<open>Workers and loggers\<close>

text \<open>
  The logger of the standard library that a worker writes to: its prefix, its flags and its file. It
  writes the prefix, what the flags ask for (nothing for the flags 0 that \<^verbatim>\<open>New\<close> passes) and the
  message, with a line feed at the end if there is none.
\<close>

record Minion =
  mn_prefix :: bytes
  mn_flag :: i64
  mn_out :: os_file

record Worker =
  w_Minion :: Minion
  w_Color :: i64
  w_format :: bytes
  w_timeFormat :: bytes
  w_level :: LogLevel

record Logger =
  l_Module :: bytes
  l_worker :: Worker

text \<open>What the run-time system supplies: the file and the line of the call, the clock, the stack, the flags' text.\<close>

record log_env =
  caller_file :: bytes
  caller_line :: i64
  clock :: "bytes \<Rightarrow> bytes"
  stack_trace :: bytes
  flag_text :: "i64 \<Rightarrow> bytes"

definition Minion_Output :: "log_env \<Rightarrow> bytes \<Rightarrow> Minion \<Rightarrow> go_error option \<times> Minion" where
  "Minion_Output env s m =
     (let line = mn_prefix m @ (if mn_flag m = 0 then [] else flag_text env (mn_flag m)) @ s;
          (r, f) = file_write (if s = [] \<or> last s \<noteq> CHR 0x0A then line @ [CHR 0x0A] else line) (mn_out m)
      in ((case r of Inl err \<Rightarrow> Some err | Inr _ \<Rightarrow> None), m\<lparr>mn_out := f\<rparr>))"

definition NewWorker :: "bytes \<times> bytes \<Rightarrow> bytes \<Rightarrow> i64 \<Rightarrow> i64 \<Rightarrow> os_file \<Rightarrow> Worker" where
  "NewWorker defaults prefix flag color out =
     \<lparr>w_Minion = \<lparr>mn_prefix = prefix, mn_flag = flag, mn_out = out\<rparr>, w_Color = color,
      w_format = fst defaults, w_timeFormat = snd defaults, w_level = 0\<rparr>"

definition Worker_SetFormat :: "bytes \<times> bytes \<Rightarrow> bytes \<Rightarrow> Worker \<Rightarrow> Worker option" where
  "Worker_SetFormat defaults format w =
     map_option (\<lambda>(msgfmt, timefmt). w\<lparr>w_format := msgfmt, w_timeFormat := timefmt\<rparr>) (parseFormat defaults format)"

definition Logger_SetFormat :: "bytes \<times> bytes \<Rightarrow> bytes \<Rightarrow> Logger \<Rightarrow> Logger option" where
  "Logger_SetFormat defaults format l =
     map_option (\<lambda>w. l\<lparr>l_worker := w\<rparr>) (Worker_SetFormat defaults format (l_worker l))"

definition Worker_SetLogLevel :: "LogLevel \<Rightarrow> Worker \<Rightarrow> Worker" where
  "Worker_SetLogLevel level w = w\<lparr>w_level := level\<rparr>"

definition Logger_SetLogLevel :: "LogLevel \<Rightarrow> Logger \<Rightarrow> Logger" where
  "Logger_SetLogLevel level l = l\<lparr>l_worker := (l_worker l)\<lparr>w_level := level\<rparr>\<rparr>"

text \<open>A format with a verb outside of the table is not written by this package; the model stops there (\<open>None\<close>).\<close>

definition Worker_Log :: "log_env \<Rightarrow> LogLevel \<Rightarrow> Info \<Rightarrow> Worker \<Rightarrow> (go_error option \<times> Worker) option" where
  "Worker_Log env level info w =
     (if i64_less (w_level w) level then Some (None, w)
      else case Info_Output (w_format w) info of
             Inl err \<Rightarrow> Some (Some err, w)
           | Inr None \<Rightarrow> None
           | Inr (Some msg) \<Rightarrow>
               let text = (if w_Color w \<noteq> 0 then colors level @ msg @ CHR 0x1B # ''[0m'' else msg);
                   (err, m) = Minion_Output env text (w_Minion w)
               in Some (err, w\<lparr>w_Minion := m\<rparr>))"

text \<open>The arguments of \<^verbatim>\<open>New\<close> by their dynamic type; the last of each type counts, any other type panics.\<close>

datatype log_arg = ArgString bytes | ArgInt i64 | ArgWriter os_file | ArgLevel LogLevel | ArgOther

record log_options =
  opt_module :: bytes
  opt_color :: i64
  opt_out :: os_file
  opt_level :: LogLevel

fun New_options :: "log_arg list \<Rightarrow> log_options \<Rightarrow> log_options option" where
  "New_options [] opts = Some opts"
| "New_options (arg # args) opts =
     (case arg of
        ArgString t \<Rightarrow> New_options args (opts\<lparr>opt_module := t\<rparr>)
      | ArgInt t \<Rightarrow> New_options args (opts\<lparr>opt_color := t\<rparr>)
      | ArgWriter t \<Rightarrow> New_options args (opts\<lparr>opt_out := t\<rparr>)
      | ArgLevel t \<Rightarrow> New_options args (opts\<lparr>opt_level := t\<rparr>)
      | ArgOther \<Rightarrow> None)"

text \<open>\<open>Inl\<close> is the message of the panic.\<close>

definition New :: "bytes \<times> bytes \<Rightarrow> os_file \<Rightarrow> log_arg list \<Rightarrow> bytes + Logger" where
  "New defaults stderr args =
     (case New_options args \<lparr>opt_module = ''DEFAULT'', opt_color = 1, opt_out = stderr, opt_level = InfoLevel\<rparr> of
        None \<Rightarrow> Inl ''logger: Unknown argument''
      | Some opts \<Rightarrow>
          Inr \<lparr>l_Module = opt_module opts,
               l_worker = Worker_SetLogLevel (opt_level opts) (NewWorker defaults [] 0 (opt_color opts) (opt_out opts))\<rparr>)"

text \<open>\<^verbatim>\<open>path.Base\<close>.\<close>

definition path_Base :: "bytes \<Rightarrow> bytes" where
  "path_Base p =
     (if p = [] then ''.''
      else let base = rev (takeWhile (\<lambda>c. c \<noteq> CHR ''/'') (dropWhile (\<lambda>c. c = CHR ''/'') (rev p)))
           in if base = [] then ''/'' else base)"

text \<open>
  The counter of messages and the logger change together; an error of the file is dropped, a panic
  is not. The counter counts messages that are filtered out as well.
\<close>

definition log_internal :: "log_env \<Rightarrow> LogLevel \<Rightarrow> bytes \<Rightarrow> u64 \<times> Logger \<Rightarrow> (go_error option \<times> u64 \<times> Logger) option" where
  "log_internal env lvl message st =
     (case st of (logNo, l) \<Rightarrow>
        let info = \<lparr>info_Id = logNo + 1, info_Time = clock env (w_timeFormat (l_worker l)), info_Module = l_Module l,
                    info_Level = lvl, info_Line = caller_line env, info_Filename = path_Base (caller_file env),
                    info_Message = message\<rparr>
        in map_option (\<lambda>(err, w). ((case err of Some (GoPanic p) \<Rightarrow> Some (GoPanic p) | _ \<Rightarrow> None),
                                    logNo + 1, l\<lparr>l_worker := w\<rparr>))
             (Worker_Log env lvl info (l_worker l)))"

subsection \<open>The methods\<close>

text \<open>
  The methods with a format string log the text that \<^verbatim>\<open>fmt.Sprintf\<close> makes of it, so they are the
  methods without one at that text. How a method ends: it returns, exits the program, or panics.
\<close>

datatype log_end = Returns | Exits | Panics "go_error + bytes"

type_synonym log_step = "u64 \<times> Logger \<Rightarrow> (log_end \<times> u64 \<times> Logger) option"

definition log_then :: "log_end \<Rightarrow> log_env \<Rightarrow> LogLevel \<Rightarrow> bytes \<Rightarrow> log_step" where
  "log_then after env lvl message st =
     map_option (\<lambda>(err, st'). ((case err of None \<Rightarrow> after | Some e \<Rightarrow> Panics (Inl e)), st')) (log_internal env lvl message st)"

definition Logger_Log :: "log_env \<Rightarrow> LogLevel \<Rightarrow> bytes \<Rightarrow> log_step" where
  "Logger_Log = log_then Returns"

definition Logger_Fatal :: "log_env \<Rightarrow> bytes \<Rightarrow> log_step" where
  "Logger_Fatal env message = log_then Exits env CriticalLevel message"

definition Logger_Panic :: "log_env \<Rightarrow> bytes \<Rightarrow> log_step" where
  "Logger_Panic env message = log_then (Panics (Inr message)) env CriticalLevel message"

definition Logger_Critical :: "log_env \<Rightarrow> bytes \<Rightarrow> log_step" where
  "Logger_Critical env message = log_then Returns env CriticalLevel message"

definition Logger_Error :: "log_env \<Rightarrow> bytes \<Rightarrow> log_step" where
  "Logger_Error env message = log_then Returns env ErrorLevel message"

definition Logger_Warning :: "log_env \<Rightarrow> bytes \<Rightarrow> log_step" where
  "Logger_Warning env message = log_then Returns env WarningLevel message"

definition Logger_Notice :: "log_env \<Rightarrow> bytes \<Rightarrow> log_step" where
  "Logger_Notice env message = log_then Returns env NoticeLevel message"

definition Logger_Info :: "log_env \<Rightarrow> bytes \<Rightarrow> log_step" where
  "Logger_Info env message = log_then Returns env InfoLevel message"

definition Logger_Debug :: "log_env \<Rightarrow> bytes \<Rightarrow> log_step" where
  "Logger_Debug env message = log_then Returns env DebugLevel message"

text \<open>The whole buffer is returned, with the zero bytes behind the trace.\<close>

definition Stack :: "log_env \<Rightarrow> bytes" where
  "Stack env = take 1000000 (stack_trace env) @ replicate (1000000 - length (stack_trace env)) CHR 0x00"

definition StackAsError :: "log_env \<Rightarrow> bytes \<Rightarrow> log_step" where
  "StackAsError env message =
     log_then Returns env ErrorLevel ((if message = [] then ''Stack info'' else message) @ CHR 0x0A # Stack env)"

definition StackAsCritical :: "log_env \<Rightarrow> bytes \<Rightarrow> log_step" where
  "StackAsCritical env message =
     log_then Returns env CriticalLevel ((if message = [] then ''Stack info'' else message) @ CHR 0x0A # Stack env)"

subsection \<open>Searching\<close>

lemma IndexRune_None: "IndexRune s c = None \<longleftrightarrow> c \<notin> set s"
  by (induction s) auto

lemma IndexRune_Some: "IndexRune s c = Some i \<Longrightarrow> i < length s \<and> s ! i = c \<and> c \<notin> set (take i s)"
  by (induction s arbitrary: i) (auto split: if_splits)

lemma IndexRune_append: "c \<notin> set xs \<Longrightarrow> IndexRune (xs @ ys) c = map_option (\<lambda>i. length xs + i) (IndexRune ys c)"
proof (induction xs)
  case Nil
  show ?case by (cases "IndexRune ys c") simp_all
next
  case (Cons x xs)
  then show ?case by (cases "IndexRune ys c") auto
qed

lemma Index_Some: "Index s p = Some i \<Longrightarrow> p \<noteq> [] \<Longrightarrow> i < length s \<and> has_prefix (drop i s) p"
  by (induction s arbitrary: i) (auto split: if_splits)

lemma has_prefix_head: "has_prefix s (c # p) \<Longrightarrow> \<exists>g. s = c # g"
  by (cases s) (auto simp: has_prefix_def)

subsection \<open>When the parser of templates returns\<close>

text \<open>The position in the state is that of a percent sign.\<close>

definition at_percent :: "parse_state \<Rightarrow> bool" where
  "at_percent st \<longleftrightarrow> (case ps_idx st of None \<Rightarrow> CHR ''%'' \<notin> set (ps_format st)
     | Some i \<Rightarrow> i < length (ps_format st) \<and> ps_format st ! i = CHR ''%'')"

lemma at_percent_resume: "at_percent (resume m t f)"
  using IndexRune_Some [of f "CHR ''%''"] by (auto simp: at_percent_def resume_def IndexRune_None split: option.split)

lemma resume_format [simp]: "ps_format (resume m t f) = f"
  by (simp add: resume_def)

text \<open>The round at the position \<open>i\<close>, by what stands there.\<close>

lemma parse_round_at:
  fixes st :: parse_state and i :: nat
  defines "m \<equiv> ps_msgfmt st @ take i (ps_format st)" and "f \<equiv> drop i (ps_format st)"
  assumes "ps_idx st = Some i"
  shows "length f \<le> 2 \<Longrightarrow> parse_round st = resume m (ps_timefmt st) f"
    "2 < length f \<Longrightarrow> f ! 1 \<noteq> CHR ''{'' \<Longrightarrow> parse_round st = resume (m @ ''%%'') (ps_timefmt st) (drop 1 f)"
    "2 < length f \<Longrightarrow> f ! 1 = CHR ''{'' \<Longrightarrow> IndexRune f CHR ''}'' = None \<Longrightarrow> parse_round st = resume m (ps_timefmt st) (drop 1 f)"
    "2 < length f \<Longrightarrow> f ! 1 = CHR ''{'' \<Longrightarrow> IndexRune f CHR ''}'' = Some j \<Longrightarrow> Index (drop 1 f) ''%{'' = Some k \<Longrightarrow> k < j \<Longrightarrow>
       parse_round st = \<lparr>ps_msgfmt = m @ ''%%'', ps_timefmt = ps_timefmt st, ps_format = drop 1 f, ps_idx = Some k\<rparr>"
    "2 < length f \<Longrightarrow> f ! 1 = CHR ''{'' \<Longrightarrow> IndexRune f CHR ''}'' = Some j \<Longrightarrow>
       \<forall>k. Index (drop 1 f) ''%{'' = Some k \<longrightarrow> j \<le> k \<Longrightarrow> ph2verb (take (j + 1) f) = (verb, arg) \<Longrightarrow>
       parse_round st = resume (m @ verb) (if verb = ''%[2]s'' \<and> arg \<noteq> [] then arg else ps_timefmt st) (drop (j + 1) f)"
  unfolding parse_round_def Let_def m_def f_def assms(3) option.sel
  by (auto split: option.split dest: leD)

lemma parse_round_cases:
  fixes st :: parse_state and i :: nat
  defines "f \<equiv> drop i (ps_format st)"
  assumes "ps_idx st = Some i"
  obtains (short) "length f \<le> 2" "\<exists>m t. parse_round st = resume m t f"
  | (skip) "2 < length f" "\<exists>m t. parse_round st = resume m t (drop 1 f)"
  | (nested) k where "2 < length f" "Index (drop 1 f) ''%{'' = Some k"
      "\<exists>m t. parse_round st = \<lparr>ps_msgfmt = m, ps_timefmt = t, ps_format = drop 1 f, ps_idx = Some k\<rparr>"
  | (verb) j where "2 < length f" "IndexRune f CHR ''}'' = Some j" "\<exists>m t. parse_round st = resume m t (drop (j + 1) f)"
proof -
  note at = parse_round_at [OF assms(2), folded f_def]
  consider "length f \<le> 2" | "2 < length f" "f ! 1 \<noteq> CHR ''{''" | "2 < length f" "f ! 1 = CHR ''{''" "IndexRune f CHR ''}'' = None"
    | j where "2 < length f" "f ! 1 = CHR ''{''" "IndexRune f CHR ''}'' = Some j"
    by fastforce
  then show ?thesis
  proof cases
    case 1
    show ?thesis by (rule short [OF 1]) (use at(1) [OF 1] in blast)
  next
    case 2
    show ?thesis by (rule skip [OF 2(1)]) (use at(2) [OF 2] in blast)
  next
    case 3
    show ?thesis by (rule skip [OF 3(1)]) (use at(3) [OF 3] in blast)
  next
    case 4
    show ?thesis
    proof (cases "\<exists>k. Index (drop 1 f) ''%{'' = Some k \<and> k < j")
      case True
      then obtain k where k: "Index (drop 1 f) ''%{'' = Some k" "k < j" by blast
      show ?thesis by (rule nested [OF 4(1) k(1)]) (use at(4) [OF 4 k] in blast)
    next
      case False
      then have "\<forall>k. Index (drop 1 f) ''%{'' = Some k \<longrightarrow> j \<le> k" by (simp add: not_less)
      from at(5) [OF 4 this] show ?thesis by (intro verb [OF 4(1,3)]) (metis surj_pair)
    qed
  qed
qed

lemma parse_round_rest:
  assumes "at_percent st" "ps_idx st = Some i"
  shows "at_percent (parse_round st)"
    "2 < length (ps_format st) - i \<Longrightarrow> \<exists>k>0. i + k \<le> length (ps_format st) \<and> ps_format (parse_round st) = drop (i + k) (ps_format st) \<and>
       (k = 1 \<or> ps_format st ! (i + k - 1) = CHR ''}'')"
    "length (ps_format st) - i \<le> 2 \<Longrightarrow> ps_format (parse_round st) = drop i (ps_format st)"
proof -
  let ?f = "drop i (ps_format st)"
  have i: "i < length (ps_format st)" using assms by (simp add: at_percent_def)
  show "at_percent (parse_round st)"
  proof (rule parse_round_cases [OF assms(2)])
    fix k assume k: "Index (drop 1 ?f) ''%{'' = Some k"
      "\<exists>m t. parse_round st = \<lparr>ps_msgfmt = m, ps_timefmt = t, ps_format = drop 1 ?f, ps_idx = Some k\<rparr>"
    have "k < length (drop 1 ?f) \<and> has_prefix (drop k (drop 1 ?f)) ''%{''" by (rule Index_Some [OF k(1)]) simp
    then show ?thesis using k(2) by (cases "drop k (drop 1 ?f)") (auto simp: at_percent_def has_prefix_def nth_via_drop)
  qed (use at_percent_resume in metis)+
  show "\<exists>k>0. i + k \<le> length (ps_format st) \<and> ps_format (parse_round st) = drop (i + k) (ps_format st) \<and>
       (k = 1 \<or> ps_format st ! (i + k - 1) = CHR ''}'')" if len: "2 < length (ps_format st) - i"
  proof (rule parse_round_cases [OF assms(2)])
    assume "length ?f \<le> 2"
    with len show ?thesis by simp
  next
    assume "\<exists>m t. parse_round st = resume m t (drop 1 ?f)"
    with len show ?thesis by (intro exI [of _ 1]) auto
  next
    fix k assume "\<exists>m t. parse_round st = \<lparr>ps_msgfmt = m, ps_timefmt = t, ps_format = drop 1 ?f, ps_idx = Some k\<rparr>"
    with len show ?thesis by (intro exI [of _ 1]) auto
  next
    fix j assume j: "IndexRune ?f CHR ''}'' = Some j" "\<exists>m t. parse_round st = resume m t (drop (j + 1) ?f)"
    have "j < length ?f" "?f ! j = CHR ''}''" using IndexRune_Some [OF j(1)] by simp_all
    with j(2) show ?thesis by (intro exI [of _ "j + 1"]) (auto simp: ac_simps)
  qed
  show "length (ps_format st) - i \<le> 2 \<Longrightarrow> ps_format (parse_round st) = drop i (ps_format st)"
    using parse_round_at(1) [OF assms(2)] by simp
qed

lemma parse_loop_ends:
  assumes "at_percent st" "CHR ''%'' \<notin> set (drop (length (ps_format st) - 2) (ps_format st))"
  shows "\<exists>r. parse_loop st = Some r"
  using assms
proof (induction "length (ps_format st)" arbitrary: st rule: less_induct)
  case less
  let ?f = "ps_format st"
  show ?case
  proof (cases "ps_idx st")
    case None
    then show ?thesis by (simp add: parse_loop.simps [of st])
  next
    case (Some i)
    have i: "i < length ?f" "?f ! i = CHR ''%''" using less.prems(1) Some by (simp_all add: at_percent_def)
    have "2 < length ?f - i"
    proof (rule ccontr)
      assume "\<not> 2 < length ?f - i"
      then have "?f ! i = drop (length ?f - 2) ?f ! (i - (length ?f - 2))" "i - (length ?f - 2) < length (drop (length ?f - 2) ?f)"
        using i(1) by auto
      then show False using i(2) less.prems(2) by (metis nth_mem)
    qed
    from parse_round_rest(2) [OF less.prems(1) Some this]
    obtain k where k: "0 < k" "i + k \<le> length ?f" "ps_format (parse_round st) = drop (i + k) ?f"
      by (elim exE conjE) (rule that)
    have "set (drop (length (ps_format (parse_round st)) - 2) (ps_format (parse_round st))) \<subseteq> set (drop (length ?f - 2) ?f)"
      unfolding k(3) drop_drop by (rule set_drop_subset_set_drop) (use k(2) in simp)
    then have "\<exists>r. parse_loop (parse_round st) = Some r"
      using less.prems(2) k i(1) by (intro less.hyps parse_round_rest(1) [OF less.prems(1) Some]) (simp, blast)
    then show ?thesis using Some by (simp add: parse_loop.simps [of st])
  qed
qed

text \<open>A template that ends in a percent sign is never left: the sign stays in the rest.\<close>

definition ends_in_percent :: "bytes \<Rightarrow> bool" where
  "ends_in_percent s \<longleftrightarrow> s \<noteq> [] \<and> last s = CHR ''%''"

lemma ends_in_percent_member: "ends_in_percent s \<Longrightarrow> CHR ''%'' \<in> set s"
  using last_in_set [of s] by (simp add: ends_in_percent_def)

lemma ends_in_percent_drop: "ends_in_percent s \<Longrightarrow> k < length s \<Longrightarrow> ends_in_percent (drop k s)"
  by (simp add: ends_in_percent_def)

lemma parse_round_last:
  assumes "at_percent st" "ps_idx st = Some i" "ends_in_percent (ps_format st)"
  shows "ends_in_percent (ps_format (parse_round st))"
proof (cases "2 < length (ps_format st) - i")
  case True
  obtain k where k: "0 < k" "i + k \<le> length (ps_format st)" "ps_format (parse_round st) = drop (i + k) (ps_format st)"
      "k = 1 \<or> ps_format st ! (i + k - 1) = CHR ''}''"
    using parse_round_rest(2) [OF assms(1,2) True] by (elim exE conjE) (rule that)
  have "ps_format st ! (length (ps_format st) - 1) = CHR ''%''" using assms(3) last_conv_nth [of "ps_format st"] by (simp add: ends_in_percent_def)
  then have "i + k \<noteq> length (ps_format st)" using k(4) True by auto
  with k(2,3) assms(3) show ?thesis by (simp add: ends_in_percent_drop)
next
  case False
  have "i < length (ps_format st)" using assms(1,2) by (simp add: at_percent_def)
  with False parse_round_rest(3) [OF assms(1,2)] assms(3) show ?thesis by (simp add: ends_in_percent_drop)
qed

lemma parse_loop_stuck:
  assumes "parse_loop st = Some r" "at_percent st"
  shows "\<not> ends_in_percent (ps_format st)"
proof -
  have "at_percent st \<longrightarrow> \<not> ends_in_percent (ps_format st)"
  proof (rule parse_loop.raw_induct [where P = "\<lambda>st r. at_percent st \<longrightarrow> \<not> ends_in_percent (ps_format st)", OF _ assms(1)])
    fix f st r
    assume IH: "\<And>st r. f st = Some r \<Longrightarrow> at_percent st \<longrightarrow> \<not> ends_in_percent (ps_format st)"
      and eq: "(if ps_idx st = None then Some (ps_msgfmt st @ ps_format st, ps_timefmt st) else f (parse_round st)) = Some r"
    show "at_percent st \<longrightarrow> \<not> ends_in_percent (ps_format st)"
    proof (cases "ps_idx st")
      case None
      then show ?thesis using ends_in_percent_member by (auto simp: at_percent_def)
    next
      case (Some i)
      with eq have "f (parse_round st) = Some r" by simp
      from IH [OF this] Some parse_round_rest(1) parse_round_last show ?thesis by blast
    qed
  qed
  with assms(2) show ?thesis by blast
qed

lemma parseFormat_ends:
  assumes "CHR ''%'' \<notin> set (drop (length format - 2) format)"
  shows "\<exists>r. parseFormat defaults format = Some r"
  unfolding parseFormat_def using parse_loop_ends [OF at_percent_resume] assms by simp

lemma parseFormat_stuck:
  assumes "10 \<le> length format" "last format = CHR ''%''"
  shows "parseFormat defaults format = None"
proof -
  have "ends_in_percent format" using assms by (auto simp: ends_in_percent_def)
  then have "parse_loop (resume [] (snd defaults) format) \<noteq> Some r" for r
    using parse_loop_stuck [OF _ at_percent_resume, of "[]" "snd defaults" format r] by auto
  then have "parse_loop (resume [] (snd defaults) format) = None" by (cases "parse_loop (resume [] (snd defaults) format)") auto
  then show ?thesis using assms(1) by (simp add: parseFormat_def)
qed

subsection \<open>What a template prints\<close>

text \<open>
  A template is a sequence of texts without a percent sign, of placeholders of the table, and of
  the placeholder of the time with a layout of its own.
\<close>

datatype piece = Text bytes | Field bytes | TimeAs bytes

definition placeholders :: "bytes list" where
  "placeholders = [''%{id}'', ''%{time}'', ''%{module}'', ''%{filename}'', ''%{file}'', ''%{line}'', ''%{level}'', ''%{lvl}'', ''%{message}'']"

fun piece_source :: "piece \<Rightarrow> bytes" where
  "piece_source (Text s) = s"
| "piece_source (Field ph) = ph"
| "piece_source (TimeAs layout) = ''%{time:'' @ layout @ ''}''"

fun good_piece :: "piece \<Rightarrow> bool" where
  "good_piece (Text s) \<longleftrightarrow> CHR ''%'' \<notin> set s"
| "good_piece (Field ph) \<longleftrightarrow> ph \<in> set placeholders"
| "good_piece (TimeAs layout) \<longleftrightarrow> layout \<noteq> [] \<and> CHR ''%'' \<notin> set layout \<and> CHR ''}'' \<notin> set layout"

fun piece_verb :: "piece \<Rightarrow> bytes" where
  "piece_verb (Text s) = s"
| "piece_verb (Field ph) = phfs ph"
| "piece_verb (TimeAs layout) = ''%[2]s''"

fun piece_layout :: "piece \<Rightarrow> bytes \<Rightarrow> bytes" where
  "piece_layout (TimeAs layout) t = layout"
| "piece_layout p t = t"

definition template :: "piece list \<Rightarrow> bytes" where
  "template ps = concat (map piece_source ps)"

lemma parse_text:
  assumes "CHR ''%'' \<notin> set s"
  shows "parse_loop (resume m t (s @ f)) = parse_loop (resume (m @ s) t f)"
proof (cases "IndexRune f CHR ''%''")
  case None
  then show ?thesis
    using IndexRune_append [OF assms, of f] parse_loop.simps [of "resume m t (s @ f)"] parse_loop.simps [of "resume (m @ s) t f"]
    by (simp add: resume_def)
next
  case (Some i)
  then have "parse_round (resume m t (s @ f)) = parse_round (resume (m @ s) t f)"
    using IndexRune_append [OF assms, of f] by (simp add: parse_round_def resume_def)
  with Some show ?thesis
    using IndexRune_append [OF assms, of f] parse_loop.simps [of "resume m t (s @ f)"] parse_loop.simps [of "resume (m @ s) t f"]
    by (simp add: resume_def)
qed

text \<open>A placeholder at the front: the round takes it whole.\<close>

lemma parse_placeholder:
  assumes "CHR ''%'' \<notin> set body" "CHR ''}'' \<notin> set body" "body \<noteq> []" "hd body = CHR ''{''"
    and "ph2verb (CHR ''%'' # body @ ''}'') = (verb, arg)"
  shows "parse_loop (resume m t (CHR ''%'' # body @ ''}'' @ f)) =
    parse_loop (resume (m @ verb) (if verb = ''%[2]s'' \<and> arg \<noteq> [] then arg else t) f)"
proof -
  let ?ph = "CHR ''%'' # body @ ''}''" and ?F = "CHR ''%'' # body @ ''}'' @ f" and ?j = "Suc (length body)"
  let ?st = "resume m t ?F"
  have i: "ps_idx ?st = Some 0" by (simp add: resume_def)
  have j: "IndexRune ?F CHR ''}'' = Some ?j" using IndexRune_append [OF assms(2), of "CHR ''}'' # f"] by simp
  have nx: "?j \<le> k" if "Index (drop 1 ?F) ''%{'' = Some k" for k
  proof (rule ccontr)
    assume "\<not> ?j \<le> k"
    have "has_prefix (drop k (drop 1 ?F)) ''%{''" using Index_Some [OF that] by simp
    then obtain g where "drop k (drop 1 ?F) = CHR ''%'' # g" using has_prefix_head by blast
    then have "drop k (body @ ''}'' @ f) = CHR ''%'' # g" by (metis One_nat_def drop0 drop_Suc_Cons)
    then have "(body @ ''}'' @ f) ! k = CHR ''%''" by (rule nth_via_drop)
    moreover have "k < length (body @ ''}'')" using \<open>\<not> ?j \<le> k\<close> by simp
    ultimately have "(body @ ''}'') ! k = CHR ''%''" by (metis append.assoc nth_append)
    with \<open>k < length (body @ ''}'')\<close> have "CHR ''%'' \<in> set (body @ ''}'')" by (metis nth_mem)
    with assms(1) show False by simp
  qed
  have "?F ! 1 = CHR ''{''" using assms(3,4) by (cases body) simp_all
  moreover have "ph2verb (take (?j + 1) ?F) = (verb, arg)" using assms(5) by simp
  ultimately have "parse_round ?st = resume (m @ verb) (if verb = ''%[2]s'' \<and> arg \<noteq> [] then arg else t) f"
    using parse_round_at(5) [OF i, of ?j verb arg] j nx assms(3) by (simp add: resume_def Suc_le_eq)
  then show ?thesis using parse_loop.simps [of ?st] i by simp
qed

lemma placeholder_body:
  "\<forall>ph \<in> set placeholders. ph = CHR ''%'' # butlast (tl ph) @ ''}'' \<and> CHR ''%'' \<notin> set (butlast (tl ph)) \<and>
     CHR ''}'' \<notin> set (butlast (tl ph)) \<and> butlast (tl ph) \<noteq> [] \<and> hd (butlast (tl ph)) = CHR ''{'' \<and> ph2verb ph = (phfs ph, [])"
  by (simp add: placeholders_def ph2verb_def)

lemma parse_piece:
  assumes "good_piece p"
  shows "parse_loop (resume m t (piece_source p @ f)) = parse_loop (resume (m @ piece_verb p) (piece_layout p t) f)"
proof (cases p)
  case (Text s)
  with assms parse_text show ?thesis by simp
next
  case (Field ph)
  define body where "body = butlast (tl ph)"
  have ph: "ph = CHR ''%'' # body @ ''}''" "CHR ''%'' \<notin> set body" "CHR ''}'' \<notin> set body" "body \<noteq> []" "hd body = CHR ''{''"
      "ph2verb ph = (phfs ph, [])"
    using placeholder_body assms Field by (simp_all add: body_def)
  have "piece_source p @ f = CHR ''%'' # body @ ''}'' @ f" using Field ph(1) by simp
  with parse_placeholder [OF ph(2-5), of "phfs ph" "[]" m t f] ph(1,6) Field show ?thesis by simp
next
  case (TimeAs layout)
  have "IndexRune (''%{time:'' @ layout @ ''}'') CHR '':'' = Some 6" by simp
  then have "ph2verb (CHR ''%'' # (''{time:'' @ layout) @ ''}'') = (''%[2]s'', layout)"
    by (simp add: ph2verb_def phfs_def nth_append)
  from parse_placeholder [OF _ _ _ _ this, of m t f] assms TimeAs show ?thesis by simp
qed

lemma parse_template:
  "\<forall>p \<in> set ps. good_piece p \<Longrightarrow>
     parse_loop (resume m t (template ps)) = Some (m @ concat (map piece_verb ps), fold piece_layout ps t)"
proof (induction ps arbitrary: m t)
  case Nil
  then show ?case by (simp add: template_def resume_def parse_loop.simps)
next
  case (Cons p ps)
  have "template (p # ps) = piece_source p @ template ps" by (simp add: template_def)
  with Cons parse_piece [of p m t "template ps"] show ?case by simp
qed

text \<open>What a piece stands for in the message \<open>r\<close> whose level is called \<open>level\<close>.\<close>

definition field_text :: "Info \<Rightarrow> bytes \<Rightarrow> bytes \<Rightarrow> bytes" where
  "field_text r level ph =
     (case map_of [(''%{id}'', dec_nat (unat (info_Id r))), (''%{time}'', info_Time r), (''%{module}'', info_Module r),
                   (''%{filename}'', info_Filename r), (''%{file}'', info_Filename r),
                   (''%{line}'', dec_int (sint (info_Line r))), (''%{level}'', level), (''%{lvl}'', take 3 level),
                   (''%{message}'', info_Message r)] ph of
        None \<Rightarrow> [] | Some s \<Rightarrow> s)"

fun piece_text :: "Info \<Rightarrow> bytes \<Rightarrow> piece \<Rightarrow> bytes" where
  "piece_text r level (Text s) = s"
| "piece_text r level (Field ph) = field_text r level ph"
| "piece_text r level (TimeAs layout) = info_Time r"

fun is_text :: "piece \<Rightarrow> bool" where
  "is_text (Text s) \<longleftrightarrow> True"
| "is_text p \<longleftrightarrow> False"

lemma render_text:
  "CHR ''%'' \<notin> set s \<Longrightarrow> render vs (s @ f) = map_option (\<lambda>(t, named). (s @ t, named)) (render vs f)"
proof (induction s)
  case Nil
  show ?case by (cases "render vs f") simp_all
next
  case (Cons c s)
  then show ?case by (cases "render vs f") auto
qed

lemma render_verb:
  assumes "(v, t) \<in> set (verbs r level)"
  shows "render (verbs r level) (v @ f) = map_option (\<lambda>(t', named). (t @ t', v \<noteq> ''%%'' \<or> named)) (render (verbs r level) f)"
  using assms unfolding verbs_def by (auto simp: has_prefix_def)

lemma field_verb: "\<forall>ph \<in> set placeholders. (phfs ph, field_text r level ph) \<in> set (verbs r level) \<and> phfs ph \<noteq> ''%%''"
  by (simp add: placeholders_def phfs_def field_text_def verbs_def)

lemma render_piece:
  assumes "good_piece p"
  shows "render (verbs r level) (piece_verb p @ f) =
    map_option (\<lambda>(t, named). (piece_text r level p @ t, \<not> is_text p \<or> named)) (render (verbs r level) f)"
proof (cases p)
  case (Text s)
  with assms render_text show ?thesis by simp
next
  case (Field ph)
  with assms field_verb [of r level] have "(phfs ph, field_text r level ph) \<in> set (verbs r level)" "phfs ph \<noteq> ''%%''" by simp_all
  with render_verb [OF this(1), of f] Field show ?thesis by simp
next
  case (TimeAs layout)
  have "(''%[2]s'', info_Time r) \<in> set (verbs r level)" by (simp add: verbs_def)
  from render_verb [OF this, of f] TimeAs show ?thesis by simp
qed

lemma render_template:
  "\<forall>p \<in> set ps. good_piece p \<Longrightarrow>
     render (verbs r level) (concat (map piece_verb ps)) = Some (concat (map (piece_text r level) ps), \<exists>p \<in> set ps. \<not> is_text p)"
proof (induction ps)
  case (Cons p ps)
  then show ?case using render_piece [of p r level "concat (map piece_verb ps)"] by simp
qed simp

lemma Info_Output_template:
  assumes "\<forall>p \<in> set ps. good_piece p" "\<exists>p \<in> set ps. \<not> is_text p" "logLevelString (info_Level r) = Inr level"
    and "LastIndex (concat (map (piece_text r level) ps)) ''%!(EXTRA'' = None"
  shows "Info_Output (concat (map piece_verb ps)) r = Inr (Some (concat (map (piece_text r level) ps)))"
  using assms render_template [OF assms(1), of r level] by (simp add: Info_Output_def Sprintf_def)

lemma parseFormat_template:
  assumes "\<forall>p \<in> set ps. good_piece p" "10 \<le> length (template ps)"
  shows "parseFormat defaults (template ps) = Some (concat (map piece_verb ps), fold piece_layout ps (snd defaults))"
  using assms(2) parse_template [OF assms(1), of "[]" "snd defaults"] by (simp add: parseFormat_def)

lemma template_length: "p \<in> set ps \<Longrightarrow> length (piece_source p) \<le> length (template ps)"
  by (induction ps) (auto simp: template_def)

text \<open>The line a logger writes, colored or not.\<close>

definition log_line :: "LogLevel \<Rightarrow> i64 \<Rightarrow> bytes \<Rightarrow> bytes" where
  "log_line lvl color msg =
     (let s = (if color \<noteq> 0 then colors lvl @ msg @ CHR 0x1B # ''[0m'' else msg)
      in if s = [] \<or> last s \<noteq> CHR 0x0A then s @ [CHR 0x0A] else s)"

text \<open>The message \<open>log_internal\<close> makes of its arguments.\<close>

definition log_info :: "log_env \<Rightarrow> LogLevel \<Rightarrow> bytes \<Rightarrow> u64 \<Rightarrow> Logger \<Rightarrow> Info" where
  "log_info env lvl message k l =
     \<lparr>info_Id = k, info_Time = clock env (w_timeFormat (l_worker l)), info_Module = l_Module l, info_Level = lvl,
      info_Line = caller_line env, info_Filename = path_Base (caller_file env), info_Message = message\<rparr>"

lemma log_filtered:
  assumes "i64_less (w_level (l_worker l)) lvl"
  shows "log_internal env lvl message (k, l) = Some (None, k + 1, l)"
  using assms by (simp add: log_internal_def Worker_Log_def Let_def)

lemma log_written:
  fixes l :: Logger and f :: os_file
  defines "w \<equiv> l_worker l" and "f \<equiv> mn_out (w_Minion (l_worker l))"
  assumes "\<not> i64_less (w_level w) lvl" "Info_Output (w_format w) (log_info env lvl message (k + 1) l) = Inr (Some msg)"
    and "mn_prefix (w_Minion w) = []" "mn_flag (w_Minion w) = 0" "f_room f = None"
  shows "log_internal env lvl message (k, l) =
    Some (None, k + 1, l\<lparr>l_worker := w\<lparr>w_Minion := (w_Minion w)\<lparr>mn_out := f\<lparr>f_bytes := f_bytes f @ log_line lvl (w_Color w) msg\<rparr>\<rparr>\<rparr>\<rparr>)"
  using assms
  by (simp add: log_internal_def Worker_Log_def Let_def log_info_def log_line_def Minion_Output_def file_write_def)

end
