(* ===== verification/Node_Config.thy ===== *)
theory Node_Config
  imports Logger
begin

section \<open>Configuration and utilities (node/node_config.go, utils/util.go)\<close>

text \<open>
  The configuration of a node as the struct of the sources, the checks made when it is read, and
  the small helpers of the package \<^verbatim>\<open>utils\<close>. Reading the file and decoding YAML belong to the
  operating system and to a package outside the repository: the loader takes the decoder as an
  argument. The log level matters only for one default of the configuration.
\<close>

subsection \<open>Utilities\<close>

definition Uint64Min :: "u64 \<Rightarrow> u64 \<Rightarrow> u64" where
  "Uint64Min a b = (if a < b then a else b)"

definition Uint64Max :: "u64 \<Rightarrow> u64 \<Rightarrow> u64" where
  "Uint64Max a b = (if a < b then b else a)"

fun number_loop :: "u32 list \<Rightarrow> u32 \<Rightarrow> bool \<Rightarrow> bool" where
  "number_loop [] num result = result"
| "number_loop (item # rest) num result = number_loop rest num (if num = item then True else result)"

definition NumberInUint32List :: "u32 list \<Rightarrow> u32 \<Rightarrow> bool" where
  "NumberInUint32List lst num = number_loop lst num False"

fun index_loop :: "u32 list \<Rightarrow> u32 \<Rightarrow> nat \<Rightarrow> nat \<Rightarrow> nat" where
  "index_loop [] num i result = result"
| "index_loop (item # rest) num i result = index_loop rest num (Suc i) (if num = item then i else result)"

definition IndexInUint32List :: "u32 list \<Rightarrow> u32 \<Rightarrow> int" where
  "IndexInUint32List lst num =
     (if \<not> NumberInUint32List lst num then - 1 else int (index_loop lst num 0 0))"

text \<open>The random generator is a number given to the function; \<^verbatim>\<open>rand.Intn\<close> takes its remainder.\<close>

definition RandomObjectInStringList :: "nat \<Rightarrow> bytes list \<Rightarrow> bytes" where
  "RandomObjectInStringList r lst = (if length lst = 0 then [] else lst ! (r mod length lst))"

text \<open>Indexing a slice by an \<^verbatim>\<open>int\<close> panics outside its bounds.\<close>

definition slice_index :: "'a list \<Rightarrow> int \<Rightarrow> go_error + 'a" where
  "slice_index xs i =
     (if 0 \<le> i \<and> i < int (length xs) then Inr (xs ! nat i) else Inl (GoPanic IndexOutOfRange))"

lemma NumberInUint32List_iff: "NumberInUint32List xs n \<longleftrightarrow> n \<in> set xs"
proof -
  have "number_loop xs n b \<longleftrightarrow> b \<or> n \<in> set xs" for b
    by (induction xs arbitrary: b) auto
  then show ?thesis by (simp add: NumberInUint32List_def)
qed

lemma takeWhile_neq_shorter: "n \<in> set xs \<Longrightarrow> length (takeWhile (\<lambda>x. x \<noteq> n) xs) < length xs"
  by (induction xs) auto

lemma index_loop_spec:
  "index_loop xs n i r = (if n \<in> set xs then i + (length xs - Suc (length (takeWhile (\<lambda>x. x \<noteq> n) (rev xs)))) else r)"
proof (induction xs arbitrary: i r)
  case (Cons x xs)
  have "length (takeWhile (\<lambda>x. x \<noteq> n) (rev xs)) < length xs" if "n \<in> set xs"
    using that takeWhile_neq_shorter [of n "rev xs"] by simp
  with Cons show ?case
    by (auto simp: takeWhile_append)
qed simp

text \<open>The index found is that of the last occurrence.\<close>

lemma IndexInUint32List_Some:
  assumes "n \<in> set xs"
  shows "\<exists>k < length xs. IndexInUint32List xs n = int k \<and> xs ! k = n \<and> n \<notin> set (drop (Suc k) xs)"
proof -
  let ?t = "length (takeWhile (\<lambda>x. x \<noteq> n) (rev xs))"
  have lt: "?t < length xs"
    using assms takeWhile_neq_shorter [of n "rev xs"] by simp
  let ?k = "length xs - Suc ?t"
  have "rev xs ! ?t = n"
    using lt nth_length_takeWhile [of "\<lambda>x. x \<noteq> n" "rev xs"] by simp
  then have nth: "xs ! ?k = n" using lt by (simp add: rev_nth)
  have "takeWhile (\<lambda>x. x \<noteq> n) (rev xs) = take ?t (rev xs)" by (metis takeWhile_eq_take)
  also have "\<dots> = rev (drop (Suc ?k) xs)" using lt by (simp add: take_rev Suc_diff_Suc)
  finally have "set (drop (Suc ?k) xs) = set (takeWhile (\<lambda>x. x \<noteq> n) (rev xs))" by (metis set_rev)
  then have "n \<notin> set (drop (Suc ?k) xs)" by (auto dest: set_takeWhileD)
  moreover have "IndexInUint32List xs n = int ?k"
    using assms by (simp add: IndexInUint32List_def NumberInUint32List_iff index_loop_spec)
  moreover have "?k < length xs" using lt by simp
  ultimately show ?thesis using nth by blast
qed

lemma IndexInUint32List_None: "n \<notin> set xs \<Longrightarrow> IndexInUint32List xs n = - 1"
  by (simp add: IndexInUint32List_def NumberInUint32List_iff)

subsection \<open>Starting a server\<close>

text \<open>
  The two gRPC servers of a node start in the same way: the address must have exactly one colon, and
  the server listens at the port behind it on all interfaces. The operating system and the gRPC
  library answer with \<open>listen\<close> and \<open>serve\<close>.
\<close>

fun Split :: "bytes \<Rightarrow> char \<Rightarrow> bytes list" where
  "Split [] c = [[]]"
| "Split (x # xs) c = (if x = c then [] # Split xs c else (case Split xs c of [] \<Rightarrow> [[x]] | y # ys \<Rightarrow> (x # y) # ys))"

datatype service_start = AddressRefused | ListenFailed bytes | ServeEnded bytes "go_error option"

definition start_service :: "(bytes \<Rightarrow> bool) \<Rightarrow> (bytes \<Rightarrow> go_error option) \<Rightarrow> bytes \<Rightarrow> service_start" where
  "start_service listen serve address =
     (case Split address CHR '':'' of
        [host, port] \<Rightarrow>
          let local = CHR '':'' # port
          in if listen local then ServeEnded local (serve local) else ListenFailed local
      | _ \<Rightarrow> AddressRefused)"

subsection \<open>The configuration\<close>

record Parameters =
  HeartBeatInterval :: u32
  AppendEntriesTimeout :: u32
  MinWaitTimeCandidate :: u32
  MaxWaitTimeCandidate :: u32
  MaxLogUnitsRecover :: u32
  LogBackupInterval :: u32
  PollingInterval :: u32
  StateChangeTimeout :: u32
  AcquirementExpire :: u32

text \<open>A slice that may be nil is an option; ranging over it and its length see the empty list.\<close>

record NodeConfig =
  SelfId :: u32
  PeerIdSlice :: "u32 list option"
  SelfAddress :: bytes
  SelfCliAddress :: bytes
  PeerAddressSlice :: "bytes list option"
  PeerCliAddressSlice :: "bytes list option"
  Params :: Parameters
  LogPath :: bytes
  LogLevelString :: bytes
  EntryStoragePath :: bytes

definition slice :: "'a list option \<Rightarrow> 'a list" where
  "slice s = (case s of None \<Rightarrow> [] | Some xs \<Rightarrow> xs)"

abbreviation PeerId :: "NodeConfig \<Rightarrow> u32 list" where
  "PeerId c \<equiv> slice (PeerIdSlice c)"

abbreviation PeerAddress :: "NodeConfig \<Rightarrow> bytes list" where
  "PeerAddress c \<equiv> slice (PeerAddressSlice c)"

abbreviation PeerCliAddress :: "NodeConfig \<Rightarrow> bytes list" where
  "PeerCliAddress c \<equiv> slice (PeerCliAddressSlice c)"

text \<open>The fields of the parameter struct, as reflection enumerates them: tag, value, update.\<close>

definition parameter_fields :: "(bytes \<times> (Parameters \<Rightarrow> u32) \<times> (u32 \<Rightarrow> Parameters \<Rightarrow> Parameters)) list" where
  "parameter_fields =
     [(''heart_beat_interval'', HeartBeatInterval, \<lambda>v p. p\<lparr>HeartBeatInterval := v\<rparr>),
      (''append_entries_timeout'', AppendEntriesTimeout, \<lambda>v p. p\<lparr>AppendEntriesTimeout := v\<rparr>),
      (''min_wait_time_candidate'', MinWaitTimeCandidate, \<lambda>v p. p\<lparr>MinWaitTimeCandidate := v\<rparr>),
      (''max_wait_time_candidate'', MaxWaitTimeCandidate, \<lambda>v p. p\<lparr>MaxWaitTimeCandidate := v\<rparr>),
      (''max_log_units_recover'', MaxLogUnitsRecover, \<lambda>v p. p\<lparr>MaxLogUnitsRecover := v\<rparr>),
      (''log_back_up_interval'', LogBackupInterval, \<lambda>v p. p\<lparr>LogBackupInterval := v\<rparr>),
      (''polling_interval'', PollingInterval, \<lambda>v p. p\<lparr>PollingInterval := v\<rparr>),
      (''state_change_timeout'', StateChangeTimeout, \<lambda>v p. p\<lparr>StateChangeTimeout := v\<rparr>),
      (''acquirement_expire'', AcquirementExpire, \<lambda>v p. p\<lparr>AcquirementExpire := v\<rparr>)]"

definition defaultValue :: "(bytes \<times> int) list" where
  "defaultValue =
     [(''heart_beat_interval'', 50), (''append_entries_timeout'', 150),
      (''min_wait_time_candidate'', 150), (''max_wait_time_candidate'', 300),
      (''max_log_units_recover'', 200), (''log_back_up_interval'', 1000),
      (''polling_interval'', 20), (''state_change_timeout'', 2000), (''acquirement_expire'', 500)]"

fun structByReflect ::
  "(bytes \<times> int) list \<Rightarrow> (bytes \<times> (Parameters \<Rightarrow> u32) \<times> (u32 \<Rightarrow> Parameters \<Rightarrow> Parameters)) list \<Rightarrow>
   Parameters \<Rightarrow> go_error option \<times> Parameters" where
  "structByReflect dat [] p = (None, p)"
| "structByReflect dat ((key, get, set') # rest) p =
     (if get p \<noteq> 0 then structByReflect dat rest p
      else case map_of dat key of
             None \<Rightarrow> (Some ConfigFieldNotFoundError, p)
           | Some v \<Rightarrow> structByReflect dat rest (set' (word_of_int v) p))"

definition check_NodeConfig :: "NodeConfig \<Rightarrow> go_error option" where
  "check_NodeConfig nodeConfig =
     (if PeerIdSlice nodeConfig = None \<or> PeerAddressSlice nodeConfig = None \<or>
         PeerCliAddressSlice nodeConfig = None \<or> LogPath nodeConfig = [] \<or>
         EntryStoragePath nodeConfig = [] \<or> SelfCliAddress nodeConfig = [] \<or>
         SelfAddress nodeConfig = []
      then Some NodeConfigNilValueError
      else if length (PeerId nodeConfig) \<noteq> length (PeerAddress nodeConfig) \<or>
              length (PeerId nodeConfig) \<noteq> length (PeerCliAddress nodeConfig)
      then Some NodeConfigPeerNumberError
      else if SelfId nodeConfig = 0 then Some NodeConfigIdZeroError
      else if 0 \<in> set (PeerId nodeConfig) then Some NodeConfigIdZeroError
      else None)"

definition fill_NodeConfig :: "NodeConfig \<Rightarrow> go_error + NodeConfig" where
  "fill_NodeConfig nodeConfig =
     (let nodeConfig1 =
            (if GetLogLevelFromString (LogLevelString nodeConfig) = InfoLevel
             then nodeConfig\<lparr>LogLevelString := ''Info''\<rparr> else nodeConfig)
      in case structByReflect defaultValue parameter_fields (Params nodeConfig1) of
           (Some err2, p) \<Rightarrow> Inl err2
         | (None, p) \<Rightarrow> Inr (nodeConfig1\<lparr>Params := p\<rparr>))"

definition NewNodeConfigFromYaml ::
  "(bytes \<Rightarrow> go_error + NodeConfig option) \<Rightarrow> go_error + bytes \<Rightarrow> go_error + NodeConfig" where
  "NewNodeConfigFromYaml yaml_Unmarshal readFile =
     (case readFile of
        Inl err \<Rightarrow> Inl err
      | Inr fileData \<Rightarrow>
          (case yaml_Unmarshal fileData of
             Inl err \<Rightarrow> Inl err
           | Inr None \<Rightarrow> Inl (GoPanic NilDereference)
           | Inr (Some nodeConfig) \<Rightarrow>
               (case check_NodeConfig nodeConfig of
                  Some err \<Rightarrow> Inl err
                | None \<Rightarrow> fill_NodeConfig nodeConfig)))"

subsection \<open>What the checks guarantee\<close>

definition wf_Config :: "NodeConfig \<Rightarrow> bool" where
  "wf_Config c \<longleftrightarrow>
     SelfId c \<noteq> 0 \<and> 0 \<notin> set (PeerId c) \<and>
     length (PeerAddress c) = length (PeerId c) \<and> length (PeerCliAddress c) = length (PeerId c) \<and>
     (\<forall>(key, get, set') \<in> set parameter_fields. get (Params c) \<noteq> 0)"

definition or_default :: "u32 \<Rightarrow> u32 \<Rightarrow> u32" where
  "or_default v d = (if v \<noteq> 0 then v else d)"

lemma or_default_nonzero: "d \<noteq> 0 \<Longrightarrow> or_default v d \<noteq> 0"
  by (simp add: or_default_def)

lemma structByReflect_step:
  assumes "map_of dat key = Some v" "set' (get p) p = p"
  shows "structByReflect dat ((key, get, set') # rest) p =
    structByReflect dat rest (set' (or_default (get p) (word_of_int v)) p)"
  using assms by (simp add: or_default_def)

text \<open>The defaults fill in exactly the fields left at zero.\<close>

lemma structByReflect_defaults:
  "structByReflect defaultValue parameter_fields p = (None,
     \<lparr>HeartBeatInterval = or_default (HeartBeatInterval p) 50,
      AppendEntriesTimeout = or_default (AppendEntriesTimeout p) 150,
      MinWaitTimeCandidate = or_default (MinWaitTimeCandidate p) 150,
      MaxWaitTimeCandidate = or_default (MaxWaitTimeCandidate p) 300,
      MaxLogUnitsRecover = or_default (MaxLogUnitsRecover p) 200,
      LogBackupInterval = or_default (LogBackupInterval p) 1000,
      PollingInterval = or_default (PollingInterval p) 20,
      StateChangeTimeout = or_default (StateChangeTimeout p) 2000,
      AcquirementExpire = or_default (AcquirementExpire p) 500\<rparr>)"
proof (cases p)
  case (fields hb ae mn mx lu bk pl sc ex)
  then show ?thesis
    by (simp only: parameter_fields_def) (simp add: structByReflect_step defaultValue_def del: structByReflect.simps(2))
qed

lemma structByReflect_filled:
  "\<exists>q. structByReflect defaultValue parameter_fields p = (None, q) \<and>
     (\<forall>(key, get, set') \<in> set parameter_fields. get q \<noteq> 0)"
  unfolding structByReflect_defaults
  by (rule exI, rule conjI, rule refl) (simp add: parameter_fields_def or_default_nonzero)

lemma NewNodeConfigFromYaml_wf:
  assumes "NewNodeConfigFromYaml yaml readFile = Inr c"
  shows "wf_Config c"
proof -
  obtain c0 where c0: "check_NodeConfig c0 = None" "fill_NodeConfig c0 = Inr c"
    using assms by (auto simp: NewNodeConfigFromYaml_def split: sum.splits option.splits)
  define c1 where "c1 = (if GetLogLevelFromString (LogLevelString c0) = InfoLevel
    then c0\<lparr>LogLevelString := ''Info''\<rparr> else c0)"
  obtain q where q: "structByReflect defaultValue parameter_fields (Params c1) = (None, q)"
      "\<forall>(key, get, set') \<in> set parameter_fields. get q \<noteq> 0"
    using structByReflect_filled by blast
  have c: "c = c1\<lparr>Params := q\<rparr>"
    using c0(2) q(1) by (simp add: fill_NodeConfig_def Let_def c1_def [symmetric])
  have "SelfId c1 = SelfId c0" "PeerIdSlice c1 = PeerIdSlice c0"
      "PeerAddressSlice c1 = PeerAddressSlice c0" "PeerCliAddressSlice c1 = PeerCliAddressSlice c0"
    by (simp_all add: c1_def)
  with c0(1) q(2) show ?thesis
    by (simp add: c wf_Config_def check_NodeConfig_def split: if_splits)
qed

end
