(* ===== verification/Node_State.thy ===== *)
theory Node_State
  imports Acquirement Node_Config
begin

section \<open>The state of a node (node/node.go, node/node_context.go, node/peer.go)\<close>

text \<open>
  The struct \<^verbatim>\<open>Node\<close> and the structs it points to, as one record, and the procedures every
  handler shares: the two trigger channels, applying committed entries to the state maps, and
  the backup to the disk; then the start of a node from its configuration and its disk.

  Conventions. A channel of capacity one is the flag whether it holds a token. The mutex is the
  flag whether it is held; a handler that begins with \<^verbatim>\<open>Lock\<close> is modelled from a state where
  it is free. A \<^verbatim>\<open>go\<close> statement adds the new goroutine to the list \<open>goroutines\<close>; what the
  goroutine then does is the function of that name in the following theories. The current time
  is an argument. Log output is left out. The references from peers, servers and the interchange
  back to the node are the node itself, passed as an argument.
\<close>

subsection \<open>Data\<close>

datatype NodeStateTag = Dead | Leader | Candidate | Follower

record NodeContext =
  CurrentTerm :: u64
  CommitIndex :: u64
  LastAppliedIndex :: u64
  LastBackupIndex :: u64
  NodeState :: NodeStateTag
  HopToCurrentLeaderId :: u32
  CommitChan :: bool
  AppendEntryChan :: bool
  StopChan :: bool
  VotedPeer :: u32
  ElectionRestartTime :: i64
  DiskLogEntry :: "os_file option"

record PeerNode =
  pn_PeerId :: u32
  AddressName :: bytes
  NextIndex :: u64
  MatchIndex :: u64

record DlockInterchange =
  LeaderTerm :: u64
  PendingAcquire :: "bytes \<rightharpoonup> DlockVolatileAcquirement"

datatype goroutine =
    NodeServer_StartService
  | RunElectionDetectorModule
  | BackUpLogMemoryToDisk
  | CommitToStateMap
  | CliServer_StartService
  | CandidateVote nat u64
  | ReleaseExpiredDLockPeriodically u64
  | HeartBeat
  | SendAppendEntriesToPeers "u32 list option"
  | AppendEntriesToPeer nat u64

record Node =
  NodeConfigInstance :: NodeConfig
  NodeContextInstance :: NodeContext
  StateMapKVStore :: StateMapMemory
  StateMapDLock :: StateMapMemory
  LogEntryInMemory :: LogMemory
  PeerList :: "PeerNode list"
  DlockInterchangeInstance :: "DlockInterchange option"
  mutex :: bool
  goroutines :: "goroutine list"

definition upd_ctx :: "(NodeContext \<Rightarrow> NodeContext) \<Rightarrow> Node \<Rightarrow> Node" where
  "upd_ctx f n = n\<lparr>NodeContextInstance := f (NodeContextInstance n)\<rparr>"

definition go :: "goroutine \<Rightarrow> Node \<Rightarrow> Node" where
  "go g n = n\<lparr>goroutines := goroutines n @ [g]\<rparr>"

abbreviation node_term :: "Node \<Rightarrow> u64" where
  "node_term n \<equiv> CurrentTerm (NodeContextInstance n)"

abbreviation node_state :: "Node \<Rightarrow> NodeStateTag" where
  "node_state n \<equiv> NodeState (NodeContextInstance n)"

abbreviation node_commit :: "Node \<Rightarrow> u64" where
  "node_commit n \<equiv> CommitIndex (NodeContextInstance n)"

lemma upd_ctx_simps [simp]:
  "NodeContextInstance (upd_ctx f n) = f (NodeContextInstance n)"
  "NodeConfigInstance (upd_ctx f n) = NodeConfigInstance n"
  "StateMapKVStore (upd_ctx f n) = StateMapKVStore n"
  "StateMapDLock (upd_ctx f n) = StateMapDLock n"
  "LogEntryInMemory (upd_ctx f n) = LogEntryInMemory n"
  "PeerList (upd_ctx f n) = PeerList n"
  "DlockInterchangeInstance (upd_ctx f n) = DlockInterchangeInstance n"
  "mutex (upd_ctx f n) = mutex n"
  "goroutines (upd_ctx f n) = goroutines n"
  by (simp_all add: upd_ctx_def)

lemma go_simps [simp]:
  "NodeContextInstance (go g n) = NodeContextInstance n"
  "NodeConfigInstance (go g n) = NodeConfigInstance n"
  "StateMapKVStore (go g n) = StateMapKVStore n"
  "StateMapDLock (go g n) = StateMapDLock n"
  "LogEntryInMemory (go g n) = LogEntryInMemory n"
  "PeerList (go g n) = PeerList n"
  "DlockInterchangeInstance (go g n) = DlockInterchangeInstance n"
  "mutex (go g n) = mutex n"
  "goroutines (go g n) = goroutines n @ [g]"
  by (simp_all add: go_def)

subsection \<open>Channels\<close>

definition TriggerAEChannel :: "NodeContext \<Rightarrow> NodeContext" where
  "TriggerAEChannel nc = (if \<not> AppendEntryChan nc then nc\<lparr>AppendEntryChan := True\<rparr> else nc)"

definition TriggerCommitChannel :: "NodeContext \<Rightarrow> NodeContext" where
  "TriggerCommitChannel nc = (if \<not> CommitChan nc then nc\<lparr>CommitChan := True\<rparr> else nc)"

lemma Trigger_simps [simp]:
  "TriggerAEChannel nc = nc\<lparr>AppendEntryChan := True\<rparr>"
  "TriggerCommitChannel nc = nc\<lparr>CommitChan := True\<rparr>"
  by (simp_all add: TriggerAEChannel_def TriggerCommitChannel_def)

subsection \<open>Applying and saving committed entries\<close>

definition commitProcedure :: "Node \<Rightarrow> Node" where
  "commitProcedure n =
     (let nc = NodeContextInstance n in
      if LastAppliedIndex nc < CommitIndex nc
      then let (err, dl) = UpdateStateFromLogMemory_DLock (StateMapDLock n) (LogEntryInMemory n)
                             (LastAppliedIndex nc + 1) (CommitIndex nc);
               (err2, kv) = UpdateStateFromLogMemory_KVStore (StateMapKVStore n) (LogEntryInMemory n)
                             (LastAppliedIndex nc + 1) (CommitIndex nc)
           in n\<lparr>StateMapDLock := dl, StateMapKVStore := kv,
                NodeContextInstance := nc\<lparr>LastAppliedIndex := CommitIndex nc\<rparr>\<rparr>
      else n)"

text \<open>The goroutine that waits for a token of the commit channel: one round.\<close>

definition CommitToStateMap_round :: "Node \<Rightarrow> Node" where
  "CommitToStateMap_round n =
     (if CommitChan (NodeContextInstance n)
      then commitProcedure (upd_ctx (\<lambda>nc. nc\<lparr>CommitChan := False\<rparr>) n)
      else n)"

definition backupProcedure :: "pb \<Rightarrow> Node \<Rightarrow> Node" where
  "backupProcedure pb n =
     (let nc = NodeContextInstance n in
      case DiskLogEntry nc of
        None \<Rightarrow> n
      | Some disk \<Rightarrow>
          if LastBackupIndex nc < CommitIndex nc
          then (case StoreLogMemory pb (LogEntryInMemory n) (LastBackupIndex nc + 1) (CommitIndex nc) disk of
                  (Inl err, disk') \<Rightarrow> upd_ctx (\<lambda>nc. nc\<lparr>DiskLogEntry := Some disk'\<rparr>) n
                | (Inr writeBytes, disk') \<Rightarrow>
                    upd_ctx (\<lambda>nc. nc\<lparr>DiskLogEntry := Some disk', LastBackupIndex := CommitIndex nc\<rparr>) n)
          else n)"

subsection \<open>Starting a node\<close>

definition NewNodeContext ::
  "u64 \<Rightarrow> u64 \<Rightarrow> u64 \<Rightarrow> u64 \<Rightarrow> NodeStateTag \<Rightarrow> u32 \<Rightarrow> bool \<Rightarrow> bool \<Rightarrow> bool \<Rightarrow> u32 \<Rightarrow> i64 \<Rightarrow> os_file option \<Rightarrow> NodeContext" where
  "NewNodeContext currentTerm commitIndex lastAppliedIndex lastBackupIndex nodeState hop commitChan
     appendEntryChan stopChan votedPeer electionRestartTime diskLogEntry =
     \<lparr>CurrentTerm = currentTerm, CommitIndex = commitIndex, LastAppliedIndex = lastAppliedIndex,
      LastBackupIndex = lastBackupIndex, NodeState = nodeState, HopToCurrentLeaderId = hop,
      CommitChan = commitChan, AppendEntryChan = appendEntryChan, StopChan = stopChan,
      VotedPeer = votedPeer, ElectionRestartTime = electionRestartTime, DiskLogEntry = diskLogEntry\<rparr>"

text \<open>The file opened at the storage path, or the error of the operating system, is an argument.\<close>

definition NewStartNodeContext :: "go_error + os_file \<Rightarrow> i64 \<Rightarrow> go_error + NodeContext" where
  "NewStartNodeContext openFile now =
     (case openFile of
        Inl err \<Rightarrow> Inl err
      | Inr fileData \<Rightarrow>
          Inr (NewNodeContext 1 0 0 0 Dead 0 False False False 0 now (Some fileData)))"

definition NewPeerNode :: "u32 \<Rightarrow> bytes \<Rightarrow> u64 \<Rightarrow> u64 \<Rightarrow> PeerNode" where
  "NewPeerNode peerId addressName nextIndex matchIndex =
     \<lparr>pn_PeerId = peerId, AddressName = addressName, NextIndex = nextIndex, MatchIndex = matchIndex\<rparr>"

definition NewPeerNodeListFromConfig :: "NodeConfig option \<Rightarrow> go_error + PeerNode list" where
  "NewPeerNodeListFromConfig config =
     (case config of
        None \<Rightarrow> Inl ConfigEmptyError
      | Some c \<Rightarrow>
          let idList = PeerId c; addressList = PeerAddress c
          in if length addressList = 0 \<or> length idList = 0 \<or> length addressList \<noteq> length idList
             then Inl ConfigPeerListError
             else Inr (map (\<lambda>i. NewPeerNode (idList ! i) (addressList ! i) 0 0) [0..<length addressList]))"

text \<open>The context of a node whose log was reloaded from the disk.\<close>

definition recover_context :: "LogMemory \<Rightarrow> NodeContext \<Rightarrow> go_error + NodeContext" where
  "recover_context logMemory nc0 =
     (let nc = nc0\<lparr>LastBackupIndex := MaximumIndex logMemory, CommitIndex := MaximumIndex logMemory,
                   LastAppliedIndex := MaximumIndex logMemory\<rparr>
      in if MaximumIndex logMemory \<noteq> 0
         then case FetchLogEntry logMemory (MaximumIndex logMemory) of
                Inl err \<Rightarrow> Inl RecoverLogMemoryError
              | Inr lastEntry \<Rightarrow> Inr (nc\<lparr>CurrentTerm := le_Term lastEntry\<rparr>)
         else Inr nc)"

definition recover_maps :: "LogMemory \<Rightarrow> go_error + StateMapMemory \<times> StateMapMemory" where
  "recover_maps logMemory =
     (case (NewStateMapMemoryDLock ''DLock'', NewStateMapMemoryKVStore ''KVStore'') of
        (Inr stateMapDLock, Inr stateMapKVStore) \<Rightarrow>
          if 1 \<le> MaximumIndex logMemory
          then let (err8, dl) = UpdateStateFromLogMemory_DLock stateMapDLock logMemory 1 (MaximumIndex logMemory);
                   (err9, kv) = UpdateStateFromLogMemory_KVStore stateMapKVStore logMemory 1 (MaximumIndex logMemory)
               in if err8 \<noteq> None \<or> err9 \<noteq> None then Inl InitStateMapError else Inr (dl, kv)
          else Inr (stateMapDLock, stateMapKVStore)
      | _ \<Rightarrow> Inl InitStateMapError)"

text \<open>
  The configuration read, the log file of the node's own messages opened, and the disk file
  opened are arguments. Constructing the logger and the two servers cannot fail.
\<close>

definition NewNode ::
  "pb \<Rightarrow> go_error + NodeConfig \<Rightarrow> go_error option \<Rightarrow> go_error + os_file \<Rightarrow> i64 \<Rightarrow> go_error + Node" where
  "NewNode pb readConfig openLog openDisk now =
     (case readConfig of
        Inl err \<Rightarrow> Inl (replace_error ReadConfigYamlError err)
      | Inr nodeConfigInstance \<Rightarrow>
        (case openLog of Some err2 \<Rightarrow> Inl err2 | None \<Rightarrow>
        (case NewStartNodeContext openDisk now of
          Inl err4 \<Rightarrow> Inl InitContextError
        | Inr nc \<Rightarrow>
          (case LogReload pb NewLogMemory (case DiskLogEntry nc of None \<Rightarrow> [] | Some f \<Rightarrow> f_bytes f) 0 of
            (Inl err5, lm) \<Rightarrow> Inl (replace_error RecoverLogMemoryError err5)
          | (Inr readBytes, logMemory) \<Rightarrow>
            (case recover_context logMemory nc of
              Inl err \<Rightarrow> Inl err
            | Inr nodeContextInstance \<Rightarrow>
              (case recover_maps logMemory of
                Inl err \<Rightarrow> Inl err
              | Inr (stateMapDLock, stateMapKVStore) \<Rightarrow>
                (case NewPeerNodeListFromConfig (Some nodeConfigInstance) of
                  Inl err10 \<Rightarrow> Inl InitPeerListError
                | Inr peerList \<Rightarrow>
                  Inr \<lparr>NodeConfigInstance = nodeConfigInstance, NodeContextInstance = nodeContextInstance,
                       StateMapKVStore = stateMapKVStore, StateMapDLock = stateMapDLock,
                       LogEntryInMemory = logMemory, PeerList = peerList,
                       DlockInterchangeInstance = None, mutex = False, goroutines = []\<rparr>)))))))"

definition InitRaftConsensusModule :: "Node \<Rightarrow> Node" where
  "InitRaftConsensusModule n =
     (let n1 = (if node_state n = Dead then upd_ctx (\<lambda>nc. nc\<lparr>NodeState := Follower\<rparr>) n else n)
      in go CliServer_StartService (go CommitToStateMap (go BackUpLogMemoryToDisk
           (go RunElectionDetectorModule (go NodeServer_StartService n1)))))"

text \<open>A tick of the backup goroutine.\<close>

definition BackUpLogMemoryToDisk_tick :: "pb \<Rightarrow> Node \<Rightarrow> Node" where
  "BackUpLogMemoryToDisk_tick pb n = (backupProcedure pb (n\<lparr>mutex := True\<rparr>))\<lparr>mutex := False\<rparr>"

text \<open>
  The main program up to the point where it waits for the stop signal. A node that could not be made
  is reported, and the program goes on with a nil pointer.
\<close>

definition main_start :: "go_error + Node \<Rightarrow> go_error + Node" where
  "main_start created =
     (case created of
        Inl err \<Rightarrow> Inl (GoPanic NilDereference)
      | Inr nodeInstance \<Rightarrow> Inr (InitRaftConsensusModule nodeInstance))"

text \<open>The listeners of the two servers, at the addresses of the configuration.\<close>

definition P2P_StartService :: "(bytes \<Rightarrow> bool) \<Rightarrow> (bytes \<Rightarrow> go_error option) \<Rightarrow> Node \<Rightarrow> service_start" where
  "P2P_StartService listen serve n = start_service listen serve (SelfAddress (NodeConfigInstance n))"

definition CliSrv_StartService :: "(bytes \<Rightarrow> bool) \<Rightarrow> (bytes \<Rightarrow> go_error option) \<Rightarrow> Node \<Rightarrow> service_start" where
  "CliSrv_StartService listen serve n = start_service listen serve (SelfCliAddress (NodeConfigInstance n))"

text \<open>
  The random number is an argument; \<^verbatim>\<open>rand.Intn\<close> panics unless its bound is positive. The
  difference is taken in 32 bits.
\<close>

definition RandomElectionTimeout :: "nat \<Rightarrow> NodeConfig \<Rightarrow> go_error + i64" where
  "RandomElectionTimeout r c =
     (let minWait = MinWaitTimeCandidate (Params c); maxWait = MaxWaitTimeCandidate (Params c);
          bound = unat (maxWait - minWait)
      in if bound = 0 then Inl (GoPanic InvalidIntn)
         else Inr (word_of_int ((uint minWait + int (r mod bound)) * 1000000)))"

subsection \<open>The invariant of the storage part\<close>

definition wf_Node :: "Node \<Rightarrow> bool" where
  "wf_Node n \<longleftrightarrow>
     wf_LogMemory (LogEntryInMemory n) \<and> contiguous (LogEntryInMemory n) \<and> wf_LockMap (StateMapDLock n) \<and>
     LastAppliedIndex (NodeContextInstance n) \<le> node_commit n \<and>
     node_commit n \<le> maximumIndex (LogEntryInMemory n)"

lemma wf_NodeD:
  assumes "wf_Node n"
  shows "wf_LogMemory (LogEntryInMemory n)" "contiguous (LogEntryInMemory n)" "wf_LockMap (StateMapDLock n)"
    "LastAppliedIndex (NodeContextInstance n) \<le> node_commit n"
    "node_commit n \<le> maximumIndex (LogEntryInMemory n)"
  using assms by (simp_all add: wf_Node_def)

text \<open>Changes of the context that leave the two indexes alone, and goroutines, do not matter.\<close>

lemma wf_Node_upd_ctx [wf_intros]:
  assumes "wf_Node n"
    and "LastAppliedIndex (f (NodeContextInstance n)) = LastAppliedIndex (NodeContextInstance n)"
    and "CommitIndex (f (NodeContextInstance n)) = node_commit n"
  shows "wf_Node (upd_ctx f n)"
  using assms by (simp add: wf_Node_def)

lemma wf_Node_go [wf_intros]: "wf_Node n \<Longrightarrow> wf_Node (go g n)"
  by (simp add: wf_Node_def)

lemma commitProcedure_fields [simp]:
  "LogEntryInMemory (commitProcedure n) = LogEntryInMemory n"
  "NodeConfigInstance (commitProcedure n) = NodeConfigInstance n"
  "PeerList (commitProcedure n) = PeerList n"
  "DlockInterchangeInstance (commitProcedure n) = DlockInterchangeInstance n"
  "mutex (commitProcedure n) = mutex n"
  "goroutines (commitProcedure n) = goroutines n"
  "NodeContextInstance (commitProcedure n) = (NodeContextInstance n)
     \<lparr>LastAppliedIndex := (if LastAppliedIndex (NodeContextInstance n) < node_commit n
                            then node_commit n else LastAppliedIndex (NodeContextInstance n))\<rparr>"
  by (simp_all add: commitProcedure_def Let_def split: prod.split)

lemma commitProcedure_DLock:
  "StateMapDLock (commitProcedure n) =
     (if LastAppliedIndex (NodeContextInstance n) < node_commit n
      then snd (UpdateStateFromLogMemory_DLock (StateMapDLock n) (LogEntryInMemory n)
                  (LastAppliedIndex (NodeContextInstance n) + 1) (node_commit n))
      else StateMapDLock n)"
  by (simp add: commitProcedure_def Let_def split: prod.split)

text \<open>Replaying well-formed entries keeps the lock map well-formed, whatever the outcome.\<close>

lemma UpdateStateFromLogEntry_DLock_wf_map:
  assumes "wf_LockMap sm" "UpdateStateFromLogEntry_DLock sm (Some e) = (r, sm')"
  shows "wf_LockMap sm'"
  using assms
  by (auto simp: UpdateStateFromLogEntry_DLock_def apply_LockInfo_def
      split: if_splits option.splits CommandOperator.splits sum.splits
      dest: GetAsDLockInfo_valid intro: write_LockInfo_abs)
     (auto simp: advance_def wf_LockMap_def)

lemma UpdateStateFromLogMemory_DLock_wf_map:
  assumes "wf_LockMap sm" "UpdateStateFromLogMemory_DLock sm lm i j = (r, sm')"
  shows "wf_LockMap sm'"
proof (cases "range_refused sm lm i j")
  case False
  with assms(2) have "update_loop UpdateStateFromLogEntry_DLock tolerated_DLock lm i j sm = (r, sm')"
    by (simp add: UpdateStateFromLogMemory_DLock_def)
  from update_loop_invariant [where P = wf_LockMap, OF _ assms(1) this] show ?thesis
    using UpdateStateFromLogEntry_DLock_wf_map by blast
qed (use assms in \<open>simp add: UpdateStateFromLogMemory_DLock_def\<close>)

lemma wf_commitProcedure [wf_intros]:
  assumes "wf_Node n"
  shows "wf_Node (commitProcedure n)"
proof -
  have "wf_LockMap (StateMapDLock (commitProcedure n))"
    using wf_NodeD(3) [OF assms] UpdateStateFromLogMemory_DLock_wf_map
    by (auto simp: commitProcedure_DLock) (metis prod.collapse)
  with assms show ?thesis by (simp add: wf_Node_def)
qed

subsection \<open>A map that fell behind stays behind\<close>

text \<open>
  After a failed update the position of the map lies before \<^verbatim>\<open>LastAppliedIndex\<close>, which is moved
  nevertheless. Every later update then starts at the wrong position.
\<close>

definition lock_map_behind :: "Node \<Rightarrow> bool" where
  "lock_map_behind n \<longleftrightarrow> prevIndex (StateMapDLock n) < LastAppliedIndex (NodeContextInstance n)"

lemma behind_commitProcedure:
  assumes "lock_map_behind n"
  shows "StateMapDLock (commitProcedure n) = StateMapDLock n" "lock_map_behind (commitProcedure n)"
proof -
  let ?la = "LastAppliedIndex (NodeContextInstance n)"
  have "?la + 1 \<noteq> prevIndex (StateMapDLock n) + 1"
    using assms by (simp add: lock_map_behind_def)
  then show st: "StateMapDLock (commitProcedure n) = StateMapDLock n"
    by (simp add: commitProcedure_DLock UpdateStateFromLogMemory_DLock_def range_refused_def)
  with assms show "lock_map_behind (commitProcedure n)"
    by (auto simp: lock_map_behind_def)
qed

subsection \<open>The disk\<close>

definition prefix_log :: "LogMemory \<Rightarrow> u64 \<Rightarrow> LogMemory" where
  "prefix_log lm k = \<lparr>logInMemory = (logInMemory lm) |` {1..k}, maximumIndex = k\<rparr>"

definition log_upto :: "LogMemory \<Rightarrow> u64 \<Rightarrow> LogEntry list" where
  "log_upto lm k = log_range lm 1 k"

text \<open>The disk holds the frames of the entries up to the backup index, in order.\<close>

definition disk_ok :: "pb \<Rightarrow> Node \<Rightarrow> bool" where
  "disk_ok pb n \<longleftrightarrow>
     (case DiskLogEntry (NodeContextInstance n) of
        None \<Rightarrow> False
      | Some f \<Rightarrow> f_room f = None \<and>
          f_bytes f = concat (map (entry_frame pb) (log_upto (LogEntryInMemory n) (LastBackupIndex (NodeContextInstance n)))))"

lemma log_range_append:
  assumes "k < m" "i \<le> k + 1"
  shows "log_range lm i m = log_range lm i k @ log_range lm (k + 1) m"
proof -
  have "[unat i..<Suc (unat m)] = [unat i..<Suc (unat k)] @ [Suc (unat k)..<Suc (unat m)]"
  proof -
    have "unat i \<le> Suc (unat k)" "Suc (unat k) \<le> Suc (unat m)"
      using assms unat_Suc_no_wrap [OF assms(1)] by (simp_all add: word_le_nat_alt word_less_nat_alt)
    then show ?thesis by (metis le_add_diff_inverse upt_add_eq_append)
  qed
  then show ?thesis by (simp add: log_range_def unat_Suc_no_wrap [OF assms(1)] del: upt_Suc)
qed

lemma wf_prefix_log:
  assumes "wf_LogMemory lm" "contiguous lm" "k \<le> maximumIndex lm"
  shows "wf_LogMemory (prefix_log lm k)" "contiguous (prefix_log lm k)"
  using assms contiguous_lookup [OF assms(2)]
  by (auto simp: wf_LogMemory_def contiguous_def prefix_log_def restrict_map_def split: if_splits)

lemma log_range_prefix:
  assumes "k \<le> maximumIndex lm"
  shows "log_range (prefix_log lm k) 1 k = log_range lm 1 k"
  unfolding log_range_def
proof (rule map_cong [OF refl])
  fix j assume "j \<in> set [unat (1 :: u64)..<Suc (unat k)]"
  then have j: "1 \<le> j" "j \<le> unat k" by auto
  have "unat (of_nat j :: u64) = j"
    using j(2) unsigned_less [of k, where ?'a = nat] by (simp add: unat_of_nat)
  with j have "(of_nat j :: u64) \<in> {1..k}" by (simp add: word_le_nat_alt)
  then show "the (logInMemory (prefix_log lm k) (of_nat j)) = the (logInMemory lm (of_nat j))"
    by (simp add: prefix_log_def)
qed

lemma log_range_member_prefix:
  assumes "wf_LogMemory lm" "contiguous lm" "k \<le> maximumIndex lm" "e \<in> set (log_range lm 1 k)"
  shows "\<exists>i. logInMemory lm i = Some e"
proof -
  have "logInMemory (prefix_log lm k) (le_Index e) = Some e"
    using log_range_member [OF wf_prefix_log [OF assms(1-3)], of e] assms(4) log_range_prefix [OF assms(3)]
    by (simp add: prefix_log_def)
  then show ?thesis by (auto simp: prefix_log_def restrict_map_def split: if_splits)
qed

lemma backupProcedure_disk_ok:
  assumes wf: "wf_Node n" "disk_ok pb n" "LastBackupIndex (NodeContextInstance n) \<le> node_commit n"
    and pb: "\<forall>i e. logInMemory (LogEntryInMemory n) i = Some e \<longrightarrow> pb_roundtrip pb (le_Entry e)"
  shows "disk_ok pb (backupProcedure pb n) \<and>
    LastBackupIndex (NodeContextInstance (backupProcedure pb n)) = node_commit n"
proof (cases "LastBackupIndex (NodeContextInstance n) < node_commit n")
  case True
  let ?lb = "LastBackupIndex (NodeContextInstance n)" and ?ci = "node_commit n" and ?lm = "LogEntryInMemory n"
  obtain f where f: "DiskLogEntry (NodeContextInstance n) = Some f" "f_room f = None"
      "f_bytes f = concat (map (entry_frame pb) (log_upto ?lm ?lb))"
    using wf(2) by (auto simp: disk_ok_def split: option.splits)
  have i: "1 \<le> ?lb + 1" "?lb + 1 \<le> ?ci" "?ci \<le> maximumIndex ?lm" "?ci \<noteq> 0"
    using word_less_succ [OF True] word_succ_le [OF True] wf_NodeD(5) [OF wf(1)] True
    by (auto simp: word_ge_1)
  have app: "log_range ?lm 1 ?ci = log_range ?lm 1 ?lb @ log_range ?lm (?lb + 1) ?ci"
    by (rule log_range_append [OF True i(1)])
  have "\<forall>e \<in> set (log_range ?lm (?lb + 1) ?ci). pb_roundtrip pb (le_Entry e)"
    using log_range_member_prefix [OF wf_NodeD(1,2) [OF wf(1)] i(3)] pb app by fastforce
  then obtain m where m: "store_loop pb ?lm (?lb + 1) ?ci 0 f =
      (Inr m, f\<lparr>f_bytes := f_bytes f @ concat (map (entry_frame pb) (log_range ?lm (?lb + 1) ?ci))\<rparr>)"
    using store_loop_frames [OF wf_NodeD(2) [OF wf(1)] i(1-3) f(2)] by blast
  have "StoreLogMemory pb ?lm (?lb + 1) ?ci f = store_loop pb ?lm (?lb + 1) ?ci 0 f"
    using i by (auto simp: StoreLogMemory_def word_ge_1 not_less intro: order.trans)
  with m f True app show ?thesis
    by (auto simp: backupProcedure_def Let_def disk_ok_def log_upto_def)
next
  case False
  with wf show ?thesis by (auto simp: backupProcedure_def Let_def split: option.split)
qed

lemma LogReload_disk:
  assumes "wf_Node n" "disk_ok pb n" "DiskLogEntry (NodeContextInstance n) = Some f"
    and "LastBackupIndex (NodeContextInstance n) \<le> node_commit n"
    and pb: "\<forall>i e. logInMemory (LogEntryInMemory n) i = Some e \<longrightarrow> pb_roundtrip pb (le_Entry e)"
  shows "\<exists>m. LogReload pb NewLogMemory (f_bytes f) 0 =
    (Inr m, prefix_log (LogEntryInMemory n) (LastBackupIndex (NodeContextInstance n)))"
proof -
  let ?k = "LastBackupIndex (NodeContextInstance n)" and ?lm = "LogEntryInMemory n"
  have k: "?k \<le> maximumIndex ?lm" using assms(4) wf_NodeD(5) [OF assms(1)] by (rule order.trans)
  note wf = wf_NodeD(1,2) [OF assms(1)]
  note wfp = wf_prefix_log [OF wf k]
  have "\<forall>e \<in> set (log_range ?lm 1 ?k). pb_roundtrip pb (le_Entry e) \<and> wf_LogEntry e"
    using log_range_member_prefix [OF wf k] pb wf_LogMemoryD [OF wf(1)] by blast
  from LogReload_frames [OF this, of NewLogMemory 0] obtain m
    where "LogReload pb NewLogMemory (f_bytes f) 0 = (Inr m, foldl put_entry NewLogMemory (log_range ?lm 1 ?k))"
    using assms(2,3) by (auto simp: disk_ok_def log_upto_def)
  moreover have "foldl put_entry NewLogMemory (log_range ?lm 1 ?k) = prefix_log ?lm ?k"
    using rebuild_log [OF wfp] log_range_prefix [OF k] by (simp add: prefix_log_def)
  ultimately show ?thesis by auto
qed

lemma FetchLogEntry_prefix:
  assumes "1 \<le> i" "i \<le> k" "k \<le> maximumIndex lm"
  shows "FetchLogEntry (prefix_log lm k) i = FetchLogEntry lm i"
  using assms by (auto simp: FetchLogEntry_def prefix_log_def)

text \<open>Replaying the prefix gives what replaying the log up to the same index gives.\<close>

lemma replay_prefix:
  assumes "1 \<le> k" "k \<le> maximumIndex lm" "prevIndex sm = 0"
  shows "UpdateStateFromLogMemory_DLock sm (prefix_log lm k) 1 k = UpdateStateFromLogMemory_DLock sm lm 1 k"
    "UpdateStateFromLogMemory_KVStore sm (prefix_log lm k) 1 k = UpdateStateFromLogMemory_KVStore sm lm 1 k"
proof -
  have "\<not> range_refused sm lm 1 k" "\<not> range_refused sm (prefix_log lm k) 1 k"
    using assms by (auto simp: range_refused_def prefix_log_def)
  moreover have "update_loop ap tol (prefix_log lm k) 1 k sm = update_loop ap tol lm 1 k sm" for ap tol
    by (rule loop_cong) (use assms FetchLogEntry_prefix in auto)
  ultimately show "UpdateStateFromLogMemory_DLock sm (prefix_log lm k) 1 k = UpdateStateFromLogMemory_DLock sm lm 1 k"
    "UpdateStateFromLogMemory_KVStore sm (prefix_log lm k) 1 k = UpdateStateFromLogMemory_KVStore sm lm 1 k"
    by (simp_all add: UpdateStateFromLogMemory_DLock_def UpdateStateFromLogMemory_KVStore_def)
qed

lemma NewNode_restart:
  assumes n: "wf_Node n" "disk_ok pb n" "DiskLogEntry (NodeContextInstance n) = Some f"
      "LastBackupIndex (NodeContextInstance n) = k" "k = node_commit n" "1 \<le> k"
    and pb: "\<forall>i e. logInMemory (LogEntryInMemory n) i = Some e \<longrightarrow> pb_roundtrip pb (le_Entry e)"
    and maps: "NewStateMapMemoryDLock ''DLock'' = Inr dl0"
      "UpdateStateFromLogMemory_DLock dl0 (LogEntryInMemory n) 1 k = (None, StateMapDLock n)"
      "NewStateMapMemoryKVStore ''KVStore'' = Inr kv0"
      "UpdateStateFromLogMemory_KVStore kv0 (LogEntryInMemory n) 1 k = (None, StateMapKVStore n)"
    and peers: "wf_Config c" "PeerId c \<noteq> []"
  shows "\<exists>n'. NewNode pb (Inr c) None (Inr f) now = Inr n' \<and>
    LogEntryInMemory n' = prefix_log (LogEntryInMemory n) k \<and>
    StateMapDLock n' = StateMapDLock n \<and> StateMapKVStore n' = StateMapKVStore n \<and>
    node_commit n' = k \<and> LastAppliedIndex (NodeContextInstance n') = k \<and>
    LastBackupIndex (NodeContextInstance n') = k \<and> disk_ok pb n' \<and>
    VotedPeer (NodeContextInstance n') = 0 \<and>
    (\<exists>e. logInMemory (LogEntryInMemory n) k = Some e \<and> node_term n' = le_Term e)"
proof -
  let ?lm = "LogEntryInMemory n"
  have k: "k \<le> maximumIndex ?lm" using n(5) wf_NodeD(5) [OF n(1)] by simp
  obtain m where reload: "LogReload pb NewLogMemory (f_bytes f) 0 = (Inr m, prefix_log ?lm k)"
    using LogReload_disk [OF n(1-3) _ pb] n(4,5) by auto
  obtain e where e: "logInMemory ?lm k = Some e"
    using contiguous_lookup [OF wf_NodeD(2) [OF n(1)] n(6) k] by blast
  have fetch: "FetchLogEntry (prefix_log ?lm k) k = Inr e"
    using e n(6) k by (simp add: FetchLogEntry_prefix) (simp add: FetchLogEntry_def)
  have k0: "k \<noteq> 0" using n(6) by (simp add: word_ge_1)
  let ?nc = "NewNodeContext 1 0 0 0 Dead 0 False False False 0 now (Some f)"
  have ctx: "recover_context (prefix_log ?lm k) ?nc = Inr (?nc\<lparr>LastBackupIndex := k, CommitIndex := k,
      LastAppliedIndex := k, CurrentTerm := le_Term e\<rparr>)"
    using fetch k0 by (simp add: recover_context_def MaximumIndex_def prefix_log_def NewNodeContext_def)
  have new: "prevIndex dl0 = 0" "prevIndex kv0 = 0"
    using maps(1,3) by (auto simp: NewStateMapMemoryDLock_def NewStateMapMemoryKVStore_def split: if_splits)
  have mp: "recover_maps (prefix_log ?lm k) = Inr (StateMapDLock n, StateMapKVStore n)"
    using maps(1,3) replay_prefix(1) [OF n(6) k new(1)] replay_prefix(2) [OF n(6) k new(2)] maps(2,4) n(6)
    by (simp add: recover_maps_def MaximumIndex_def prefix_log_def)
  obtain ps where ps: "NewPeerNodeListFromConfig (Some c) = Inr ps"
    using peers by (fastforce simp: NewPeerNodeListFromConfig_def wf_Config_def Let_def)
  define n' where "n' = \<lparr>NodeConfigInstance = c, NodeContextInstance = ?nc\<lparr>LastBackupIndex := k, CommitIndex := k,
      LastAppliedIndex := k, CurrentTerm := le_Term e\<rparr>, StateMapKVStore = StateMapKVStore n,
      StateMapDLock = StateMapDLock n, LogEntryInMemory = prefix_log ?lm k, PeerList = ps,
      DlockInterchangeInstance = None, mutex = False, goroutines = []\<rparr>"
  have "NewNode pb (Inr c) None (Inr f) now = Inr n'"
    unfolding NewNode_def NewStartNodeContext_def
    using reload ctx mp ps by (simp add: n'_def) (simp add: NewNodeContext_def)
  moreover have "disk_ok pb n'"
    using n(2-4) log_range_prefix [OF k] by (simp add: disk_ok_def n'_def NewNodeContext_def log_upto_def)
  ultimately show ?thesis
    using e by (auto simp: n'_def NewNodeContext_def)
qed

end
