(* ===== verification/Interchange.thy ===== *)
theory Interchange
  imports Node_State
begin

section \<open>The lock interchange of a leader (node/dlock_interchange.go)\<close>

text \<open>
  While a node leads, it decides here which lock requests become log entries. Every operation
  runs under the mutex of the node, gets the node and the interchange and returns both. The map
  of pending requests holds pointers; the model writes the changed value back under its name.
  The order in which Go iterates over the lock map is an argument of the scan: any enumeration of
  the names. A command handed to an operation is not used by its caller afterwards.

  The theorems show what an operation may add to the log: one entry, at the next index and in the
  current term, for the lock it was asked about, with the nonce after the last one appended,
  and only if the committed lease has run out (or its owner releases it).
\<close>

subsection \<open>Construction and the scan for expired locks\<close>

definition NewDlockInterchange :: "Node \<Rightarrow> DlockInterchange" where
  "NewDlockInterchange n = \<lparr>LeaderTerm = node_term n, PendingAcquire = Map.empty\<rparr>"

definition put_acq :: "bytes \<Rightarrow> DlockVolatileAcquirement \<Rightarrow> DlockInterchange \<Rightarrow> DlockInterchange" where
  "put_acq name a di = di\<lparr>PendingAcquire := (PendingAcquire di)(name \<mapsto> a)\<rparr>"

definition constructLogEntryByItems ::
  "u32 \<Rightarrow> bytes \<Rightarrow> bytes \<Rightarrow> i64 \<Rightarrow> i64 \<Rightarrow> u64 \<Rightarrow> u64 \<Rightarrow> go_error + LogEntry" where
  "constructLogEntryByItems lockNonce lockName newOwner timestamp expire currentTerm entryIndex =
     NewLogEntry currentTerm entryIndex
       (CommandDLock (NewCommandDLock lockNonce lockName newOwner timestamp expire))"

fun scan_loop ::
  "i64 \<Rightarrow> Node \<Rightarrow> bytes list \<Rightarrow> DlockInterchange \<Rightarrow> LogEntry list \<Rightarrow> (go_error + LogEntry list) \<times> DlockInterchange" where
  "scan_loop timestamp n [] di logEntries = (Inr logEntries, di)"
| "scan_loop timestamp n (lockName # rest) di logEntries =
     (case QuerySpecificState_DLock (StateMapDLock n) lockName of
        Inl err \<Rightarrow> (Inl err, di)
      | Inr lockState \<Rightarrow>
          let name = ds_LockName lockState;
              pendingAcq = (case PendingAcquire di name of
                              None \<Rightarrow> NewDlockVolatileAcquirement name (ds_LockNonce lockState)
                            | Some a \<Rightarrow> a)
          in case AbandonExpiredAcquirement pendingAcq timestamp of
               (Some err, a) \<Rightarrow> (Inl err, put_acq name a di)
             | (None, a) \<Rightarrow>
                 let di' = put_acq name a di
                 in if ds_LockNonce lockState < LastAppendedNonce a
                    then scan_loop timestamp n rest di' logEntries
                    else if i64_less (ds_Timestamp lockState + ds_Expire lockState) timestamp \<and> ds_Owner lockState \<noteq> []
                    then (case constructLogEntryByItems (ds_LockNonce lockState + 1) name [] timestamp 0
                                 (node_term n) (MaximumIndex (LogEntryInMemory n) + of_nat (length logEntries) + 1) of
                            Inl err \<Rightarrow> (Inl err, di')
                          | Inr e \<Rightarrow> scan_loop timestamp n rest di' (logEntries @ [e]))
                    else scan_loop timestamp n rest di' logEntries)"

fun bump_loop :: "LogEntry list \<Rightarrow> DlockInterchange \<Rightarrow> go_error option \<times> DlockInterchange" where
  "bump_loop [] di = (None, di)"
| "bump_loop (logEntry # rest) di =
     (case NewCommandFromRaw ''DLock'' (e_CommandContent (le_Entry logEntry)) of
        Some (CommandDLock currentCommand) \<Rightarrow>
          (case GetAsDLockInfo currentCommand of
             Inl err \<Rightarrow> (Some err, di)
           | Inr info \<Rightarrow>
               (case PendingAcquire di (li_LockName info) of
                  None \<Rightarrow> (Some (GoPanic NilDereference), di)
                | Some a \<Rightarrow>
                    bump_loop rest (put_acq (li_LockName info) (a\<lparr>LastAppendedNonce := LastAppendedNonce a + 1\<rparr>) di)))
      | _ \<Rightarrow> (Some (GoPanic NilDereference), di))"

definition scanDLockStateMap ::
  "bytes list \<Rightarrow> i64 \<Rightarrow> Node \<Rightarrow> DlockInterchange \<Rightarrow> go_error option \<times> Node \<times> DlockInterchange" where
  "scanDLockStateMap order timestamp n di =
     (case scan_loop timestamp n order di [] of
        (Inl err, di1) \<Rightarrow> (Some err, n, di1)
      | (Inr logEntries, di1) \<Rightarrow>
          (case InsertValidEntryList (LogEntryInMemory n) (map Some logEntries) of
             (Some err, lm) \<Rightarrow> (Some err, n\<lparr>LogEntryInMemory := lm\<rparr>, di1)
           | (None, lm) \<Rightarrow>
               let n1 = n\<lparr>LogEntryInMemory := lm\<rparr>
               in case bump_loop logEntries di1 of
                    (Some err, di2) \<Rightarrow> (Some err, n1, di2)
                  | (None, di2) \<Rightarrow>
                      (None, (if length logEntries \<noteq> 0 then upd_ctx TriggerAEChannel n1 else n1), di2)))"

definition InitFromDLockStateMap ::
  "bytes list \<Rightarrow> i64 \<Rightarrow> Node \<Rightarrow> DlockInterchange \<Rightarrow> go_error option \<times> Node \<times> DlockInterchange" where
  "InitFromDLockStateMap order timestamp n di = scanDLockStateMap order timestamp (commitProcedure n) di"

subsection \<open>Serving the queue of a lock\<close>

text \<open>Both branches that append a command to the log do it in the same two calls.\<close>

definition append_command :: "Command \<Rightarrow> Node \<Rightarrow> go_error option \<times> Node" where
  "append_command command n =
     (case NewLogEntry (node_term n) (MaximumIndex (LogEntryInMemory n) + 1) (CommandDLock command) of
        Inl err \<Rightarrow> (Some err, n)
      | Inr logEntry \<Rightarrow>
          (case InsertLogEntry (LogEntryInMemory n) (Some logEntry) of
             (err, lm) \<Rightarrow> (err, n\<lparr>LogEntryInMemory := lm\<rparr>)))"

definition pop_and_append ::
  "bytes \<Rightarrow> i64 \<Rightarrow> Node \<Rightarrow> DlockInterchange \<Rightarrow> DlockVolatileAcquirement \<Rightarrow> (go_error + u32) \<times> Node \<times> DlockInterchange" where
  "pop_and_append dlockName timestamp n di dlockAcq =
     (case FetchFirstValidAcquirement dlockAcq True timestamp of
        (Inl err, a) \<Rightarrow> (Inl err, n, put_acq dlockName a di)
      | (Inr None, a) \<Rightarrow> (Inl (GoPanic NilDereference), n, put_acq dlockName a di)
      | (Inr (Some command), a) \<Rightarrow>
          (case append_command command n of
             (Some err, n') \<Rightarrow> (Inl err, n', put_acq dlockName a di)
           | (None, n') \<Rightarrow>
               let a' = a\<lparr>LastAppendedNonce := LastAppendedNonce a + 1\<rparr>
               in (Inr (LastAppendedNonce a'), upd_ctx TriggerAEChannel n', put_acq dlockName a' di)))"

definition refreshSpecificDLock ::
  "bytes \<Rightarrow> bytes \<Rightarrow> i64 \<Rightarrow> Node \<Rightarrow> DlockInterchange \<Rightarrow> (go_error + u32) \<times> Node \<times> DlockInterchange" where
  "refreshSpecificDLock dlockName clientID timestamp n di =
     (case PendingAcquire di dlockName of
        None \<Rightarrow> (Inl EmptyDLockVolatileAcquirementError, n, di)
      | Some dlockAcq \<Rightarrow>
        (case QuerySpecificState_DLock (StateMapDLock n) dlockName of
          Inl err \<Rightarrow> (Inl err, n, di)
        | Inr decodedLockState \<Rightarrow>
            if i64_less timestamp (ds_Timestamp decodedLockState + ds_Expire decodedLockState) then (Inr 0, n, di)
            else if ds_LockNonce decodedLockState < LastAppendedNonce dlockAcq then (Inr 0, n, di)
            else
            (case FetchFirstValidAcquirement dlockAcq False timestamp of
              (Inl err, a) \<Rightarrow> (Inl err, n, put_acq dlockName a di)
            | (Inr None, a) \<Rightarrow> (Inr 0, n, put_acq dlockName a di)
            | (Inr (Some command), a) \<Rightarrow>
                (case GetAsDLockInfo command of
                  Inl err \<Rightarrow> (Inr 0, n, put_acq dlockName a di)
                | Inr dlockInfo \<Rightarrow>
                    if li_NewOwner dlockInfo \<noteq> clientID then (Inr 0, n, put_acq dlockName a di)
                    else pop_and_append dlockName timestamp n di a))))"

subsection \<open>Acquiring\<close>

definition acquirement_expire_ns :: "Node \<Rightarrow> i64" where
  "acquirement_expire_ns n = ucast (AcquirementExpire (Params (NodeConfigInstance n))) * 1000000"

text \<open>Case 1 of the code: no committed state of the lock.\<close>

definition AcquireDLock_case1 ::
  "bytes \<Rightarrow> i64 \<Rightarrow> Command \<Rightarrow> LockInfo \<Rightarrow> Node \<Rightarrow> DlockInterchange \<Rightarrow> (go_error + u32 \<times> u32) \<times> Node \<times> DlockInterchange" where
  "AcquireDLock_case1 lockName timestamp command0 info n di =
     (let dlockInfo = info\<lparr>li_LockNonce := 1, li_Timestamp := timestamp\<rparr>;
          command = SetAsDLockInfo dlockInfo command0
      in case PendingAcquire di lockName of
           None \<Rightarrow>
             let a = NewDlockVolatileAcquirement lockName 0
             in (case append_command command n of
                   (Some err, n') \<Rightarrow> (Inl err, n', put_acq lockName a di)
                 | (None, n') \<Rightarrow>
                     let a' = a\<lparr>LastAppendedNonce := LastAppendedNonce a + 1\<rparr>
                     in (Inr (0, LastAppendedNonce a'), upd_ctx TriggerAEChannel n', put_acq lockName a' di))
         | Some pendingAcq \<Rightarrow>
             (case InsertNewAcquirement pendingAcq command timestamp (acquirement_expire_ns n) of
                (Inl err, a) \<Rightarrow> (Inl err, n, put_acq lockName a di)
              | (Inr sequence, a) \<Rightarrow> (Inr (sequence, 0), n, put_acq lockName a di)))"

text \<open>Case 2: the lease has run out, nobody waits, nothing is uncommitted.\<close>

definition AcquireDLock_case2 ::
  "bytes \<Rightarrow> i64 \<Rightarrow> Command \<Rightarrow> LockInfo \<Rightarrow> DlockState \<Rightarrow> DlockVolatileAcquirement \<Rightarrow> Node \<Rightarrow> DlockInterchange \<Rightarrow>
   (go_error + u32 \<times> u32) \<times> Node \<times> DlockInterchange" where
  "AcquireDLock_case2 lockName timestamp command0 info current pendingAcq n di =
     (let dlockInfo = info\<lparr>li_LockNonce := ds_LockNonce current + 1, li_Timestamp := timestamp\<rparr>;
          command = SetAsDLockInfo dlockInfo command0
      in case append_command command n of
           (Some err, n') \<Rightarrow> (Inl err, n', di)
         | (None, n') \<Rightarrow>
             (Inr (0, li_LockNonce dlockInfo), upd_ctx TriggerAEChannel n',
              put_acq lockName (pendingAcq\<lparr>LastAppendedNonce := LastAppendedNonce pendingAcq + 1\<rparr>) di))"

text \<open>Case 3: wait in the queue, and serve the queue if its turn has come.\<close>

definition AcquireDLock_case3 ::
  "bytes \<Rightarrow> i64 \<Rightarrow> Command \<Rightarrow> LockInfo \<Rightarrow> DlockVolatileAcquirement \<Rightarrow> Node \<Rightarrow> DlockInterchange \<Rightarrow>
   (go_error + u32 \<times> u32) \<times> Node \<times> DlockInterchange" where
  "AcquireDLock_case3 lockName timestamp command info pendingAcq n di =
     (case InsertNewAcquirement pendingAcq command timestamp (acquirement_expire_ns n) of
        (Inl err, a) \<Rightarrow> (Inl err, n, put_acq lockName a di)
      | (Inr sequence, a) \<Rightarrow>
          (case refreshSpecificDLock lockName (li_NewOwner info) timestamp n (put_acq lockName a di) of
             (Inl err, n', di') \<Rightarrow> (Inl err, n', di')
           | (Inr nonce, n', di') \<Rightarrow> (Inr (sequence, 0), n', di')))"

text \<open>
  The error returned when the stored state cannot be decoded is the one of the earlier call,
  which is nil: the model returns success with sequence and nonce 0 there, like the code.
\<close>

definition AcquireDLock ::
  "bytes \<Rightarrow> i64 \<Rightarrow> Command \<Rightarrow> Node \<Rightarrow> DlockInterchange \<Rightarrow> (go_error + u32 \<times> u32) \<times> Node \<times> DlockInterchange" where
  "AcquireDLock lockName timestamp command n0 di =
     (let n = commitProcedure n0 in
      case GetAsDLockInfo command of
        Inl err \<Rightarrow> (Inl err, n, di)
      | Inr dlockInfo \<Rightarrow>
          (case QuerySpecificState_DLock (StateMapDLock n) lockName of
             Inl err2 \<Rightarrow>
               if err2 \<noteq> InMemoryStateMapDLockFetchError then (Inr (0, 0), n, di)
               else AcquireDLock_case1 lockName timestamp command dlockInfo n di
           | Inr current \<Rightarrow>
               (case PendingAcquire di lockName of
                  None \<Rightarrow> (Inl EmptyDLockVolatileAcquirementError, n, di)
                | Some pendingAcq \<Rightarrow>
                    if LastAppendedNonce pendingAcq = ds_LockNonce current \<and>
                       lastProcessedAcquirement pendingAcq = lastAssignedAcquirement pendingAcq \<and>
                       i64_less (ds_Timestamp current + ds_Expire current) timestamp
                    then AcquireDLock_case2 lockName timestamp command dlockInfo current pendingAcq n di
                    else if ds_LockNonce current < LastAppendedNonce pendingAcq \<or>
                       lastProcessedAcquirement pendingAcq < lastAssignedAcquirement pendingAcq \<or>
                       i64_le timestamp (ds_Timestamp current + ds_Expire current)
                    then AcquireDLock_case3 lockName timestamp command dlockInfo pendingAcq n di
                    else (Inl AcquireDLockUnexpectedError, n, di))))"

subsection \<open>Refreshing, querying and releasing\<close>

definition RefreshAcquirementBySequence ::
  "bytes \<Rightarrow> bytes \<Rightarrow> u32 \<Rightarrow> i64 \<Rightarrow> Node \<Rightarrow> DlockInterchange \<Rightarrow> (go_error + bool \<times> u32) \<times> Node \<times> DlockInterchange" where
  "RefreshAcquirementBySequence lockName clientId sequence timestamp n0 di =
     (let n = commitProcedure n0 in
      case PendingAcquire di lockName of
        None \<Rightarrow> (Inr (False, 0), n, di)
      | Some dlockAcq \<Rightarrow>
          (case AbandonExpiredAcquirement dlockAcq timestamp of
             (Some err, a) \<Rightarrow> (Inl err, n, put_acq lockName a di)
           | (None, a) \<Rightarrow>
               (case RefreshAcquirement a sequence timestamp of
                  (Some err, a') \<Rightarrow> (Inl err, n, put_acq lockName a' di)
                | (None, a') \<Rightarrow>
                    (case refreshSpecificDLock lockName clientId timestamp n (put_acq lockName a' di) of
                       (Inl err, n', di') \<Rightarrow> (Inl err, n', di')
                     | (Inr nonce, n', di') \<Rightarrow> (Inr (True, nonce), n', di')))))"

text \<open>The count is computed in 32 bits and read as a signed number.\<close>

definition QueryDLockAcquirementInfo :: "bytes \<Rightarrow> DlockInterchange \<Rightarrow> int" where
  "QueryDLockAcquirementInfo lockName di =
     (case PendingAcquire di lockName of
        None \<Rightarrow> - 1
      | Some a \<Rightarrow> sint (lastAssignedAcquirement a - lastProcessedAcquirement a))"

datatype ReleaseInfo = ErrorReserve | NoDLockExist | TriggerReleaseLater | AlreadyReleased | TriggerReleaseSuccess

definition ReleaseDLock ::
  "bytes \<Rightarrow> bytes \<Rightarrow> i64 \<Rightarrow> Node \<Rightarrow> DlockInterchange \<Rightarrow> (go_error + ReleaseInfo \<times> u32) \<times> Node \<times> DlockInterchange" where
  "ReleaseDLock lockName applicant timestamp n0 di =
     (let n = commitProcedure n0; dlockAcq = PendingAcquire di lockName in
      case QuerySpecificState_DLock (StateMapDLock n) lockName of
        Inl err \<Rightarrow>
          if err = InMemoryStateMapDLockFetchError
          then (case dlockAcq of
                  Some a \<Rightarrow> if 0 < LastAppendedNonce a then (Inr (TriggerReleaseLater, 0), n, di)
                            else (Inr (NoDLockExist, 0), n, di)
                | None \<Rightarrow> (Inr (NoDLockExist, 0), n, di))
          else (Inl err, n, di)
      | Inr lockState \<Rightarrow>
          if ds_Owner lockState \<noteq> applicant then (Inr (AlreadyReleased, 0), n, di)
          else case dlockAcq of
                 None \<Rightarrow> (Inl EmptyDLockVolatileAcquirementError, n, di)
               | Some a \<Rightarrow>
                   if ds_LockNonce lockState < LastAppendedNonce a then (Inr (TriggerReleaseLater, 0), n, di)
                   else (case constructLogEntryByItems (ds_LockNonce lockState + 1) (ds_LockName lockState) []
                                timestamp 0 (node_term n) (MaximumIndex (LogEntryInMemory n) + 1) of
                           Inl err \<Rightarrow> (Inl err, n, di)
                         | Inr currentLogEntry \<Rightarrow>
                             (case InsertLogEntry (LogEntryInMemory n) (Some currentLogEntry) of
                                (Some err, lm) \<Rightarrow> (Inl err, n\<lparr>LogEntryInMemory := lm\<rparr>, di)
                              | (None, lm) \<Rightarrow>
                                  (Inr (TriggerReleaseSuccess, ds_LockNonce lockState + 1),
                                   upd_ctx TriggerAEChannel (n\<lparr>LogEntryInMemory := lm\<rparr>),
                                   put_acq lockName (a\<lparr>LastAppendedNonce := LastAppendedNonce a + 1\<rparr>) di))))"

text \<open>
  One tick of the goroutine that watches the locks during a term: \<open>False\<close> says the goroutine
  ends. The mutex is taken and given back on every path.
\<close>

definition ReleaseExpiredDLockPeriodically_tick ::
  "bytes list \<Rightarrow> i64 \<Rightarrow> u64 \<Rightarrow> Node \<Rightarrow> DlockInterchange \<Rightarrow> bool \<times> Node \<times> DlockInterchange" where
  "ReleaseExpiredDLockPeriodically_tick order now startLeaderTerm n di =
     (if node_term n \<noteq> startLeaderTerm then (False, n, di)
      else if node_state n \<noteq> Leader then (False, n, di)
      else case scanDLockStateMap order now (commitProcedure n) di of
             (Some err, n', di') \<Rightarrow> (False, n', di')
           | (None, n', di') \<Rightarrow> (True, n', di'))"

subsection \<open>Entries an operation adds\<close>

text \<open>The entry a leader creates next: well-formed, at the next index, in its term, with this content.\<close>

definition next_entry :: "Node \<Rightarrow> LogEntry \<Rightarrow> LockInfo \<Rightarrow> bool" where
  "next_entry n e li \<longleftrightarrow>
     wf_LogEntry e \<and> le_Index e = maximumIndex (LogEntryInMemory n) + 1 \<and> le_Term e = node_term n \<and>
     entry_LockInfo e = Some li"

definition node_with_entry :: "Node \<Rightarrow> LogEntry \<Rightarrow> Node" where
  "node_with_entry n e = upd_ctx TriggerAEChannel (n\<lparr>LogEntryInMemory := put_entry (LogEntryInMemory n) e\<rparr>)"

lemma node_with_entry_simps [simp]:
  "LogEntryInMemory (node_with_entry n e) = put_entry (LogEntryInMemory n) e"
  "StateMapDLock (node_with_entry n e) = StateMapDLock n"
  "StateMapKVStore (node_with_entry n e) = StateMapKVStore n"
  "NodeConfigInstance (node_with_entry n e) = NodeConfigInstance n"
  "PeerList (node_with_entry n e) = PeerList n"
  "mutex (node_with_entry n e) = mutex n"
  "NodeContextInstance (node_with_entry n e) = (NodeContextInstance n)\<lparr>AppendEntryChan := True\<rparr>"
  by (simp_all add: node_with_entry_def)

lemma maximumIndex_put_entry [simp]: "maximumIndex (put_entry lm e) = max (maximumIndex lm) (le_Index e)"
  by (rule mem.top_put)

lemma wf_node_with_entry [wf_intros]:
  assumes "wf_Node n" "next_entry n e li" "maximumIndex (LogEntryInMemory n) \<noteq> - 1"
  shows "wf_Node (node_with_entry n e)"
proof -
  have e: "wf_LogEntry e" "le_Index e = maximumIndex (LogEntryInMemory n) + 1"
    using assms(2) by (simp_all add: next_entry_def)
  have lt: "maximumIndex (LogEntryInMemory n) < maximumIndex (LogEntryInMemory n) + 1"
    by (rule word_less_plus_1 [OF assms(3)])
  have "wf_LogMemory (put_entry (LogEntryInMemory n) e)" "contiguous (put_entry (LogEntryInMemory n) e)"
    using wf_put_entry contiguous_append wf_NodeD(1,2) [OF assms(1)] e lt by blast+
  with assms(1) e show ?thesis
    by (auto simp: wf_Node_def le_max_iff_disj)
qed

lemma NewLogEntry_DLock:
  assumes "wf_command (CommandDLock c)" "GetAsDLockInfo c = Inr li"
  shows "\<exists>e. NewLogEntry t i (CommandDLock c) = Inr e \<and> wf_LogEntry e \<and> le_Index e = i \<and> le_Term e = t \<and>
    entry_LockInfo e = Some li"
proof -
  obtain e where e: "NewLogEntry t i (CommandDLock c) = Inr e"
    using assms(2) by (simp add: NewLogEntry_def GetFastIndex_def GetFastIndex_DLock_def Let_def)
  have f: "le_Term e = t" "le_Index e = i" "e_CommandName (le_Entry e) = GetCommandName (CommandDLock c)"
      "e_CommandContent (le_Entry e) = GetCommandContent (CommandDLock c)"
    using NewLogEntry_fields [OF e] by simp_all
  have "entry_LockInfo e = Some li"
    using assms unfolding entry_LockInfo_def f wf_command_def by simp
  with e f NewLogEntry_wf [OF assms(1) e] show ?thesis by blast
qed

lemma append_command_spec:
  assumes "wf_command (CommandDLock c)" "GetAsDLockInfo c = Inr li"
  obtains e where "append_command c n = (None, n\<lparr>LogEntryInMemory := put_entry (LogEntryInMemory n) e\<rparr>)"
    "next_entry n e li"
  using NewLogEntry_DLock [OF assms, of "node_term n" "MaximumIndex (LogEntryInMemory n) + 1"]
  by (auto simp: append_command_def InsertLogEntry_def next_entry_def MaximumIndex_def)

lemma constructLogEntryByItems_spec:
  assumes "valid_utf8 name" "valid_utf8 owner"
  shows "\<exists>e. constructLogEntryByItems nonce name owner ts ex t i = Inr e \<and> wf_LogEntry e \<and>
    le_Index e = i \<and> le_Term e = t \<and>
    entry_LockInfo e = Some \<lparr>li_LockNonce = nonce, li_LockName = name, li_NewOwner = owner,
       li_Timestamp = ts, li_Expire = ex\<rparr>"
  using NewLogEntry_DLock [OF wf_command_new(2) GetAsDLockInfo_NewCommandDLock [OF assms]]
  unfolding constructLogEntryByItems_def by blast

subsection \<open>Serving the queue\<close>

lemma pop_and_append_spec:
  assumes wf: "wf_Acquirement a" "va_LockName a = name"
    and q: "dropWhile (\<lambda>p. acq_expired ts (snd p)) (pending a) = (k, info) # rest"
  shows "\<exists>e li a'. pop_and_append name ts n di a =
      (Inr (LastAppendedNonce a + 1), node_with_entry n e, put_acq name a' di) \<and>
    next_entry n e li \<and> li_LockName li = name \<and> li_LockNonce li = LastAppendedNonce a + 1 \<and>
    li_NewOwner li = Acquirer info \<and> li_Timestamp li = ts \<and>
    wf_Acquirement a' \<and> va_LockName a' = name \<and> LastAppendedNonce a' = LastAppendedNonce a + 1 \<and> pending a' = rest"
proof -
  obtain a1 li where a1: "wf_Acquirement a1" "LastAppendedNonce a1 = LastAppendedNonce a" "va_LockName a1 = name"
      "GetAsDLockInfo (ai_Command info) = Inr li" "pending a1 = rest"
    and f: "FetchFirstValidAcquirement a True ts = (Inr (Some (SetAsDLockInfo
         (li\<lparr>li_Timestamp := ts, li_LockNonce := LastAppendedNonce a + 1\<rparr>) (ai_Command info))), a1)"
    using FetchFirstValidAcquirement_spec [OF wf(1), where ts = ts and popTag = True] wf(2)
    unfolding q by (auto simp: Let_def)
  have "(k, info) \<in> set (pending a)"
    using q by (metis list.set_intros(1) set_dropWhileD)
  then have wi: "wf_info name info" using pending_member [OF wf(1)] wf(2) by blast
  let ?li = "li\<lparr>li_Timestamp := ts, li_LockNonce := LastAppendedNonce a + 1\<rparr>"
  let ?c = "SetAsDLockInfo ?li (ai_Command info)"
  have li: "li_NewOwner li = Acquirer info" "li_LockName li = name" "wf_command (CommandDLock (ai_Command info))"
    using wi a1(4) by (simp_all add: wf_info_def)
  have "valid_LockInfo ?li" using GetAsDLockInfo_valid [OF a1(4)] by (simp add: valid_LockInfo_def)
  then have c: "GetAsDLockInfo ?c = Inr ?li" "wf_command (CommandDLock ?c)"
    using li(3) by (simp_all add: GetAsDLockInfo_SetAsDLockInfo wf_command_SetAsDLockInfo)
  obtain e where e: "append_command ?c n = (None, n\<lparr>LogEntryInMemory := put_entry (LogEntryInMemory n) e\<rparr>)"
      "next_entry n e ?li"
    using append_command_spec [OF c(2,1)] .
  let ?a = "a1\<lparr>LastAppendedNonce := LastAppendedNonce a1 + 1\<rparr>"
  have pa: "pending ?a = pending a1" by (rule pending_cong) simp_all
  then have "wf_Acquirement ?a" using a1(1) by (simp add: wf_Acquirement_def)
  moreover have "pop_and_append name ts n di a =
      (Inr (LastAppendedNonce a + 1), node_with_entry n e, put_acq name ?a di)"
    using f e(1) a1(2) by (simp add: pop_and_append_def node_with_entry_def Let_def)
  ultimately show ?thesis
    using e(2) li a1 pa by (intro exI [of _ e] exI [of _ ?li] exI [of _ ?a]) simp
qed

definition lease_runs :: "i64 \<Rightarrow> DlockState \<Rightarrow> bool" where
  "lease_runs ts ds \<longleftrightarrow> i64_less ts (ds_Timestamp ds + ds_Expire ds)"

text \<open>
  Reading the head of the queue without popping it, then popping it at the same time: the
  second read sees the same request.
\<close>

lemma refresh_serves:
  assumes wf: "wf_Acquirement acq" "va_LockName acq = name" "PendingAcquire di name = Some acq"
    and st: "QuerySpecificState_DLock (StateMapDLock n) name = Inr ds"
    and free: "\<not> lease_runs ts ds" "\<not> ds_LockNonce ds < LastAppendedNonce acq"
    and q: "dropWhile (\<lambda>p. acq_expired ts (snd p)) (pending acq) = (k, info) # rest"
  shows "\<exists>e li a'. refreshSpecificDLock name client ts n di =
      (if Acquirer info = client then (Inr (LastAppendedNonce acq + 1), node_with_entry n e, put_acq name a' di)
       else (Inr 0, n, put_acq name a' di)) \<and>
    wf_Acquirement a' \<and> va_LockName a' = name \<and>
    (if Acquirer info = client
     then next_entry n e li \<and> li_LockName li = name \<and> li_LockNonce li = LastAppendedNonce acq + 1 \<and>
       li_NewOwner li = client \<and> li_Timestamp li = ts \<and>
       LastAppendedNonce a' = LastAppendedNonce acq + 1 \<and> pending a' = rest
     else LastAppendedNonce a' = LastAppendedNonce acq \<and> map fst (pending a') = k # map fst rest)"
proof -
  obtain a1 li where a1: "wf_Acquirement a1" "LastAppendedNonce a1 = LastAppendedNonce acq" "va_LockName a1 = name"
      "GetAsDLockInfo (ai_Command info) = Inr li"
    and f: "FetchFirstValidAcquirement acq False ts = (Inr (Some (SetAsDLockInfo
         (li\<lparr>li_Timestamp := ts, li_LockNonce := LastAppendedNonce acq + 1\<rparr>) (ai_Command info))), a1)"
    and p1: "pending a1 = (k, info\<lparr>ai_Command := SetAsDLockInfo
         (li\<lparr>li_Timestamp := ts, li_LockNonce := LastAppendedNonce acq + 1\<rparr>) (ai_Command info)\<rparr>) # rest"
    using FetchFirstValidAcquirement_spec [OF wf(1), where ts = ts and popTag = False] wf(2)
    unfolding q by (auto simp: Let_def)
  let ?li = "li\<lparr>li_Timestamp := ts, li_LockNonce := LastAppendedNonce acq + 1\<rparr>"
  let ?info = "info\<lparr>ai_Command := SetAsDLockInfo ?li (ai_Command info)\<rparr>"
  have mem: "(k, info) \<in> set (pending acq)" using q by (metis list.set_intros(1) set_dropWhileD)
  then have owner: "li_NewOwner li = Acquirer info"
    using pending_member [OF wf(1)] a1(4) by (fastforce simp: wf_info_def)
  have "valid_LockInfo ?li" using GetAsDLockInfo_valid [OF a1(4)] by (simp add: valid_LockInfo_def)
  then have g: "GetAsDLockInfo (SetAsDLockInfo ?li (ai_Command info)) = Inr ?li"
    by (rule GetAsDLockInfo_SetAsDLockInfo)
  have r: "refreshSpecificDLock name client ts n di =
      (if Acquirer info = client then pop_and_append name ts n di a1 else (Inr 0, n, put_acq name a1 di))"
    using wf(3) st free f g owner by (simp add: refreshSpecificDLock_def lease_runs_def)
  show ?thesis
  proof (cases "Acquirer info = client")
    case True
    have "\<not> acq_expired ts info" using q by (metis dropWhile_eq_Cons_conv snd_conv)
    then have "dropWhile (\<lambda>p. acq_expired ts (snd p)) (pending a1) = (k, ?info) # rest"
      using p1 by (simp add: acq_expired_def)
    from pop_and_append_spec [OF a1(1,3) this, of n di] True r a1(2) show ?thesis by auto
  next
    case False
    with r a1 p1 show ?thesis by auto
  qed
qed

lemma refresh_idle:
  assumes wf: "wf_Acquirement acq" "va_LockName acq = name" "PendingAcquire di name = Some acq"
    and st: "QuerySpecificState_DLock (StateMapDLock n) name = Inr ds"
    and idle: "lease_runs ts ds \<or> ds_LockNonce ds < LastAppendedNonce acq \<or>
      dropWhile (\<lambda>p. acq_expired ts (snd p)) (pending acq) = []"
  shows "\<exists>a'. refreshSpecificDLock name client ts n di = (Inr 0, n, put_acq name a' di) \<and>
    wf_Acquirement a' \<and> va_LockName a' = name \<and> LastAppendedNonce a' = LastAppendedNonce acq"
proof (cases "lease_runs ts ds \<or> ds_LockNonce ds < LastAppendedNonce acq")
  case True
  have "di = put_acq name acq di" using wf(3) by (cases di) (auto simp: put_acq_def)
  moreover have "refreshSpecificDLock name client ts n di = (Inr 0, n, di)"
    using True wf(3) st by (auto simp: refreshSpecificDLock_def lease_runs_def)
  ultimately show ?thesis using wf by metis
next
  case False
  with idle have q: "dropWhile (\<lambda>p. acq_expired ts (snd p)) (pending acq) = []" by blast
  obtain a1 where a1: "wf_Acquirement a1" "LastAppendedNonce a1 = LastAppendedNonce acq" "va_LockName a1 = name"
      "FetchFirstValidAcquirement acq False ts = (Inr None, a1)"
    using FetchFirstValidAcquirement_spec [OF wf(1), where ts = ts and popTag = False] wf(2)
    unfolding q by auto
  have "refreshSpecificDLock name client ts n di = (Inr 0, n, put_acq name a1 di)"
    using False wf(3) st a1(4) by (simp add: refreshSpecificDLock_def lease_runs_def)
  with a1 show ?thesis by blast
qed

subsection \<open>The invariant and the outcome of an operation\<close>

definition wf_Interchange :: "Node \<Rightarrow> DlockInterchange \<Rightarrow> bool" where
  "wf_Interchange n di \<longleftrightarrow>
     (\<forall>name a. PendingAcquire di name = Some a \<longrightarrow>
        wf_Acquirement a \<and> va_LockName a = name \<and>
        (\<forall>ds. abs_locks (StateMapDLock n) name = Some ds \<longrightarrow> ds_LockNonce ds \<le> LastAppendedNonce a))"

definition last_nonce :: "DlockInterchange \<Rightarrow> bytes \<Rightarrow> u32" where
  "last_nonce di name = (case PendingAcquire di name of None \<Rightarrow> 0 | Some a \<Rightarrow> LastAppendedNonce a)"

text \<open>The 32-bit counters of the lock are not exhausted.\<close>

definition counters_ok :: "DlockInterchange \<Rightarrow> bytes \<Rightarrow> bool" where
  "counters_ok di name \<longleftrightarrow>
     (case PendingAcquire di name of
        None \<Rightarrow> True
      | Some a \<Rightarrow> lastAssignedAcquirement a + 1 \<noteq> - 1 \<and> LastAppendedNonce a \<noteq> - 1)"

text \<open>
  What an operation on the lock \<open>name\<close> may do: nothing to the node, or append one entry, whose
  nonce is the next one and which satisfies \<open>why\<close>. The other locks' queues are untouched.
\<close>

definition outcome ::
  "(LockInfo \<Rightarrow> DlockState option \<Rightarrow> bool) \<Rightarrow> Node \<Rightarrow> DlockInterchange \<Rightarrow> bytes \<Rightarrow> Node \<Rightarrow> DlockInterchange \<Rightarrow> bool" where
  "outcome why n di name n' di' \<longleftrightarrow>
     (\<forall>m. m \<noteq> name \<longrightarrow> PendingAcquire di' m = PendingAcquire di m) \<and> wf_Interchange n' di' \<and>
     (n' = n \<and> last_nonce di' name = last_nonce di name \<or>
      (\<exists>e li. n' = node_with_entry n e \<and> next_entry n e li \<and> li_LockName li = name \<and>
         li_LockNonce li = last_nonce di name + 1 \<and> last_nonce di' name = last_nonce di name + 1 \<and>
         (\<forall>ds. abs_locks (StateMapDLock n) name = Some ds \<longrightarrow> li_LockNonce li = ds_LockNonce ds + 1) \<and>
         why li (abs_locks (StateMapDLock n) name)))"

lemma put_acq_simps [simp]:
  "PendingAcquire (put_acq name a di) = (PendingAcquire di)(name \<mapsto> a)"
  "LeaderTerm (put_acq name a di) = LeaderTerm di"
  by (simp_all add: put_acq_def)

lemma outcome_unchanged: "wf_Interchange n di \<Longrightarrow> outcome why n di name n di"
  by (simp add: outcome_def)

lemma outcome_quiet:
  assumes "wf_Interchange n di" "PendingAcquire di name = Some acq"
    and "wf_Acquirement a" "va_LockName a = name" "LastAppendedNonce a = LastAppendedNonce acq"
  shows "outcome why n di name n (put_acq name a di)"
  using assms by (auto simp: outcome_def wf_Interchange_def last_nonce_def)

lemma word_le_plus_1: "(x :: 'a::len word) \<noteq> - 1 \<Longrightarrow> y \<le> x \<Longrightarrow> y \<le> x + 1"
  using word_less_plus_1 [of x] by simp

lemma outcome_grant:
  assumes "wf_Interchange n di" "next_entry n e li" "li_LockName li = name"
    and "li_LockNonce li = last_nonce di name + 1" "last_nonce di name \<noteq> - 1"
    and "wf_Acquirement a" "va_LockName a = name" "LastAppendedNonce a = last_nonce di name + 1"
    and "\<And>ds. abs_locks (StateMapDLock n) name = Some ds \<Longrightarrow> ds_LockNonce ds = last_nonce di name"
    and "why li (abs_locks (StateMapDLock n) name)"
  shows "outcome why n di name (node_with_entry n e) (put_acq name a di)"
proof -
  have "ds_LockNonce ds \<le> LastAppendedNonce a" if "abs_locks (StateMapDLock n) name = Some ds" for ds
    using assms(8) assms(9) [OF that] word_le_plus_1 [OF assms(5) order_refl] by simp
  with assms have "wf_Interchange (node_with_entry n e) (put_acq name a di)"
    by (auto simp: wf_Interchange_def)
  with assms show ?thesis by (auto simp: outcome_def last_nonce_def)
qed

lemma outcome_via_put:
  assumes "outcome why n (put_acq name a di) name n' di'" "last_nonce (put_acq name a di) name = last_nonce di name"
  shows "outcome why n di name n' di'"
  using assms unfolding outcome_def by auto

definition why_served :: "bytes \<Rightarrow> i64 \<Rightarrow> LockInfo \<Rightarrow> DlockState option \<Rightarrow> bool" where
  "why_served client ts li st \<longleftrightarrow>
     li_NewOwner li = client \<and> li_Timestamp li = ts \<and> (\<forall>ds. st = Some ds \<longrightarrow> \<not> lease_runs ts ds)"

lemma wf_InterchangeD:
  assumes "wf_Interchange n di" "PendingAcquire di name = Some a"
  shows "wf_Acquirement a" "va_LockName a = name"
    "abs_locks (StateMapDLock n) name = Some ds \<Longrightarrow> ds_LockNonce ds \<le> LastAppendedNonce a"
  using assms by (auto simp: wf_Interchange_def)

lemma refresh_served_outcome:
  assumes n: "wf_LockMap (StateMapDLock n)" "wf_Interchange n di" "last_nonce di name \<noteq> - 1" "PendingAcquire di name = Some acq"
    and ds: "abs_locks (StateMapDLock n) name = Some ds"
    and free: "\<not> lease_runs ts ds" "\<not> ds_LockNonce ds < LastAppendedNonce acq"
    and q: "dropWhile (\<lambda>p. acq_expired ts (snd p)) (pending acq) = (k, info) # rest"
    and r: "refreshSpecificDLock name client ts n di = (r, n', di')"
  shows "outcome (why_served client ts) n di name n' di'"
proof -
  note acq = wf_InterchangeD [OF n(2,4)]
  have st: "QuerySpecificState_DLock (StateMapDLock n) name = Inr ds" using ds by (simp add: QuerySpecificState_abs [OF n(1)])
  have ln: "last_nonce di name = LastAppendedNonce acq" using n(4) by (simp add: last_nonce_def)
  have eq: "ds_LockNonce ds = LastAppendedNonce acq" using free(2) acq(3) [OF ds] by auto
  obtain e li a' where R: "refreshSpecificDLock name client ts n di =
        (if Acquirer info = client then (Inr (LastAppendedNonce acq + 1), node_with_entry n e, put_acq name a' di)
         else (Inr 0, n, put_acq name a' di))"
      "wf_Acquirement a'" "va_LockName a' = name"
      "if Acquirer info = client
       then next_entry n e li \<and> li_LockName li = name \<and> li_LockNonce li = LastAppendedNonce acq + 1 \<and>
         li_NewOwner li = client \<and> li_Timestamp li = ts \<and>
         LastAppendedNonce a' = LastAppendedNonce acq + 1 \<and> pending a' = rest
       else LastAppendedNonce a' = LastAppendedNonce acq \<and> map fst (pending a') = k # map fst rest"
    using refresh_serves [OF acq(1,2) n(4) st free q, of client] by metis
  show ?thesis
  proof (cases "Acquirer info = client")
    case True
    with R(4) have e: "next_entry n e li" "li_LockName li = name" "li_LockNonce li = last_nonce di name + 1"
        "LastAppendedNonce a' = last_nonce di name + 1"
      and why: "why_served client ts li (abs_locks (StateMapDLock n) name)"
      using ln free(1) ds by (simp_all add: why_served_def)
    have "outcome (why_served client ts) n di name (node_with_entry n e) (put_acq name a' di)"
      by (rule outcome_grant [OF n(2) e(1-3) n(3) R(2,3) e(4)]) (use ds eq ln why in simp_all)
    with R(1) True r show ?thesis by simp
  next
    case False
    with R(4) have "LastAppendedNonce a' = LastAppendedNonce acq" by simp
    from outcome_quiet [OF n(2,4) R(2,3) this] R(1) False r show ?thesis by simp
  qed
qed

lemma refresh_outcome:
  assumes "wf_LockMap (StateMapDLock n)" "wf_Interchange n di" "last_nonce di name \<noteq> - 1"
    and "refreshSpecificDLock name client ts n di = (r, n', di')"
  shows "outcome (why_served client ts) n di name n' di'"
proof (cases "PendingAcquire di name = None \<or> abs_locks (StateMapDLock n) name = None")
  case True
  with assms show ?thesis
    by (auto simp: refreshSpecificDLock_def QuerySpecificState_abs intro: outcome_unchanged split: option.splits)
next
  case False
  then obtain acq ds where acq: "PendingAcquire di name = Some acq" and ds: "abs_locks (StateMapDLock n) name = Some ds" by auto
  note wf = wf_InterchangeD [OF assms(2) acq]
  have st: "QuerySpecificState_DLock (StateMapDLock n) name = Inr ds" using ds by (simp add: QuerySpecificState_abs [OF assms(1)])
  show ?thesis
  proof (cases "lease_runs ts ds \<or> ds_LockNonce ds < LastAppendedNonce acq \<or>
      dropWhile (\<lambda>p. acq_expired ts (snd p)) (pending acq) = []")
    case True
    obtain a' where a': "refreshSpecificDLock name client ts n di = (Inr 0, n, put_acq name a' di)"
        "wf_Acquirement a'" "va_LockName a' = name" "LastAppendedNonce a' = LastAppendedNonce acq"
      using refresh_idle [OF wf(1,2) acq st True, of client] by blast
    from outcome_quiet [OF assms(2) acq a'(2-4)] a'(1) assms(4) show ?thesis by simp
  next
    case False
    then obtain k info rest where "dropWhile (\<lambda>p. acq_expired ts (snd p)) (pending acq) = (k, info) # rest"
      by (metis list.exhaust surj_pair)
    with False show ?thesis using refresh_served_outcome [OF assms(1-3) acq ds _ _ _ assms(4)] by blast
  qed
qed

text \<open>Inserting a request keeps the invariant and the last nonce.\<close>

lemma insert_outcome:
  assumes wf: "wf_Interchange n di" "PendingAcquire di name = Some acq" "counters_ok di name"
    and c: "GetAsDLockInfo command = Inr info" "li_LockName info = name" "wf_command (CommandDLock command)"
  shows "\<exists>s a. InsertNewAcquirement acq command ts ex = (Inr s, a) \<and>
    outcome why n di name n (put_acq name a di) \<and> wf_Interchange n (put_acq name a di) \<and>
    last_nonce (put_acq name a di) name = last_nonce di name"
proof -
  note acq = wf_InterchangeD [OF wf(1,2)]
  have room: "lastAssignedAcquirement acq + 1 \<noteq> - 1" using wf(2,3) by (simp add: counters_ok_def)
  have nm: "li_LockName info = va_LockName acq" using c(2) acq(2) by simp
  obtain a s where a: "wf_Acquirement a" "LastAppendedNonce a = LastAppendedNonce acq" "va_LockName a = name"
      "InsertNewAcquirement acq command ts ex = (Inr s, a)"
    using InsertNewAcquirement_spec [OF acq(1) c(1) nm c(3) room, of ts ex] acq(2)
    by (fastforce simp: Let_def split: option.splits)
  have o: "outcome why n di name n (put_acq name a di)"
    by (rule outcome_quiet [OF wf(1,2) a(1,3,2)])
  then have "wf_Interchange n (put_acq name a di)" by (simp add: outcome_def)
  with o a(2,4) wf(2) show ?thesis by (simp add: last_nonce_def)
qed

lemma last_nonce_room: "counters_ok di name \<Longrightarrow> last_nonce di name \<noteq> - 1"
  by (simp add: counters_ok_def last_nonce_def split: option.splits)

lemma case1_outcome:
  assumes wf: "wf_Interchange n di" "counters_ok di name" "abs_locks (StateMapDLock n) name = None"
    and c: "GetAsDLockInfo command = Inr info" "li_LockName info = name" "wf_command (CommandDLock command)"
    and r: "AcquireDLock_case1 name ts command info n di = (r, n', di')"
  shows "outcome (why_served (li_NewOwner info) ts) n di name n' di'"
proof -
  let ?li = "info\<lparr>li_LockNonce := 1, li_Timestamp := ts\<rparr>"
  let ?c = "SetAsDLockInfo ?li command"
  have v: "valid_LockInfo ?li" using GetAsDLockInfo_valid [OF c(1)] by (simp add: valid_LockInfo_def)
  have g: "GetAsDLockInfo ?c = Inr ?li" "wf_command (CommandDLock ?c)"
    using c(3) v by (simp_all add: GetAsDLockInfo_SetAsDLockInfo wf_command_SetAsDLockInfo)
  show ?thesis
  proof (cases "PendingAcquire di name")
    case None
    obtain e where e: "append_command ?c n = (None, n\<lparr>LogEntryInMemory := put_entry (LogEntryInMemory n) e\<rparr>)"
        "next_entry n e ?li"
      using append_command_spec [OF g(2,1)] .
    let ?a = "(NewDlockVolatileAcquirement name 0)\<lparr>LastAppendedNonce := 1\<rparr>"
    have r': "n' = node_with_entry n e" "di' = put_acq name ?a di"
      using r None e(1) by (simp_all add: AcquireDLock_case1_def Let_def node_with_entry_def NewDlockVolatileAcquirement_def)
    have "?a = NewDlockVolatileAcquirement name 1" by (simp add: NewDlockVolatileAcquirement_def)
    then have a: "wf_Acquirement ?a" "va_LockName ?a = name" "LastAppendedNonce ?a = 1"
      using wf_Acquirement_new [of name 1] by (simp_all add: NewDlockVolatileAcquirement_def)
    have ln: "last_nonce di name = 0" using None by (simp add: last_nonce_def)
    show ?thesis
      unfolding r'
      by (rule outcome_grant [OF wf(1) e(2)]) (use c(2) wf(3) a ln in \<open>simp_all add: why_served_def\<close>)
  next
    case (Some acq)
    have nm: "li_LockName ?li = name" using c(2) by simp
    obtain s a where "InsertNewAcquirement acq ?c ts (acquirement_expire_ns n) = (Inr s, a)"
        "outcome (why_served (li_NewOwner info) ts) n di name n (put_acq name a di)"
      using insert_outcome [OF wf(1) Some wf(2) g(1) nm g(2)] by blast
    with r Some show ?thesis by (simp add: AcquireDLock_case1_def Let_def)
  qed
qed

lemma case2_outcome:
  assumes wf: "wf_Interchange n di" "counters_ok di name" "PendingAcquire di name = Some acq"
    and ds: "abs_locks (StateMapDLock n) name = Some ds" "LastAppendedNonce acq = ds_LockNonce ds"
      "\<not> lease_runs ts ds"
    and c: "GetAsDLockInfo command = Inr info" "li_LockName info = name" "wf_command (CommandDLock command)"
    and r: "AcquireDLock_case2 name ts command info ds acq n di = (r, n', di')"
  shows "outcome (why_served (li_NewOwner info) ts) n di name n' di'"
proof -
  let ?li = "info\<lparr>li_LockNonce := ds_LockNonce ds + 1, li_Timestamp := ts\<rparr>"
  let ?c = "SetAsDLockInfo ?li command" and ?a = "acq\<lparr>LastAppendedNonce := LastAppendedNonce acq + 1\<rparr>"
  have v: "valid_LockInfo ?li" using GetAsDLockInfo_valid [OF c(1)] by (simp add: valid_LockInfo_def)
  have g: "GetAsDLockInfo ?c = Inr ?li" "wf_command (CommandDLock ?c)"
    using c(3) v by (simp_all add: GetAsDLockInfo_SetAsDLockInfo wf_command_SetAsDLockInfo)
  obtain e where e: "append_command ?c n = (None, n\<lparr>LogEntryInMemory := put_entry (LogEntryInMemory n) e\<rparr>)"
      "next_entry n e ?li"
    using append_command_spec [OF g(2,1)] .
  have r': "n' = node_with_entry n e" "di' = put_acq name ?a di"
    using r e(1) by (simp_all add: AcquireDLock_case2_def Let_def node_with_entry_def)
  have ln: "last_nonce di name = ds_LockNonce ds" using wf(3) ds(2) by (simp add: last_nonce_def)
  have "pending ?a = pending acq" by (rule pending_cong) simp_all
  then have a: "wf_Acquirement ?a" "va_LockName ?a = name"
    using wf_InterchangeD [OF wf(1,3)] by (simp_all add: wf_Acquirement_def)
  show ?thesis
    unfolding r'
    by (rule outcome_grant [OF wf(1) e(2) _ _ last_nonce_room [OF wf(2)] a])
       (use c(2) ds ln in \<open>simp_all add: why_served_def\<close>)
qed

lemma case3_outcome:
  assumes sm: "wf_LockMap (StateMapDLock n)"
    and wf: "wf_Interchange n di" "counters_ok di name" "PendingAcquire di name = Some acq"
    and c: "GetAsDLockInfo command = Inr info" "li_LockName info = name" "wf_command (CommandDLock command)"
    and r: "AcquireDLock_case3 name ts command info acq n di = (r, n', di')"
  shows "outcome (why_served (li_NewOwner info) ts) n di name n' di'"
proof -
  obtain s a where i: "InsertNewAcquirement acq command ts (acquirement_expire_ns n) = (Inr s, a)"
      "wf_Interchange n (put_acq name a di)" "last_nonce (put_acq name a di) name = last_nonce di name"
    using insert_outcome [OF wf(1,3,2) c] by blast
  obtain r1 where "refreshSpecificDLock name (li_NewOwner info) ts n (put_acq name a di) = (r1, n', di')"
    using r i(1) by (auto simp: AcquireDLock_case3_def split: prod.splits sum.splits)
  moreover have "last_nonce (put_acq name a di) name \<noteq> - 1"
    using i(3) last_nonce_room [OF wf(2)] by simp
  ultimately have "outcome (why_served (li_NewOwner info) ts) n (put_acq name a di) name n' di'"
    using refresh_outcome [OF sm i(2)] by blast
  then show ?thesis by (rule outcome_via_put) (rule i(3))
qed

text \<open>A request to acquire, on every branch.\<close>

theorem AcquireDLock_outcome:
  assumes "wf_Node n" "wf_Interchange (commitProcedure n) di" "counters_ok di name"
    and c: "GetAsDLockInfo command = Inr info" "li_LockName info = name" "wf_command (CommandDLock command)"
    and r: "AcquireDLock name ts command n di = (r, n', di')"
  shows "outcome (why_served (li_NewOwner info) ts) (commitProcedure n) di name n' di'"
proof -
  let ?n = "commitProcedure n"
  have sm: "wf_LockMap (StateMapDLock ?n)" using wf_commitProcedure [OF assms(1)] by (rule wf_NodeD)
  note wf = assms(2,3)
  show ?thesis
  proof (cases "abs_locks (StateMapDLock ?n) name")
    case None
    then have "AcquireDLock_case1 name ts command info ?n di = (r, n', di')"
      using r c(1) by (simp add: AcquireDLock_def QuerySpecificState_abs [OF sm])
    from case1_outcome [OF wf None c this] show ?thesis .
  next
    case ds: (Some ds)
    show ?thesis
    proof (cases "PendingAcquire di name")
      case None
      with ds r c(1) wf(1) show ?thesis
        by (auto simp: AcquireDLock_def QuerySpecificState_abs [OF sm] intro: outcome_unchanged)
    next
      case (Some acq)
      let ?c2 = "LastAppendedNonce acq = ds_LockNonce ds \<and>
          lastProcessedAcquirement acq = lastAssignedAcquirement acq \<and> i64_less (ds_Timestamp ds + ds_Expire ds) ts"
      let ?c3 = "ds_LockNonce ds < LastAppendedNonce acq \<or>
          lastProcessedAcquirement acq < lastAssignedAcquirement acq \<or> i64_le ts (ds_Timestamp ds + ds_Expire ds)"
      have u: "AcquireDLock name ts command n di =
          (if ?c2 then AcquireDLock_case2 name ts command info ds acq ?n di
           else if ?c3 then AcquireDLock_case3 name ts command info acq ?n di
           else (Inl AcquireDLockUnexpectedError, ?n, di))"
        using c(1) ds Some by (simp add: AcquireDLock_def QuerySpecificState_abs [OF sm] Let_def)
      have nl: "\<not> lease_runs ts ds" if ?c2
        using that by (auto simp: lease_runs_def dest: i64_less_asym)
      consider (two) ?c2 | (three) "\<not> ?c2" ?c3 | (other) "\<not> ?c2" "\<not> ?c3" by blast
      then show ?thesis
      proof cases
        case two
        with u r have "AcquireDLock_case2 name ts command info ds acq ?n di = (r, n', di')" by simp
        from case2_outcome [OF wf Some ds _ nl [OF two] c this] two show ?thesis by blast
      next
        case three
        with u r have "AcquireDLock_case3 name ts command info acq ?n di = (r, n', di')" by simp
        from case3_outcome [OF sm wf Some c this] show ?thesis .
      next
        case other
        with u r have "n' = ?n" "di' = di" by simp_all
        with wf(1) show ?thesis by (simp add: outcome_unchanged)
      qed
    qed
  qed
qed

text \<open>Refreshing a waiting request.\<close>

theorem RefreshAcquirementBySequence_outcome:
  assumes "wf_Node n" "wf_Interchange (commitProcedure n) di" "counters_ok di name"
    and r: "RefreshAcquirementBySequence name client sequence ts n di = (r, n', di')"
  shows "outcome (why_served client ts) (commitProcedure n) di name n' di'"
proof (cases "PendingAcquire di name")
  case None
  with r assms(2) show ?thesis
    by (auto simp: RefreshAcquirementBySequence_def Let_def intro: outcome_unchanged)
next
  case (Some acq)
  let ?n = "commitProcedure n"
  have sm: "wf_LockMap (StateMapDLock ?n)" using wf_commitProcedure [OF assms(1)] by (rule wf_NodeD)
  note acq = wf_InterchangeD [OF assms(2) Some]
  obtain a where a: "AbandonExpiredAcquirement acq ts = (None, a)" "wf_Acquirement a"
      "LastAppendedNonce a = LastAppendedNonce acq" "va_LockName a = name"
    using AbandonExpired_spec [OF acq(1)] acq(2) by metis
  obtain e1 a1 where ra: "RefreshAcquirement a sequence ts = (e1, a1)" by fastforce
  have a1: "wf_Acquirement a1" "LastAppendedNonce a1 = LastAppendedNonce acq" "va_LockName a1 = name"
    using RefreshAcquirement_spec [OF a(2), where ts = ts and seq = sequence] ra a(3,4)
    by (auto simp: Let_def split: option.split_asm if_split_asm)
  have o1: "outcome (why_served client ts) ?n di name ?n (put_acq name a1 di)"
    by (rule outcome_quiet [OF assms(2) Some a1(1,3,2)])
  have ln: "last_nonce (put_acq name a1 di) name = last_nonce di name"
    using Some a1(2) by (simp add: last_nonce_def)
  show ?thesis
  proof (cases e1)
    case (Some er)
    with r a(1) ra \<open>PendingAcquire di name = Some acq\<close> o1 show ?thesis
      by (simp add: RefreshAcquirementBySequence_def Let_def)
  next
    case None
    obtain r1 where "refreshSpecificDLock name client ts ?n (put_acq name a1 di) = (r1, n', di')"
      using r a(1) ra None \<open>PendingAcquire di name = Some acq\<close>
      by (auto simp: RefreshAcquirementBySequence_def Let_def split: prod.splits sum.splits)
    moreover have "wf_Interchange ?n (put_acq name a1 di)" using o1 by (simp add: outcome_def)
    moreover have "last_nonce (put_acq name a1 di) name \<noteq> - 1"
      using ln last_nonce_room [OF assms(3)] by simp
    ultimately have "outcome (why_served client ts) ?n (put_acq name a1 di) name n' di'"
      using refresh_outcome [OF sm] by blast
    then show ?thesis by (rule outcome_via_put) (rule ln)
  qed
qed

definition why_released :: "bytes \<Rightarrow> i64 \<Rightarrow> LockInfo \<Rightarrow> DlockState option \<Rightarrow> bool" where
  "why_released applicant ts li st \<longleftrightarrow>
     (\<exists>ds. st = Some ds \<and> ds_Owner ds = applicant) \<and>
     li_NewOwner li = [] \<and> li_Timestamp li = ts \<and> li_Expire li = 0"

lemma abs_locks_wf:
  assumes "wf_LockMap sm" "abs_locks sm name = Some ds"
  shows "ds_LockName ds = name" "valid_utf8 name"
proof -
  obtain enc where enc: "StateMap sm name = Some enc" "unmarshal_DlockState enc = Some ds"
    using assms(2) by (auto simp: abs_locks_def bind_eq_Some_conv)
  with assms(1) show nm: "ds_LockName ds = name" by (fastforce simp: wf_LockMap_def)
  with state_codec.unmarshal_valid [OF enc(2)] show "valid_utf8 name" by (auto simp: valid_DlockState_def)
qed

text \<open>Releasing: only the owner of the committed state can, and it waits for uncommitted entries.\<close>

theorem ReleaseDLock_outcome:
  assumes "wf_Node n" "wf_Interchange (commitProcedure n) di" "counters_ok di name"
    and r: "ReleaseDLock name applicant ts n di = (r, n', di')"
  shows "outcome (why_released applicant ts) (commitProcedure n) di name n' di'"
proof -
  let ?n = "commitProcedure n"
  have sm: "wf_LockMap (StateMapDLock ?n)" using wf_commitProcedure [OF assms(1)] by (rule wf_NodeD)
  show ?thesis
  proof (cases "\<exists>ds a. abs_locks (StateMapDLock ?n) name = Some ds \<and> ds_Owner ds = applicant \<and>
      PendingAcquire di name = Some a \<and> \<not> ds_LockNonce ds < LastAppendedNonce a")
    case False
    then have "n' = ?n" "di' = di"
      using r by (auto simp: ReleaseDLock_def Let_def QuerySpecificState_abs [OF sm] split: option.splits if_splits)
    with assms(2) show ?thesis by (simp add: outcome_unchanged)
  next
    case True
    then obtain ds a where ds: "abs_locks (StateMapDLock ?n) name = Some ds" "ds_Owner ds = applicant"
        "PendingAcquire di name = Some a" "\<not> ds_LockNonce ds < LastAppendedNonce a" by blast
    note a = wf_InterchangeD [OF assms(2) ds(3)]
    have eq: "LastAppendedNonce a = ds_LockNonce ds" using a(3) [OF ds(1)] ds(4) by auto
    have ln: "last_nonce di name = ds_LockNonce ds" using ds(3) eq by (simp add: last_nonce_def)
    note nm = abs_locks_wf [OF sm ds(1)]
    let ?li = "\<lparr>li_LockNonce = ds_LockNonce ds + 1, li_LockName = name, li_NewOwner = [], li_Timestamp = ts, li_Expire = 0\<rparr>"
    obtain e where e: "constructLogEntryByItems (ds_LockNonce ds + 1) name [] ts 0 (node_term ?n)
          (MaximumIndex (LogEntryInMemory ?n) + 1) = Inr e"
        "wf_LogEntry e" "le_Index e = MaximumIndex (LogEntryInMemory ?n) + 1" "le_Term e = node_term ?n"
        "entry_LockInfo e = Some ?li"
      using constructLogEntryByItems_spec [OF nm(2) valid_utf8_Nil] by blast
    let ?a = "a\<lparr>LastAppendedNonce := LastAppendedNonce a + 1\<rparr>"
    have r': "n' = node_with_entry ?n e" "di' = put_acq name ?a di"
      using r ds e(1) nm(1)
      by (simp_all add: ReleaseDLock_def Let_def QuerySpecificState_abs [OF sm] InsertLogEntry_def node_with_entry_def)
    have ne: "next_entry ?n e ?li" using e by (simp add: next_entry_def MaximumIndex_def)
    have "pending ?a = pending a" by (rule pending_cong) simp_all
    then have a': "wf_Acquirement ?a" "va_LockName ?a = name" using a by (simp_all add: wf_Acquirement_def)
    show ?thesis
      unfolding r'
      by (rule outcome_grant [OF assms(2) ne _ _ last_nonce_room [OF assms(3)] a'])
         (use ds ln eq in \<open>simp_all add: why_released_def\<close>)
  qed
qed

subsection \<open>The scan for expired locks\<close>

text \<open>The locks the scan releases, and the entries it makes for them.\<close>

definition must_release :: "Node \<Rightarrow> DlockInterchange \<Rightarrow> i64 \<Rightarrow> bytes \<Rightarrow> bool" where
  "must_release n di ts name \<longleftrightarrow>
     (case abs_locks (StateMapDLock n) name of
        None \<Rightarrow> False
      | Some ds \<Rightarrow>
          (case PendingAcquire di name of None \<Rightarrow> True | Some a \<Rightarrow> LastAppendedNonce a \<le> ds_LockNonce ds) \<and>
          i64_less (ds_Timestamp ds + ds_Expire ds) ts \<and> ds_Owner ds \<noteq> [])"

definition release_info :: "Node \<Rightarrow> i64 \<Rightarrow> bytes \<Rightarrow> LockInfo" where
  "release_info n ts name =
     \<lparr>li_LockNonce = ds_LockNonce (the (abs_locks (StateMapDLock n) name)) + 1, li_LockName = name,
      li_NewOwner = [], li_Timestamp = ts, li_Expire = 0\<rparr>"

fun release_entries :: "Node \<Rightarrow> i64 \<Rightarrow> nat \<Rightarrow> bytes list \<Rightarrow> LogEntry list \<Rightarrow> bool" where
  "release_entries n ts k [] es \<longleftrightarrow> es = []"
| "release_entries n ts k (name # names) es \<longleftrightarrow>
     (case es of
        [] \<Rightarrow> False
      | e # es' \<Rightarrow>
          wf_LogEntry e \<and> le_Index e = maximumIndex (LogEntryInMemory n) + of_nat k + 1 \<and>
          le_Term e = node_term n \<and> entry_LockInfo e = Some (release_info n ts name) \<and>
          release_entries n ts (Suc k) names es')"

text \<open>The queue of a lock after the scan has looked at it.\<close>

definition scanned :: "Node \<Rightarrow> DlockInterchange \<Rightarrow> bytes \<Rightarrow> DlockVolatileAcquirement \<Rightarrow> bool" where
  "scanned n di name a \<longleftrightarrow>
     wf_Acquirement a \<and> va_LockName a = name \<and>
     LastAppendedNonce a = (case PendingAcquire di name of
                              None \<Rightarrow> ds_LockNonce (the (abs_locks (StateMapDLock n) name))
                            | Some a0 \<Rightarrow> LastAppendedNonce a0)"

lemma scan_step:
  assumes sm: "wf_LockMap (StateMapDLock n)" and wf: "wf_Interchange n di"
    and ds: "abs_locks (StateMapDLock n) name = Some ds"
  shows "\<exists>a e. scanned n di name a \<and>
    wf_LogEntry e \<and> le_Index e = maximumIndex (LogEntryInMemory n) + of_nat (length es) + 1 \<and>
    le_Term e = node_term n \<and> entry_LockInfo e = Some (release_info n ts name) \<and>
    scan_loop ts n (name # rest) di es =
      scan_loop ts n rest (put_acq name a di) (if must_release n di ts name then es @ [e] else es)"
proof -
  note nm = abs_locks_wf [OF sm ds]
  define p where "p = (case PendingAcquire di name of
      None \<Rightarrow> NewDlockVolatileAcquirement name (ds_LockNonce ds) | Some a \<Rightarrow> a)"
  have p: "wf_Acquirement p" "va_LockName p = name"
    using wf wf_Acquirement_new [of name "ds_LockNonce ds"]
    by (auto simp: p_def wf_Interchange_def NewDlockVolatileAcquirement_def split: option.split)
  obtain a where a: "AbandonExpiredAcquirement p ts = (None, a)" "wf_Acquirement a"
      "LastAppendedNonce a = LastAppendedNonce p" "va_LockName a = name"
    using AbandonExpired_spec [OF p(1)] p(2) by metis
  have sc: "scanned n di name a"
    using a ds by (auto simp: scanned_def p_def NewDlockVolatileAcquirement_def split: option.split)
  obtain e where e: "constructLogEntryByItems (ds_LockNonce ds + 1) name [] ts 0 (node_term n)
        (MaximumIndex (LogEntryInMemory n) + of_nat (length es) + 1) = Inr e"
      "wf_LogEntry e" "le_Index e = MaximumIndex (LogEntryInMemory n) + of_nat (length es) + 1"
      "le_Term e = node_term n" "entry_LockInfo e = Some (release_info n ts name)"
    using constructLogEntryByItems_spec [OF nm(2) valid_utf8_Nil] unfolding release_info_def ds option.sel by blast
  have mr: "must_release n di ts name \<longleftrightarrow> \<not> ds_LockNonce ds < LastAppendedNonce a \<and>
      i64_less (ds_Timestamp ds + ds_Expire ds) ts \<and> ds_Owner ds \<noteq> []"
    using ds a(3) by (auto simp: must_release_def p_def NewDlockVolatileAcquirement_def split: option.split)
  have "scan_loop ts n (name # rest) di es =
      scan_loop ts n rest (put_acq name a di) (if must_release n di ts name then es @ [e] else es)"
    using ds nm(1) a(1) e(1)
    by (simp add: QuerySpecificState_abs [OF sm] Let_def p_def [symmetric] mr)
  with sc e show ?thesis by (auto simp: MaximumIndex_def)
qed

lemma scanned_wf:
  assumes "wf_Interchange n di" "scanned n di name a" "abs_locks (StateMapDLock n) name = Some ds"
  shows "wf_Interchange n (put_acq name a di)"
  using assms by (auto simp: wf_Interchange_def scanned_def split: option.splits)

lemma scan_loop_spec:
  assumes sm: "wf_LockMap (StateMapDLock n)"
  shows "wf_Interchange n di \<Longrightarrow> distinct order \<Longrightarrow>
    \<forall>name \<in> set order. abs_locks (StateMapDLock n) name \<noteq> None \<Longrightarrow>
    \<exists>new di'. scan_loop ts n order di es = (Inr (es @ new), di') \<and> wf_Interchange n di' \<and>
      release_entries n ts (length es) (filter (must_release n di ts) order) new \<and>
      (\<forall>name. if name \<in> set order then \<exists>a. PendingAcquire di' name = Some a \<and> scanned n di name a
              else PendingAcquire di' name = PendingAcquire di name)"
proof (induction order arbitrary: di es)
  case (Cons name rest)
  then obtain ds where ds: "abs_locks (StateMapDLock n) name = Some ds" by auto
  obtain a e where a: "scanned n di name a" and e: "wf_LogEntry e"
      "le_Index e = maximumIndex (LogEntryInMemory n) + of_nat (length es) + 1"
      "le_Term e = node_term n" "entry_LockInfo e = Some (release_info n ts name)"
    and st: "scan_loop ts n (name # rest) di es =
      scan_loop ts n rest (put_acq name a di) (if must_release n di ts name then es @ [e] else es)"
    using scan_step [OF sm Cons.prems(1) ds] by blast
  let ?di = "put_acq name a di" and ?es = "if must_release n di ts name then es @ [e] else es"
  obtain new di' where IH: "scan_loop ts n rest ?di ?es = (Inr (?es @ new), di')" "wf_Interchange n di'"
      "release_entries n ts (length ?es) (filter (must_release n ?di ts) rest) new"
      "\<forall>m. if m \<in> set rest then \<exists>a. PendingAcquire di' m = Some a \<and> scanned n ?di m a
           else PendingAcquire di' m = PendingAcquire ?di m"
    using Cons.IH [OF scanned_wf [OF Cons.prems(1) a ds]] Cons.prems(2,3) by force
  have other: "must_release n ?di ts m = must_release n di ts m" "scanned n ?di m = scanned n di m"
    if "m \<in> set rest" for m
  proof -
    have pm: "PendingAcquire ?di m = PendingAcquire di m" using that Cons.prems(2) by auto
    show "must_release n ?di ts m = must_release n di ts m" "scanned n ?di m = scanned n di m"
      unfolding must_release_def scanned_def fun_eq_iff pm by simp_all
  qed
  have flt: "filter (must_release n ?di ts) rest = filter (must_release n di ts) rest"
    using other(1) by (rule filter_cong [OF refl])
  let ?new = "(if must_release n di ts name then e # new else new)"
  have "scan_loop ts n (name # rest) di es = (Inr (es @ ?new), di')"
    using st IH(1) by simp
  moreover have "release_entries n ts (length es) (filter (must_release n di ts) (name # rest)) ?new"
    using IH(3) e flt by (auto split: if_splits)
  moreover have "if m \<in> set (name # rest) then \<exists>a. PendingAcquire di' m = Some a \<and> scanned n di m a
      else PendingAcquire di' m = PendingAcquire di m" for m
    using IH(4) other(2) [of m] a Cons.prems(2) by (cases "m = name") (auto split: if_splits)
  ultimately show ?case using IH(2) by blast
qed simp

lemma entry_LockInfo_raw:
  assumes "entry_LockInfo e = Some li"
  shows "\<exists>c. NewCommandFromRaw ''DLock'' (e_CommandContent (le_Entry e)) = Some (CommandDLock c) \<and> GetAsDLockInfo c = Inr li"
  using assms by (auto simp: entry_LockInfo_def NewCommandFromRaw_def split: if_splits sum.splits)

lemma bump_loop_spec:
  assumes "release_entries n ts k names es" "distinct names"
    "\<forall>name \<in> set names. PendingAcquire di name \<noteq> None"
  shows "\<exists>di'. bump_loop es di = (None, di') \<and>
    (\<forall>name. PendingAcquire di' name =
       (if name \<in> set names then map_option (\<lambda>a. a\<lparr>LastAppendedNonce := LastAppendedNonce a + 1\<rparr>) (PendingAcquire di name)
        else PendingAcquire di name))"
  using assms
proof (induction names arbitrary: k es di)
  case (Cons name names)
  then obtain e es' where es: "es = e # es'" "entry_LockInfo e = Some (release_info n ts name)"
      "release_entries n ts (Suc k) names es'"
    by (auto split: list.splits)
  obtain c where c: "NewCommandFromRaw ''DLock'' (e_CommandContent (le_Entry e)) = Some (CommandDLock c)"
      "GetAsDLockInfo c = Inr (release_info n ts name)"
    using entry_LockInfo_raw [OF es(2)] by blast
  obtain a where a: "PendingAcquire di name = Some a" using Cons.prems(3) by auto
  have nm: "li_LockName (release_info n ts name) = name" by (simp add: release_info_def)
  let ?di = "put_acq name (a\<lparr>LastAppendedNonce := LastAppendedNonce a + 1\<rparr>) di"
  have step: "bump_loop es di = bump_loop es' ?di" using es(1) c a nm by simp
  have pre: "\<forall>m \<in> set names. PendingAcquire ?di m \<noteq> None" using Cons.prems(3) by simp
  obtain di' where "bump_loop es' ?di = (None, di')"
      "\<forall>m. PendingAcquire di' m =
       (if m \<in> set names then map_option (\<lambda>a. a\<lparr>LastAppendedNonce := LastAppendedNonce a + 1\<rparr>) (PendingAcquire ?di m)
        else PendingAcquire ?di m)"
    using Cons.IH [OF es(3) _ pre] Cons.prems(2) by auto
  with step a Cons.prems(2) show ?case by auto
qed simp

text \<open>Entries with consecutive indexes are appended without holes.\<close>

lemma append_entries_wf:
  assumes "wf_LogMemory lm" "contiguous lm" "unat (maximumIndex lm) + length es < 2 ^ 64"
    and "\<forall>i < length es. wf_LogEntry (es ! i) \<and> le_Index (es ! i) = maximumIndex lm + of_nat i + 1"
  shows "wf_LogMemory (foldl put_entry lm es) \<and> contiguous (foldl put_entry lm es) \<and>
    maximumIndex (foldl put_entry lm es) = maximumIndex lm + of_nat (length es)"
  using assms
proof (induction es arbitrary: lm)
  case (Cons e es)
  have e: "wf_LogEntry e" "le_Index e = maximumIndex lm + 1" using Cons.prems(4) by fastforce+
  have u: "unat (maximumIndex lm + 1) = Suc (unat (maximumIndex lm))"
    using Cons.prems(3) by (simp add: unat_word_ariths)
  have lt: "maximumIndex lm < maximumIndex lm + 1" using u by (simp add: word_less_nat_alt)
  have mx: "maximumIndex (put_entry lm e) = maximumIndex lm + 1" using e(2) lt by (simp add: max_def)
  have tl: "\<forall>i < length es. wf_LogEntry (es ! i) \<and> le_Index (es ! i) = maximumIndex (put_entry lm e) + of_nat i + 1"
  proof (intro allI impI)
    fix i assume "i < length es"
    then show "wf_LogEntry (es ! i) \<and> le_Index (es ! i) = maximumIndex (put_entry lm e) + of_nat i + 1"
      using Cons.prems(4) [rule_format, of "Suc i"] mx by (simp add: algebra_simps)
  qed
  have "wf_LogMemory (put_entry lm e)" "contiguous (put_entry lm e)"
    using wf_put_entry contiguous_append Cons.prems(1,2) e lt by blast+
  from Cons.IH [OF this _ tl] Cons.prems(3) u mx show ?case by (simp add: algebra_simps)
qed simp

lemma release_entries_nth:
  assumes "release_entries n ts k names es"
  shows "length es = length names" "i < length es \<Longrightarrow>
    wf_LogEntry (es ! i) \<and> le_Index (es ! i) = maximumIndex (LogEntryInMemory n) + of_nat (k + i) + 1 \<and>
    le_Term (es ! i) = node_term n \<and> entry_LockInfo (es ! i) = Some (release_info n ts (names ! i))"
  using assms
proof (induction names arbitrary: k es i)
  case (Cons name names)
  {
    case 1
    with Cons.IH(1) show ?case by (auto split: list.splits)
  next
    case 2
    with Cons.IH(2) show ?case by (cases i) (fastforce split: list.splits)+
  }
qed simp_all

text \<open>
  The whole scan, on a state map enumerated in any order: it succeeds, appends one release entry
  for each lock whose lease has run out, that has an owner and no uncommitted entry, and leaves
  every lock with a queue.
\<close>

definition enumerates :: "bytes list \<Rightarrow> Node \<Rightarrow> bool" where
  "enumerates order n \<longleftrightarrow> distinct order \<and> set order = dom (StateMap (StateMapDLock n))"

lemma dom_abs_locks: "wf_LockMap sm \<Longrightarrow> dom (abs_locks sm) = dom (StateMap sm)"
  by (auto simp: abs_locks_def wf_LockMap_def bind_eq_Some_conv) blast

lemma released_nonce:
  assumes "wf_Interchange n di" "must_release n di ts name" "abs_locks (StateMapDLock n) name = Some ds" "scanned n di name a"
  shows "LastAppendedNonce a = ds_LockNonce ds"
proof (cases "PendingAcquire di name")
  case None
  with assms(3,4) show ?thesis by (simp add: scanned_def)
next
  case (Some a0)
  then have "LastAppendedNonce a0 \<le> ds_LockNonce ds" "LastAppendedNonce a = LastAppendedNonce a0"
    using assms(2-4) by (simp_all add: must_release_def scanned_def)
  with wf_InterchangeD(3) [OF assms(1) Some assms(3)] show ?thesis by simp
qed

text \<open>The two phases of a scan: collecting the entries, then counting them.\<close>

definition scan_found :: "Node \<Rightarrow> DlockInterchange \<Rightarrow> DlockInterchange \<Rightarrow> bool" where
  "scan_found n di di1 \<longleftrightarrow>
     (\<forall>name. if abs_locks (StateMapDLock n) name \<noteq> None then \<exists>a. PendingAcquire di1 name = Some a \<and> scanned n di name a
             else PendingAcquire di1 name = PendingAcquire di name)"

definition scan_bumped :: "Node \<Rightarrow> DlockInterchange \<Rightarrow> i64 \<Rightarrow> DlockInterchange \<Rightarrow> DlockInterchange \<Rightarrow> bool" where
  "scan_bumped n di ts di1 di2 \<longleftrightarrow>
     (\<forall>name. PendingAcquire di2 name =
       (if must_release n di ts name then map_option (\<lambda>a. a\<lparr>LastAppendedNonce := LastAppendedNonce a + 1\<rparr>) (PendingAcquire di1 name)
        else PendingAcquire di1 name))"

lemma scan_foundD:
  assumes "scan_found n di di1"
  shows "abs_locks (StateMapDLock n) name = Some ds \<Longrightarrow> \<exists>a. PendingAcquire di1 name = Some a \<and> scanned n di name a"
    "abs_locks (StateMapDLock n) name = None \<Longrightarrow> PendingAcquire di1 name = PendingAcquire di name"
  using assms [unfolded scan_found_def, rule_format, of name] by simp_all

lemma scan_bumpedD:
  assumes "scan_bumped n di ts di1 di2"
  shows "must_release n di ts name \<Longrightarrow>
      PendingAcquire di2 name = map_option (\<lambda>a. a\<lparr>LastAppendedNonce := LastAppendedNonce a + 1\<rparr>) (PendingAcquire di1 name)"
    "\<not> must_release n di ts name \<Longrightarrow> PendingAcquire di2 name = PendingAcquire di1 name"
  using assms [unfolded scan_bumped_def, rule_format, of name] by simp_all

lemma scan_phases:
  assumes sm: "wf_LockMap (StateMapDLock n)" and wf: "wf_Interchange n di" and order: "enumerates order n"
  obtains es di1 di2 where
    "scanDLockStateMap order ts n di =
      (None, (if length es \<noteq> 0 then upd_ctx TriggerAEChannel (n\<lparr>LogEntryInMemory := foldl put_entry (LogEntryInMemory n) es\<rparr>)
              else n\<lparr>LogEntryInMemory := foldl put_entry (LogEntryInMemory n) es\<rparr>), di2)"
    "release_entries n ts 0 (filter (must_release n di ts) order) es" "wf_Interchange n di1"
    "scan_found n di di1"
    "scan_bumped n di ts di1 di2"
proof -
  let ?names = "filter (must_release n di ts) order"
  have locks: "name \<in> set order \<longleftrightarrow> abs_locks (StateMapDLock n) name \<noteq> None" for name
    using order dom_abs_locks [OF sm] by (auto simp: enumerates_def)
  then have names: "name \<in> set ?names \<longleftrightarrow> must_release n di ts name" for name
    by (auto simp: must_release_def split: option.splits)
  have dist: "distinct order" "distinct ?names" using order by (simp_all add: enumerates_def)
  obtain es di1 where s: "scan_loop ts n order di [] = (Inr es, di1)" "wf_Interchange n di1"
      "release_entries n ts 0 ?names es"
      "\<forall>name. if name \<in> set order then \<exists>a. PendingAcquire di1 name = Some a \<and> scanned n di name a
              else PendingAcquire di1 name = PendingAcquire di name"
    using scan_loop_spec [OF sm wf dist(1), of ts "[]"] locks by auto
  have found: "scan_found n di di1" using s(4) by (simp add: scan_found_def locks)
  have "\<forall>name \<in> set ?names. PendingAcquire di1 name \<noteq> None"
  proof
    fix name assume "name \<in> set ?names"
    then have "abs_locks (StateMapDLock n) name \<noteq> None" using locks by simp
    then show "PendingAcquire di1 name \<noteq> None" using scan_foundD(1) [OF found] by fastforce
  qed
  from bump_loop_spec [OF s(3) dist(2) this]
  obtain di2 where b: "bump_loop es di1 = (None, di2)"
      "\<forall>name. PendingAcquire di2 name =
       (if name \<in> set ?names then map_option (\<lambda>a. a\<lparr>LastAppendedNonce := LastAppendedNonce a + 1\<rparr>) (PendingAcquire di1 name)
        else PendingAcquire di1 name)"
    by blast
  have "scan_bumped n di ts di1 di2" using b(2) unfolding scan_bumped_def names .
  then show thesis
    by (intro that [OF _ s(3,2) found]) (simp_all add: scanDLockStateMap_def s(1) b(1) InsertValidEntryList_Some Let_def)
qed

text \<open>The nonce the scan goes by, and what it makes of it.\<close>

definition seen_nonce :: "Node \<Rightarrow> DlockInterchange \<Rightarrow> bytes \<Rightarrow> u32" where
  "seen_nonce n di name =
     (case PendingAcquire di name of
        Some a \<Rightarrow> LastAppendedNonce a
      | None \<Rightarrow> (case abs_locks (StateMapDLock n) name of None \<Rightarrow> 0 | Some ds \<Rightarrow> ds_LockNonce ds))"

lemma scan_nonces:
  assumes "wf_LockMap (StateMapDLock n)" "wf_Interchange n di" "enumerates order n"
    and "scanDLockStateMap order ts n di = (r, n', di')"
  shows "last_nonce di' name = seen_nonce n di name + (if must_release n di ts name then 1 else 0)"
proof -
  obtain di1 where f: "scan_found n di di1" and b: "scan_bumped n di ts di1 di'"
    by (rule scan_phases [OF assms(1-3), of ts]) (use assms(4) in auto)
  show ?thesis
  proof (cases "abs_locks (StateMapDLock n) name")
    case None
    then have "\<not> must_release n di ts name" by (simp add: must_release_def)
    with scan_foundD(2) [OF f None] scan_bumpedD(2) [OF b] None show ?thesis
      by (simp add: last_nonce_def seen_nonce_def split: option.split)
  next
    case (Some ds)
    obtain a where "PendingAcquire di1 name = Some a" "scanned n di name a" using scan_foundD(1) [OF f Some] by blast
    with scan_bumpedD [OF b, of name] Some show ?thesis
      by (cases "must_release n di ts name") (auto simp: last_nonce_def seen_nonce_def scanned_def split: option.splits)
  qed
qed

lemma scan_wf_Interchange:
  assumes "wf_Interchange n di" "wf_Interchange n di1"
    and found: "scan_found n di di1"
    and bumped: "scan_bumped n di ts di1 di2"
    and room: "\<forall>name ds. abs_locks (StateMapDLock n) name = Some ds \<longrightarrow> ds_LockNonce ds \<noteq> - 1"
  shows "wf_Interchange n di2"
  unfolding wf_Interchange_def
proof (intro allI impI)
  fix name a assume a: "PendingAcquire di2 name = Some a"
  show "wf_Acquirement a \<and> va_LockName a = name \<and>
    (\<forall>ds. abs_locks (StateMapDLock n) name = Some ds \<longrightarrow> ds_LockNonce ds \<le> LastAppendedNonce a)"
  proof (cases "must_release n di ts name")
    case False
    with a scan_bumpedD(2) [OF bumped] have "PendingAcquire di1 name = Some a" by simp
    from wf_InterchangeD [OF assms(2) this] show ?thesis by blast
  next
    case True
    then obtain ds where ds: "abs_locks (StateMapDLock n) name = Some ds" by (auto simp: must_release_def split: option.splits)
    then obtain a0 where a0: "PendingAcquire di1 name = Some a0" "scanned n di name a0"
        "a = a0\<lparr>LastAppendedNonce := LastAppendedNonce a0 + 1\<rparr>"
      using a scan_bumpedD(1) [OF bumped True] scan_foundD(1) [OF found ds] by auto
    have "pending a = pending a0" unfolding a0(3) by (rule pending_cong) simp_all
    moreover have "LastAppendedNonce a = ds_LockNonce ds + 1"
      using released_nonce [OF assms(1) True ds a0(2)] a0(3) by simp
    moreover have "ds_LockNonce ds \<le> ds_LockNonce ds + 1"
      using room ds word_le_plus_1 [of "ds_LockNonce ds" "ds_LockNonce ds"] by simp
    ultimately show ?thesis
      using wf_InterchangeD [OF assms(2) a0(1)] a0(3) ds by (simp add: wf_Acquirement_def)
  qed
qed

theorem scanDLockStateMap_spec:
  assumes wf: "wf_Node n" "wf_Interchange n di" and order: "enumerates order n"
    and room: "unat (maximumIndex (LogEntryInMemory n)) + length order < 2 ^ 64"
      "\<forall>name ds. abs_locks (StateMapDLock n) name = Some ds \<longrightarrow> ds_LockNonce ds \<noteq> - 1"
  shows "\<exists>es n' di'. scanDLockStateMap order ts n di = (None, n', di') \<and>
    release_entries n ts 0 (filter (must_release n di ts) order) es \<and>
    LogEntryInMemory n' = foldl put_entry (LogEntryInMemory n) es \<and>
    StateMapDLock n' = StateMapDLock n \<and> wf_Node n' \<and> wf_Interchange n' di' \<and>
    (\<forall>name ds. abs_locks (StateMapDLock n) name = Some ds \<longrightarrow>
       (\<exists>a. PendingAcquire di' name = Some a \<and>
          (must_release n di ts name \<longrightarrow> LastAppendedNonce a = ds_LockNonce ds + 1)))"
proof -
  note sm = wf_NodeD(3) [OF wf(1)]
  obtain es di1 di2 n' where r: "scanDLockStateMap order ts n di = (None, n', di2)"
      and es: "release_entries n ts 0 (filter (must_release n di ts) order) es"
      and n': "n' = (if length es \<noteq> 0 then upd_ctx TriggerAEChannel (n\<lparr>LogEntryInMemory := foldl put_entry (LogEntryInMemory n) es\<rparr>)
              else n\<lparr>LogEntryInMemory := foldl put_entry (LogEntryInMemory n) es\<rparr>)"
      and di1: "wf_Interchange n di1"
      and found: "scan_found n di di1"
      and bumped: "scan_bumped n di ts di1 di2"
    by (rule scan_phases [OF sm wf(2) order, of ts]) blast
  have f: "LogEntryInMemory n' = foldl put_entry (LogEntryInMemory n) es" "StateMapDLock n' = StateMapDLock n"
      "CommitIndex (NodeContextInstance n') = node_commit n"
      "LastAppliedIndex (NodeContextInstance n') = LastAppliedIndex (NodeContextInstance n)"
    by (simp_all add: n')
  have "length es \<le> length order" using release_entries_nth(1) [OF es] by simp
  then have lg: "wf_LogMemory (foldl put_entry (LogEntryInMemory n) es)" "contiguous (foldl put_entry (LogEntryInMemory n) es)"
    using append_entries_wf [OF wf_NodeD(1,2) [OF wf(1)], of es] release_entries_nth(2) [OF es] room(1) by auto
  have "maximumIndex (LogEntryInMemory n) \<le> maximumIndex (foldl put_entry (LogEntryInMemory n) es)"
    by (rule mem.top_put_all_ge)
  with wf_NodeD [OF wf(1)] lg f have "wf_Node n'" by (auto simp: wf_Node_def)
  moreover have "wf_Interchange n' di2"
    using scan_wf_Interchange [OF wf(2) di1 found bumped room(2)] f(2) by (simp add: wf_Interchange_def)
  moreover have "\<exists>a. PendingAcquire di2 name = Some a \<and>
      (must_release n di ts name \<longrightarrow> LastAppendedNonce a = ds_LockNonce ds + 1)"
    if ds: "abs_locks (StateMapDLock n) name = Some ds" for name ds
  proof -
    obtain a0 where a0: "PendingAcquire di1 name = Some a0" "scanned n di name a0" using scan_foundD(1) [OF found ds] by blast
    show ?thesis
      using scan_bumpedD [OF bumped, of name] a0(1) released_nonce [OF wf(2) _ ds a0(2)]
      by (cases "must_release n di ts name") auto
  qed
  ultimately show ?thesis using r es f(1,2) by blast
qed

subsection \<open>The contract the three lock operations share\<close>

text \<open>
  Acquiring, refreshing and releasing keep the same contract towards the log and the replicated
  state: \<open>outcome\<close>, with their own reason \<open>why\<close>. The consequences the servers and the other
  theories rely on follow from it alone.
\<close>

locale lock_operation =
  fixes perform :: "Node \<Rightarrow> DlockInterchange \<Rightarrow> (go_error + 'r) \<times> Node \<times> DlockInterchange"
    and name :: bytes
    and why :: "LockInfo \<Rightarrow> DlockState option \<Rightarrow> bool"
    and pre :: bool
  assumes perform_outcome: "pre \<Longrightarrow> wf_Node n \<Longrightarrow> wf_Interchange (commitProcedure n) di \<Longrightarrow> counters_ok di name \<Longrightarrow>
    perform n di = (r, n', di') \<Longrightarrow> outcome why (commitProcedure n) di name n' di'"
begin

text \<open>A lock with an uncommitted entry gets no other one.\<close>

lemma one_uncommitted:
  assumes "pre" "wf_Node n" "wf_Interchange (commitProcedure n) di" "counters_ok di name" "perform n di = (r, n', di')"
    and "abs_locks (StateMapDLock (commitProcedure n)) name = Some ds" "ds_LockNonce ds \<noteq> last_nonce di name"
  shows "n' = commitProcedure n"
  using perform_outcome [OF assms(1-5)] assms(6,7) by (auto simp: outcome_def)

text \<open>The log only grows, by one entry at most, and its old entries stay.\<close>

lemma log_extended:
  assumes "pre" "wf_Node n" "wf_Interchange (commitProcedure n) di" "counters_ok di name" "perform n di = (r, n', di')"
    and "i \<le> maximumIndex (LogEntryInMemory n)" "maximumIndex (LogEntryInMemory n) \<noteq> - 1"
  shows "logInMemory (LogEntryInMemory n') i = logInMemory (LogEntryInMemory n) i"
    "maximumIndex (LogEntryInMemory n') \<in> {maximumIndex (LogEntryInMemory n), maximumIndex (LogEntryInMemory n) + 1}"
proof -
  note o = perform_outcome [OF assms(1-5)]
  have lt: "maximumIndex (LogEntryInMemory n) < maximumIndex (LogEntryInMemory n) + 1"
    by (rule word_less_plus_1 [OF assms(7)])
  then have ne: "i \<noteq> maximumIndex (LogEntryInMemory n) + 1" using assms(6) by auto
  show "logInMemory (LogEntryInMemory n') i = logInMemory (LogEntryInMemory n) i"
    "maximumIndex (LogEntryInMemory n') \<in> {maximumIndex (LogEntryInMemory n), maximumIndex (LogEntryInMemory n) + 1}"
    using o lt ne by (auto simp: outcome_def next_entry_def put_entry_def max_def)
qed

lemma well_formed_after:
  assumes "pre" "wf_Node n" "wf_Interchange (commitProcedure n) di" "counters_ok di name" "perform n di = (r, n', di')"
    and "maximumIndex (LogEntryInMemory n) \<noteq> - 1"
  shows "wf_Node n'" "wf_Interchange n' di'" "StateMapDLock n' = StateMapDLock (commitProcedure n)"
    "node_term n' = node_term n" "node_commit n' = node_commit n"
proof -
  note o = perform_outcome [OF assms(1-5)]
  show "wf_Interchange n' di'" "StateMapDLock n' = StateMapDLock (commitProcedure n)"
    "node_term n' = node_term n" "node_commit n' = node_commit n"
    using o by (auto simp: outcome_def)
  show "wf_Node n'"
    using o wf_commitProcedure [OF assms(2)] assms(6) by (auto simp: outcome_def intro: wf_node_with_entry)
qed

text \<open>The entries two operations append for the lock carry different, increasing nonces.\<close>

lemma nonce_next:
  assumes "pre" "wf_Node n" "wf_Interchange (commitProcedure n) di" "counters_ok di name" "perform n di = (r, n', di')"
    and "n' \<noteq> commitProcedure n"
  obtains e li where "n' = node_with_entry (commitProcedure n) e" "entry_LockInfo e = Some li" "li_LockName li = name"
    "li_LockNonce li = last_nonce di name + 1" "last_nonce di' name = li_LockNonce li"
    "why li (abs_locks (StateMapDLock (commitProcedure n)) name)"
  using perform_outcome [OF assms(1-5)] assms(6) by (auto simp: outcome_def next_entry_def)

end

definition is_request :: "bytes \<Rightarrow> bytes \<Rightarrow> Command \<Rightarrow> bool" where
  "is_request name client command \<longleftrightarrow>
     wf_command (CommandDLock command) \<and>
     (case GetAsDLockInfo command of
        Inl _ \<Rightarrow> False
      | Inr info \<Rightarrow> li_LockName info = name \<and> li_NewOwner info = client)"

lemma is_request_new:
  "valid_utf8 name \<Longrightarrow> valid_utf8 client \<Longrightarrow> is_request name client (NewCommandDLock nonce name client ts ex)"
  by (simp add: is_request_def GetAsDLockInfo_NewCommandDLock)

interpretation acquire_op: lock_operation "AcquireDLock name ts command" name "why_served client ts"
  "is_request name client command" for name client ts command
proof
  fix n di r n' di'
  assume c: "is_request name client command" and wf: "wf_Node n" "wf_Interchange (commitProcedure n) di" "counters_ok di name"
    and r: "AcquireDLock name ts command n di = (r, n', di')"
  obtain info where "GetAsDLockInfo command = Inr info" "li_LockName info = name" "li_NewOwner info = client"
      "wf_command (CommandDLock command)"
    using c by (auto simp: is_request_def split: sum.splits)
  with AcquireDLock_outcome [OF wf _ _ _ r] show "outcome (why_served client ts) (commitProcedure n) di name n' di'"
    by blast
qed

interpretation refresh_op: lock_operation "RefreshAcquirementBySequence name client sequence ts" name
  "why_served client ts" True for name client sequence ts
  by unfold_locales (rule RefreshAcquirementBySequence_outcome)

interpretation release_op: lock_operation "ReleaseDLock name applicant ts" name "why_released applicant ts" True
  for name applicant ts
  by unfold_locales (rule ReleaseDLock_outcome)

subsection \<open>A free lock is given away at once\<close>

lemma acquire_free_step:
  assumes sm: "wf_LockMap (StateMapDLock (commitProcedure n))"
    and ds: "abs_locks (StateMapDLock (commitProcedure n)) name = Some ds"
    and acq: "PendingAcquire di name = Some a" "LastAppendedNonce a = ds_LockNonce ds"
      "lastProcessedAcquirement a = lastAssignedAcquirement a"
    and free: "i64_less (ds_Timestamp ds + ds_Expire ds) ts"
    and c: "GetAsDLockInfo command = Inr info"
  shows "AcquireDLock name ts command n di = AcquireDLock_case2 name ts command info ds a (commitProcedure n) di"
  unfolding AcquireDLock_def Let_def c sum.case QuerySpecificState_abs [OF sm] ds option.case acq(1)
  using acq(2,3) free by simp

lemma AcquireDLock_free:
  assumes "wf_Node n" "abs_locks (StateMapDLock (commitProcedure n)) name = Some ds"
    and "PendingAcquire di name = Some a" "LastAppendedNonce a = ds_LockNonce ds"
      "lastProcessedAcquirement a = lastAssignedAcquirement a"
    and "i64_less (ds_Timestamp ds + ds_Expire ds) ts" "is_request name client command"
  shows "\<exists>e li. AcquireDLock name ts command n di =
      (Inr (0, ds_LockNonce ds + 1), node_with_entry (commitProcedure n) e,
       put_acq name (a\<lparr>LastAppendedNonce := LastAppendedNonce a + 1\<rparr>) di) \<and>
    next_entry (commitProcedure n) e li \<and> li_LockName li = name \<and> li_NewOwner li = client \<and>
    li_Timestamp li = ts \<and> li_LockNonce li = ds_LockNonce ds + 1"
proof -
  let ?n = "commitProcedure n"
  have sm: "wf_LockMap (StateMapDLock ?n)" using wf_commitProcedure [OF assms(1)] by (rule wf_NodeD)
  obtain info where c: "GetAsDLockInfo command = Inr info" "li_LockName info = name" "li_NewOwner info = client"
      "wf_command (CommandDLock command)"
    using assms(7) by (auto simp: is_request_def split: sum.splits)
  let ?li = "info\<lparr>li_LockNonce := ds_LockNonce ds + 1, li_Timestamp := ts\<rparr>"
  have v: "valid_LockInfo ?li" using GetAsDLockInfo_valid [OF c(1)] by (simp add: valid_LockInfo_def)
  have g: "GetAsDLockInfo (SetAsDLockInfo ?li command) = Inr ?li" "wf_command (CommandDLock (SetAsDLockInfo ?li command))"
    using c(4) v by (simp_all add: GetAsDLockInfo_SetAsDLockInfo wf_command_SetAsDLockInfo)
  obtain e where e: "append_command (SetAsDLockInfo ?li command) ?n = (None, ?n\<lparr>LogEntryInMemory := put_entry (LogEntryInMemory ?n) e\<rparr>)"
      "next_entry ?n e ?li"
    using append_command_spec [OF g(2,1)] .
  have "AcquireDLock name ts command n di = (Inr (0, ds_LockNonce ds + 1), node_with_entry ?n e,
       put_acq name (a\<lparr>LastAppendedNonce := LastAppendedNonce a + 1\<rparr>) di)"
    unfolding acquire_free_step [OF sm assms(2-6) c(1)] using e(1)
    by (simp add: AcquireDLock_case2_def Let_def node_with_entry_def)
  with e(2) c(2,3) show ?thesis by (intro exI [of _ e] exI [of _ ?li]) simp
qed

subsection \<open>Releasing by the owner, serving the head of the queue\<close>

lemma ReleaseDLock_owner:
  assumes "wf_Node n" "abs_locks (StateMapDLock (commitProcedure n)) name = Some ds" "ds_Owner ds = applicant"
    and "PendingAcquire di name = Some a" "LastAppendedNonce a = ds_LockNonce ds"
  shows "\<exists>e li. ReleaseDLock name applicant ts n di =
      (Inr (TriggerReleaseSuccess, ds_LockNonce ds + 1), node_with_entry (commitProcedure n) e,
       put_acq name (a\<lparr>LastAppendedNonce := LastAppendedNonce a + 1\<rparr>) di) \<and>
    next_entry (commitProcedure n) e li \<and> li_LockName li = name \<and> li_NewOwner li = [] \<and> li_Expire li = 0 \<and>
    li_LockNonce li = ds_LockNonce ds + 1"
proof -
  have sm: "wf_LockMap (StateMapDLock (commitProcedure n))" using wf_NodeD(3) [OF wf_commitProcedure [OF assms(1)]] .
  note name = abs_locks_wf [OF sm assms(2)]
  have query: "QuerySpecificState_DLock (StateMapDLock (commitProcedure n)) name = Inr ds"
    using QuerySpecificState_abs [OF sm] assms(2) by simp
  obtain e where e: "constructLogEntryByItems (ds_LockNonce ds + 1) name [] ts 0 (node_term n)
        (maximumIndex (LogEntryInMemory n) + 1) = Inr e" "wf_LogEntry e"
      "le_Index e = maximumIndex (LogEntryInMemory n) + 1" "le_Term e = node_term n"
      "entry_LockInfo e = Some \<lparr>li_LockNonce = ds_LockNonce ds + 1, li_LockName = name, li_NewOwner = [],
         li_Timestamp = ts, li_Expire = 0\<rparr>"
    using constructLogEntryByItems_spec [OF name(2) valid_utf8_Nil] by blast
  then show ?thesis
    using assms query name
    by (auto simp: ReleaseDLock_def Let_def InsertLogEntry_def MaximumIndex_def node_with_entry_def next_entry_def)
qed

lemma dropWhile_Cons_head: "dropWhile P xs = x # ys \<Longrightarrow> \<not> P x"
  by (metis hd_dropWhile list.distinct(1) list.sel(1))

text \<open>
  A client that waits at the head of the queue gets the lock with its next refresh after the lease
  has run out, if the last appended nonce is committed and its request does not expire at once.
\<close>

lemma RefreshAcquirementBySequence_head:
  assumes n: "wf_Node n" "abs_locks (StateMapDLock (commitProcedure n)) name = Some ds"
    and a: "PendingAcquire di name = Some a" "wf_Acquirement a" "va_LockName a = name" "LastAppendedNonce a = ds_LockNonce ds"
    and q: "dropWhile (\<lambda>p. acq_expired ts (snd p)) (pending a) = (sequence, info) # rest" "Acquirer info = client"
      "\<not> acq_expired ts (info\<lparr>LastRefreshedTimestamp := ts\<rparr>)"
    and free: "\<not> lease_runs ts ds"
  shows "\<exists>e li di'. RefreshAcquirementBySequence name client sequence ts n di =
      (Inr (True, ds_LockNonce ds + 1), node_with_entry (commitProcedure n) e, di') \<and>
    next_entry (commitProcedure n) e li \<and> li_LockName li = name \<and> li_NewOwner li = client \<and>
    li_Timestamp li = ts \<and> li_LockNonce li = ds_LockNonce ds + 1"
proof -
  let ?P = "\<lambda>p :: u32 \<times> DlockAcquirementInfo. acq_expired ts (snd p)"
  have sm: "wf_LockMap (StateMapDLock (commitProcedure n))" using wf_NodeD(3) [OF wf_commitProcedure [OF n(1)]] .
  have query: "QuerySpecificState_DLock (StateMapDLock (commitProcedure n)) name = Inr ds"
    using QuerySpecificState_abs [OF sm] n(2) by simp
  obtain a1 where a1: "AbandonExpiredAcquirement a ts = (None, a1)" "wf_Acquirement a1"
      "pending a1 = (sequence, info) # rest" "LastAppendedNonce a1 = LastAppendedNonce a" "va_LockName a1 = va_LockName a"
    by (rule AbandonExpired_spec [OF a(2), of ts]) (use q(1) in auto)
  have fresh: "\<not> acq_expired ts info" using dropWhile_Cons_head [OF q(1)] by simp
  obtain a2 where a2: "RefreshAcquirement a1 sequence ts = (None, a2)" "wf_Acquirement a2"
      "LastAppendedNonce a2 = LastAppendedNonce a1" "va_LockName a2 = va_LockName a1"
      "pending a2 = (sequence, info\<lparr>LastRefreshedTimestamp := ts\<rparr>) #
         map (\<lambda>p. if fst p = sequence then (sequence, info\<lparr>LastRefreshedTimestamp := ts\<rparr>) else p) rest"
    using RefreshAcquirement_spec [OF a1(2), of ts sequence] a1(3) fresh by (auto simp: Let_def)
  have d: "dropWhile ?P (pending a2) = (sequence, info\<lparr>LastRefreshedTimestamp := ts\<rparr>) #
      map (\<lambda>p. if fst p = sequence then (sequence, info\<lparr>LastRefreshedTimestamp := ts\<rparr>) else p) rest"
    unfolding a2(5) using q(3) by simp
  have "\<not> ds_LockNonce ds < LastAppendedNonce a2" using a2(3) a1(4) a(4) by simp
  from refresh_serves [OF a2(2) _ _ query free this d, where di = "put_acq name a2 di" and client = client] a2(3,4) a1(4,5) a(3,4) q(2)
  obtain e li a' where "refreshSpecificDLock name client ts (commitProcedure n) (put_acq name a2 di) =
      (Inr (ds_LockNonce ds + 1), node_with_entry (commitProcedure n) e, put_acq name a' (put_acq name a2 di))"
      "next_entry (commitProcedure n) e li" "li_LockName li = name" "li_NewOwner li = client" "li_Timestamp li = ts"
      "li_LockNonce li = ds_LockNonce ds + 1"
    by auto
  then show ?thesis using a1(1) a2(1) a(1) by (auto simp: RefreshAcquirementBySequence_def Let_def)
qed

lemma scan_loop_LeaderTerm: "LeaderTerm (snd (scan_loop ts n order di es)) = LeaderTerm di"
  by (induction order arbitrary: di es) (simp_all add: Let_def split: sum.split prod.split option.split)

lemma bump_loop_LeaderTerm: "LeaderTerm (snd (bump_loop es di)) = LeaderTerm di"
  by (induction es arbitrary: di) (simp_all split: sum.split option.split CommandOperator.split)

lemma scan_LeaderTerm: "scanDLockStateMap order ts n di = (r, n', di') \<Longrightarrow> LeaderTerm di' = LeaderTerm di"
  using scan_loop_LeaderTerm [of ts n order di "[]"] bump_loop_LeaderTerm
  by (auto simp: scanDLockStateMap_def Let_def split: sum.splits prod.splits option.splits) (metis snd_conv)+

end
