(* ===== verification/Raft_Node.thy ===== *)
theory Raft_Node
  imports Interchange
begin

section \<open>Elections and replication (node/node.go)\<close>

text \<open>
  The roles of a node and the goroutines that change them. A goroutine that sends a request and
  handles the response gives the mutex back in between, so it is two functions here: the part
  that builds the request and the part that handles the response, each running under the mutex;
  anything may happen between them. A timer or ticker loop is the function of one round, with the
  current time as argument. The vote count of an election is shared by the goroutines of that
  election and is a record of its own.

  The network is outside: a response is an argument. A request with a nil entry cannot be
  encoded, and the call fails before anything is sent; the model builds no request then.
\<close>

subsection \<open>Messages (protobuf/peer2peer.proto)\<close>

record CandidateVotesRequest =
  cvq_Term :: u64
  cvq_NodeId :: u32
  cvq_PrevEntryIndex :: u64
  cvq_PrevEntryTerm :: u64

record CandidateVotesResponse =
  cvr_Term :: u64
  cvr_NodeId :: u32
  cvr_Accepted :: bool

record AppendEntriesRequest =
  aeq_Term :: u64
  aeq_NodeId :: u32
  aeq_PrevEntryIndex :: u64
  aeq_PrevEntryTerm :: u64
  aeq_CommitEntryIndex :: u64
  aeq_EntryList :: "Entry list"

record AppendEntriesResponse =
  aer_Term :: u64
  aer_NodeId :: u32
  aer_ConflictEntryIndex :: u64
  aer_ConflictEntryTerm :: u64
  aer_CommitEntryIndex :: u64
  aer_Success :: bool

record Election =
  savedCurrentTerm :: u64
  collectedVote :: nat
  voteMap :: "u32 \<Rightarrow> bool"

subsection \<open>Roles\<close>

definition BecomeFollower :: "u64 \<Rightarrow> i64 \<Rightarrow> Node \<Rightarrow> Node" where
  "BecomeFollower term now n =
     go RunElectionDetectorModule
       (upd_ctx (\<lambda>nc. nc\<lparr>VotedPeer := 0, CurrentTerm := term, NodeState := Follower,
                         ElectionRestartTime := now\<rparr>) n)"

text \<open>An error of the initial scan is logged only.\<close>

definition BecomeLeader :: "bytes list \<Rightarrow> i64 \<Rightarrow> Node \<Rightarrow> Node" where
  "BecomeLeader order now n =
     (let n1 = upd_ctx (\<lambda>nc. nc\<lparr>NodeState := Leader\<rparr>) n;
          (err, n2, di) = InitFromDLockStateMap order now n1 (NewDlockInterchange n1);
          n3 = go (ReleaseExpiredDLockPeriodically (LeaderTerm di)) (n2\<lparr>DlockInterchangeInstance := Some di\<rparr>);
          n4 = n3\<lparr>PeerList := map (\<lambda>p. p\<lparr>NextIndex := MaximumIndex (LogEntryInMemory n3) + 1\<rparr>) (PeerList n3)\<rparr>
      in go HeartBeat n4)"

text \<open>
  A round of the heart beat goroutine, woken by its timer or by a token of the channel: \<open>True\<close>
  says that it goes on to send to all peers, \<open>False\<close> that it ends.
\<close>

definition HeartBeat_round :: "bool \<Rightarrow> Node \<Rightarrow> bool \<times> Node" where
  "HeartBeat_round byTimer n =
     (let n1 = (if byTimer then n else upd_ctx (\<lambda>nc. nc\<lparr>AppendEntryChan := False\<rparr>) n)
      in (node_state n1 = Leader, n1))"

subsection \<open>Elections\<close>

definition RunElectionDetectorModule_start :: "nat \<Rightarrow> i64 \<Rightarrow> Node \<Rightarrow> (go_error + i64 \<times> u64) \<times> Node" where
  "RunElectionDetectorModule_start r now n =
     (case RandomElectionTimeout r (NodeConfigInstance n) of
        Inl e \<Rightarrow> (Inl e, n)
      | Inr electionTimeout \<Rightarrow>
          (Inr (electionTimeout, node_term n), upd_ctx (\<lambda>nc. nc\<lparr>ElectionRestartTime := now\<rparr>) n))"

definition StartCandidateVoteModule :: "i64 \<Rightarrow> Node \<Rightarrow> Node \<times> Election" where
  "StartCandidateVoteModule now n =
     (let n1 = upd_ctx (\<lambda>nc. nc\<lparr>NodeState := Candidate, CurrentTerm := CurrentTerm nc + 1,
                                VotedPeer := SelfId (NodeConfigInstance n), ElectionRestartTime := now,
                                HopToCurrentLeaderId := 0\<rparr>) n;
          saved = node_term n1;
          el = \<lparr>savedCurrentTerm = saved, collectedVote = 1,
                voteMap = (\<lambda>i. i = SelfId (NodeConfigInstance n) \<and> i \<notin> pn_PeerId ` set (PeerList n))\<rparr>
      in (go RunElectionDetectorModule
            (foldl (\<lambda>m i. go (CandidateVote i saved) m) n1 [0..<length (PeerList n)]), el))"

text \<open>A tick of the election timer: \<open>True\<close> says that the timer goes on.\<close>

definition RunElectionDetectorModule_tick ::
  "i64 \<Rightarrow> i64 \<Rightarrow> u64 \<Rightarrow> Node \<Rightarrow> bool \<times> Node \<times> Election option" where
  "RunElectionDetectorModule_tick now electionTimeout startElectionTerm n =
     (if node_state n \<noteq> Candidate \<and> node_state n \<noteq> Follower then (False, n, None)
      else if startElectionTerm < node_term n then (False, n, None)
      else if i64_le electionTimeout (now - ElectionRestartTime (NodeContextInstance n))
      then (case StartCandidateVoteModule now n of (n', el) \<Rightarrow> (False, n', Some el))
      else (True, n, None))"

definition CandidateVote_request :: "u64 \<Rightarrow> Node \<Rightarrow> CandidateVotesRequest option" where
  "CandidateVote_request saved n =
     (if node_state n \<noteq> Candidate \<and> node_state n \<noteq> Follower then None
      else if saved < node_term n then None
      else let lm = LogEntryInMemory n
           in if MaximumIndex lm \<noteq> 0
              then case FetchLogEntry lm (MaximumIndex lm) of
                     Inl err \<Rightarrow> None
                   | Inr maximumEntry \<Rightarrow>
                       Some \<lparr>cvq_Term = saved, cvq_NodeId = SelfId (NodeConfigInstance n),
                             cvq_PrevEntryIndex = MaximumIndex lm, cvq_PrevEntryTerm = le_Term maximumEntry\<rparr>
              else Some \<lparr>cvq_Term = saved, cvq_NodeId = SelfId (NodeConfigInstance n),
                         cvq_PrevEntryIndex = MaximumIndex lm, cvq_PrevEntryTerm = 0\<rparr>)"

definition CandidateVote_response ::
  "bytes list \<Rightarrow> i64 \<Rightarrow> u32 \<Rightarrow> CandidateVotesResponse \<Rightarrow> Node \<Rightarrow> Election \<Rightarrow> Node \<times> Election" where
  "CandidateVote_response order now peerId response n el =
     (if node_state n \<noteq> Candidate then (n, el)
      else if savedCurrentTerm el < cvr_Term response
      then (BecomeFollower (cvr_Term response) now (upd_ctx (\<lambda>nc. nc\<lparr>HopToCurrentLeaderId := 0\<rparr>) n), el)
      else if cvr_Term response = savedCurrentTerm el \<and> node_term n = savedCurrentTerm el
      then let el' = (if cvr_Accepted response \<and> \<not> voteMap el peerId
                      then el\<lparr>collectedVote := collectedVote el + 1, voteMap := (voteMap el)(peerId := True)\<rparr>
                      else el)
           in if length (PeerId (NodeConfigInstance n)) + 1 < 2 * collectedVote el'
              then (BecomeLeader order now n, el')
              else (n, el')
      else (n, el))"

subsection \<open>Replication\<close>

definition SendAppendEntriesToPeers_step :: "u32 list option \<Rightarrow> Node \<Rightarrow> Node" where
  "SendAppendEntriesToPeers_step peerList n =
     foldl (\<lambda>m i. if (case peerList of None \<Rightarrow> False
                      | Some ids \<Rightarrow> \<not> NumberInUint32List ids (pn_PeerId (PeerList n ! i)))
                  then m else go (AppendEntriesToPeer i (node_term n)) m) n [0..<length (PeerList n)]"

function fill_loop :: "LogMemory \<Rightarrow> u64 \<Rightarrow> u64 \<Rightarrow> go_error + Entry list" where
  "fill_loop lm j bound =
     (case FetchLogEntry lm j of
        Inl err \<Rightarrow> Inl err
      | Inr logEntry \<Rightarrow>
          if j < bound
          then (case fill_loop lm (j + 1) bound of Inl err \<Rightarrow> Inl err | Inr es \<Rightarrow> Inr (le_Entry logEntry # es))
          else Inr [le_Entry logEntry])"
  by pat_completeness auto
termination
  by (relation "measure (\<lambda>(lm, j, l). unat l - unat j)") (auto simp: unat_Suc_no_wrap word_less_nat_alt)

declare fill_loop.simps [simp del]

text \<open>The list of the request: \<open>None\<close> if an entry is missing or would be sent as nil.\<close>

definition entry_list :: "LogMemory \<Rightarrow> u64 \<Rightarrow> u64 \<Rightarrow> Entry list option" where
  "entry_list lm prevIndexRecord entryLength =
     (if prevIndexRecord + 1 \<le> prevIndexRecord + entryLength
      then (case fill_loop lm (prevIndexRecord + 1) (prevIndexRecord + entryLength) of
              Inl err \<Rightarrow> None
            | Inr es \<Rightarrow> Some es)
      else if entryLength = 0 then Some [] else None)"

text \<open>The request to peer \<open>i\<close>, with the index and the length the goroutine remembers.\<close>

definition AppendEntries_request :: "nat \<Rightarrow> Node \<Rightarrow> (AppendEntriesRequest \<times> u64 \<times> u64) option" where
  "AppendEntries_request i n =
     (if node_state n \<noteq> Leader then None
      else let lm = LogEntryInMemory n;
               nextIndexRecord = NextIndex (PeerList n ! i);
               prevIndexRecord = nextIndexRecord - 1;
               entryLength = Uint64Min (ucast (MaxLogUnitsRecover (Params (NodeConfigInstance n))))
                               (MaximumIndex lm - prevIndexRecord)
           in case entry_list lm prevIndexRecord entryLength of
                None \<Rightarrow> None
              | Some entryList \<Rightarrow>
                  (case (if prevIndexRecord \<noteq> 0
                         then (case FetchLogEntry lm prevIndexRecord of
                                 Inl err \<Rightarrow> None | Inr logEntryPrev \<Rightarrow> Some (le_Term logEntryPrev))
                         else Some 0) of
                     None \<Rightarrow> None
                   | Some prevEntryTerm \<Rightarrow>
                       Some (\<lparr>aeq_Term = node_term n, aeq_NodeId = SelfId (NodeConfigInstance n),
                              aeq_PrevEntryIndex = prevIndexRecord, aeq_PrevEntryTerm = prevEntryTerm,
                              aeq_CommitEntryIndex = node_commit n, aeq_EntryList = entryList\<rparr>,
                             nextIndexRecord, entryLength)))"

definition matchedPeers :: "Node \<Rightarrow> u64 \<Rightarrow> nat" where
  "matchedPeers n k = 1 + length (filter (\<lambda>p. k \<le> MatchIndex p) (PeerList n))"

definition majority_matches :: "Node \<Rightarrow> u64 \<Rightarrow> bool" where
  "majority_matches n k \<longleftrightarrow> length (PeerId (NodeConfigInstance n)) + 1 < 2 * matchedPeers n k"

function commit_loop :: "Node \<Rightarrow> u64 \<Rightarrow> u64 \<Rightarrow> u64" where
  "commit_loop n k commitIndex =
     (if k \<le> maximumIndex (LogEntryInMemory n)
      then let c = (if majority_matches n k then k else commitIndex)
           in if k < maximumIndex (LogEntryInMemory n) then commit_loop n (k + 1) c else c
      else commitIndex)"
  by pat_completeness auto
termination
  by (relation "measure (\<lambda>(n, k, c). unat (maximumIndex (LogEntryInMemory n)) - unat k)")
     (auto simp: unat_Suc_no_wrap word_less_nat_alt)

declare commit_loop.simps [simp del]

definition upd_peer :: "nat \<Rightarrow> (PeerNode \<Rightarrow> PeerNode) \<Rightarrow> Node \<Rightarrow> Node" where
  "upd_peer i f n = n\<lparr>PeerList := (PeerList n)[i := f (PeerList n ! i)]\<rparr>"

text \<open>The indexes of a peer that has accepted what was sent.\<close>

definition acknowledge :: "nat \<Rightarrow> u64 \<Rightarrow> Node \<Rightarrow> Node" where
  "acknowledge i next_index n =
     upd_peer i (\<lambda>p. if MatchIndex p < NextIndex p - 1 then p\<lparr>MatchIndex := NextIndex p - 1\<rparr> else p)
       (upd_peer i (\<lambda>p. p\<lparr>NextIndex := next_index\<rparr>) n)"

definition AppendEntries_success :: "nat \<Rightarrow> u64 \<Rightarrow> u64 \<Rightarrow> Node \<Rightarrow> Node" where
  "AppendEntries_success i nextIndexRecord entryLength n =
     (let n2 = acknowledge i (nextIndexRecord + entryLength) n;
          origCommitIndex = node_commit n2;
          n3 = upd_ctx (\<lambda>nc. nc\<lparr>CommitIndex := commit_loop n2 (origCommitIndex + 1) origCommitIndex\<rparr>) n2
      in if origCommitIndex < node_commit n3
         then upd_ctx TriggerAEChannel (upd_ctx TriggerCommitChannel n3) else n3)"

definition AppendEntries_conflict :: "nat \<Rightarrow> AppendEntriesResponse \<Rightarrow> Node \<Rightarrow> Node" where
  "AppendEntries_conflict i response n =
     (let again = go (SendAppendEntriesToPeers (Some [pn_PeerId (PeerList n ! i)]))
      in if 0 < aer_ConflictEntryTerm response
         then case FetchLastIndexOfTerm (LogEntryInMemory n) (aer_ConflictEntryTerm response) of
                Inl err \<Rightarrow>
                  if err = InMemoryNoSpecificTerm
                  then again (upd_peer i (\<lambda>p. p\<lparr>NextIndex := aer_ConflictEntryIndex response\<rparr>) n)
                  else n
              | Inr lastIndexOfTerm \<Rightarrow> again (upd_peer i (\<lambda>p. p\<lparr>NextIndex := lastIndexOfTerm + 1\<rparr>) n)
         else again (upd_peer i (\<lambda>p. p\<lparr>NextIndex := (if aer_ConflictEntryIndex response = 0 then 1
                                                     else aer_ConflictEntryIndex response)\<rparr>) n))"

definition AppendEntries_response ::
  "i64 \<Rightarrow> nat \<Rightarrow> u64 \<Rightarrow> u64 \<Rightarrow> u64 \<Rightarrow> AppendEntriesResponse \<Rightarrow> Node \<Rightarrow> Node" where
  "AppendEntries_response now i startCurrentTerm nextIndexRecord entryLength response n =
     (if node_state n \<noteq> Leader then n
      else if startCurrentTerm < aer_Term response
      then BecomeFollower (aer_Term response) now (upd_ctx (\<lambda>nc. nc\<lparr>HopToCurrentLeaderId := 0\<rparr>) n)
      else if aer_Term response = startCurrentTerm
      then (if aer_Success response then AppendEntries_success i nextIndexRecord entryLength n
            else AppendEntries_conflict i response n)
      else n)"

subsection \<open>The commit index of a leader\<close>

text \<open>The more a follower has to match, the fewer do.\<close>

lemma matchedPeers_antitone: "k \<le> m \<Longrightarrow> matchedPeers n m \<le> matchedPeers n k"
proof -
  assume "k \<le> m"
  then have "length (filter (\<lambda>p. m \<le> MatchIndex p) ps) \<le> length (filter (\<lambda>p. k \<le> MatchIndex p) ps)" for ps
    by (induction ps) auto
  then show ?thesis by (simp add: matchedPeers_def)
qed

lemma majority_antitone: "k \<le> m \<Longrightarrow> majority_matches n m \<Longrightarrow> majority_matches n k"
  using matchedPeers_antitone [of k m n] by (auto simp: majority_matches_def)

definition commit_choice :: "Node \<Rightarrow> u64 \<Rightarrow> u64 \<Rightarrow> u64 \<Rightarrow> bool" where
  "commit_choice n k c r \<longleftrightarrow>
     (if \<exists>m. k \<le> m \<and> m \<le> maximumIndex (LogEntryInMemory n) \<and> majority_matches n m
      then k \<le> r \<and> r \<le> maximumIndex (LogEntryInMemory n) \<and> majority_matches n r \<and>
           (\<forall>m. k \<le> m \<longrightarrow> m \<le> maximumIndex (LogEntryInMemory n) \<longrightarrow> majority_matches n m \<longrightarrow> m \<le> r)
      else r = c)"

lemma word_ge_cases: "(k :: 'a::len word) < b \<Longrightarrow> k \<le> m \<longleftrightarrow> m = k \<or> k + 1 \<le> m"
  using unat_Suc_no_wrap [of k b] by (auto simp: word_le_nat_alt word_unat_eq_iff)

lemma commit_loop_choice:
  "k \<le> maximumIndex (LogEntryInMemory n) \<Longrightarrow> commit_choice n k c (commit_loop n k c)"
proof (induction n k c rule: commit_loop.induct)
  case (1 n k c)
  let ?max = "maximumIndex (LogEntryInMemory n)" and ?c = "if majority_matches n k then k else c"
  show ?case
  proof (cases "k < ?max")
    case False
    with 1(2) have "k = ?max" by simp
    then show ?thesis
      by (auto simp: commit_loop.simps [of n ?max c] commit_choice_def)
  next
    case True
    have IH: "commit_choice n (k + 1) ?c (commit_loop n (k + 1) ?c)"
      by (rule "1.IH" [OF 1(2) refl True]) (rule word_succ_le [OF True])
    have step: "commit_loop n k c = commit_loop n (k + 1) ?c"
      using True 1(2) by (simp add: commit_loop.simps [of n k c])
    have lt: "k < k + 1" by (rule word_less_succ [OF True])
    show ?thesis
    proof (cases "\<exists>m. k + 1 \<le> m \<and> m \<le> ?max \<and> majority_matches n m")
      case later: True
      with IH have r: "k + 1 \<le> commit_loop n k c" "commit_loop n k c \<le> ?max" "majority_matches n (commit_loop n k c)"
          "\<forall>m. k + 1 \<le> m \<longrightarrow> m \<le> ?max \<longrightarrow> majority_matches n m \<longrightarrow> m \<le> commit_loop n k c"
        unfolding step commit_choice_def by simp_all
      have kr: "k \<le> commit_loop n k c" using r(1) lt by simp
      from r later show ?thesis
        unfolding commit_choice_def word_ge_cases [OF True] using kr by auto
    next
      case False
      with IH have eq: "commit_loop n k c = ?c" unfolding step commit_choice_def by simp
      from False show ?thesis
        unfolding commit_choice_def word_ge_cases [OF True] eq using 1(2) by auto
    qed
  qed
qed

lemma upd_peer_simps [simp]:
  "NodeContextInstance (upd_peer i f n) = NodeContextInstance n"
  "NodeConfigInstance (upd_peer i f n) = NodeConfigInstance n"
  "LogEntryInMemory (upd_peer i f n) = LogEntryInMemory n"
  "StateMapDLock (upd_peer i f n) = StateMapDLock n"
  "StateMapKVStore (upd_peer i f n) = StateMapKVStore n"
  "DlockInterchangeInstance (upd_peer i f n) = DlockInterchangeInstance n"
  "mutex (upd_peer i f n) = mutex n"
  "PeerList (upd_peer i f n) = (PeerList n)[i := f (PeerList n ! i)]"
  by (simp_all add: upd_peer_def)

lemma acknowledge_simps [simp]:
  "NodeContextInstance (acknowledge i x n) = NodeContextInstance n"
  "NodeConfigInstance (acknowledge i x n) = NodeConfigInstance n"
  "LogEntryInMemory (acknowledge i x n) = LogEntryInMemory n"
  "StateMapDLock (acknowledge i x n) = StateMapDLock n"
  by (simp_all add: acknowledge_def)

lemma AppendEntries_success_fields:
  fixes n :: Node and i :: nat and next_index len :: u64
  defines "n2 \<equiv> acknowledge i (next_index + len) n"
  shows "node_commit (AppendEntries_success i next_index len n) = commit_loop n2 (node_commit n + 1) (node_commit n)"
    "LogEntryInMemory (AppendEntries_success i next_index len n) = LogEntryInMemory n"
    "PeerList (AppendEntries_success i next_index len n) = PeerList n2"
    "StateMapDLock (AppendEntries_success i next_index len n) = StateMapDLock n"
    "node_term (AppendEntries_success i next_index len n) = node_term n"
    "VotedPeer (NodeContextInstance (AppendEntries_success i next_index len n)) = VotedPeer (NodeContextInstance n)"
    "node_state (AppendEntries_success i next_index len n) = node_state n"
    "LastAppliedIndex (NodeContextInstance (AppendEntries_success i next_index len n)) = LastAppliedIndex (NodeContextInstance n)"
  by (simp_all add: AppendEntries_success_def Let_def n2_def)

lemma AppendEntries_success_commit:
  fixes n :: Node and i :: nat and next_index len :: u64
  assumes "wf_Node n" "maximumIndex (LogEntryInMemory n) \<noteq> - 1"
  defines "n2 \<equiv> acknowledge i (next_index + len) n"
  shows "commit_choice n2 (node_commit n + 1) (node_commit n) (node_commit (AppendEntries_success i next_index len n))"
proof (cases "node_commit n < maximumIndex (LogEntryInMemory n)")
  case True
  have "node_commit n + 1 \<le> maximumIndex (LogEntryInMemory n2)"
    using word_succ_le [OF True] by (simp add: n2_def)
  then show ?thesis
    unfolding AppendEntries_success_fields(1) n2_def [symmetric] by (rule commit_loop_choice)
next
  case False
  with wf_NodeD(5) [OF assms(1)] have eq: "node_commit n = maximumIndex (LogEntryInMemory n)" by simp
  have lt: "node_commit n < node_commit n + 1" using assms(2) unfolding eq by (rule word_less_plus_1)
  then have "\<not> node_commit n + 1 \<le> maximumIndex (LogEntryInMemory n2)" unfolding n2_def eq by simp
  moreover from this have "\<not> (\<exists>m. node_commit n + 1 \<le> m \<and> m \<le> maximumIndex (LogEntryInMemory n2) \<and> majority_matches n2 m)"
    by (meson order.trans)
  ultimately show ?thesis
    unfolding AppendEntries_success_fields(1) n2_def [symmetric]
    by (auto simp: commit_loop.simps [of n2] commit_choice_def)
qed

lemma commit_choice_mono:
  assumes "commit_choice n (c + 1) c r" "c \<le> maximumIndex (LogEntryInMemory n)" "maximumIndex (LogEntryInMemory n) \<noteq> - 1"
  shows "c \<le> r" "r \<le> maximumIndex (LogEntryInMemory n)"
proof -
  have "c \<noteq> - 1" using assms(2,3) by (metis word_order.extremum_uniqueI)
  then have lt: "c < c + 1" by (rule word_less_plus_1)
  with assms(1,2) show "c \<le> r" "r \<le> maximumIndex (LogEntryInMemory n)"
    by (auto simp: commit_choice_def split: if_splits)
qed

lemma wf_AppendEntries_success [wf_intros]:
  assumes "wf_Node n" "maximumIndex (LogEntryInMemory n) \<noteq> - 1"
  shows "wf_Node (AppendEntries_success i next_index len n)"
    "node_commit n \<le> node_commit (AppendEntries_success i next_index len n)"
proof -
  have "node_commit n \<le> maximumIndex (LogEntryInMemory (acknowledge i (next_index + len) n))"
    using wf_NodeD(5) [OF assms(1)] by simp
  from commit_choice_mono [OF AppendEntries_success_commit [OF assms] this] assms(2)
  have c: "node_commit n \<le> node_commit (AppendEntries_success i next_index len n)"
    "node_commit (AppendEntries_success i next_index len n) \<le> maximumIndex (LogEntryInMemory n)" by simp_all
  then show "wf_Node (AppendEntries_success i next_index len n)"
    using assms(1) by (auto simp: wf_Node_def AppendEntries_success_fields intro: order.trans)
  show "node_commit n \<le> node_commit (AppendEntries_success i next_index len n)" by (rule c)
qed

subsection \<open>What a leader sends\<close>

lemma fill_loop_range:
  assumes "contiguous lm" "1 \<le> j" "j \<le> b" "b \<le> maximumIndex lm"
  shows "fill_loop lm j b = Inr (map le_Entry (log_range lm j b))"
  using assms
proof (induction lm j b rule: fill_loop.induct)
  case (1 lm j b)
  have "j \<le> maximumIndex lm" using "1.prems"(3,4) by (rule order.trans)
  then obtain e where e: "FetchLogEntry lm j = Inr e" "logInMemory lm j = Some e"
    using contiguous_fetch [OF "1.prems"(1,2)] by blast
  show ?case
  proof (cases "j < b")
    case True
    have j1: "1 \<le> j + 1" "j + 1 \<le> b"
      using word_less_succ [OF True] word_succ_le [OF True] by (auto simp: word_ge_1)
    have "fill_loop lm (j + 1) b = Inr (map le_Entry (log_range lm (j + 1) b))"
      by (rule "1.IH" [OF e(1) True "1.prems"(1) j1 "1.prems"(4)])
    with e True show ?thesis by (simp add: fill_loop.simps [of lm j b] log_range_step [OF True])
  next
    case False
    with "1.prems"(3) have "j = b" by simp
    with e show ?thesis by (simp add: fill_loop.simps [of lm b b] log_range_last)
  qed
qed

lemma log_range_empty: "j < i \<Longrightarrow> log_range lm i j = []"
  by (simp add: log_range_def word_less_nat_alt)

lemma Uint64Min_le: "Uint64Min a b \<le> a" "Uint64Min a b \<le> b"
  by (auto simp: Uint64Min_def)

text \<open>
  A leader with a log without holes always has a request for a peer whose next index lies in
  the log or just behind it: the entries from there on, as many as the configuration allows, and
  the term of the entry before them.
\<close>

text \<open>The entries behind \<open>x - 1\<close>, at most as many as the log has.\<close>

lemma entry_list_range:
  assumes "contiguous lm" "1 \<le> x" "x - 1 \<le> maximumIndex lm" "len \<le> maximumIndex lm - (x - 1)"
  shows "x - 1 + len \<le> maximumIndex lm" "entry_list lm (x - 1) len = Some (map le_Entry (log_range lm x (x - 1 + len)))"
proof -
  let ?max = "maximumIndex lm"
  have x0: "x \<noteq> 0" using assms(2) by (simp add: word_ge_1)
  have ux: "unat (x - 1) = unat x - 1" using word_pred_less [OF x0] by simp
  have "unat (?max - (x - 1)) = unat ?max - unat (x - 1)" using assms(3) by (simp add: unat_sub)
  then have le: "unat (x - 1) + unat len \<le> unat ?max" using assms(3,4) by (simp add: word_le_nat_alt)
  then have ul: "unat (x - 1 + len) = unat (x - 1) + unat len"
    using unsigned_less [of ?max, where ?'a = nat] by (simp add: unat_word_ariths)
  show bound: "x - 1 + len \<le> ?max" using le ul by (simp add: word_le_nat_alt)
  show "entry_list lm (x - 1) len = Some (map le_Entry (log_range lm x (x - 1 + len)))"
  proof (cases "len = 0")
    case True
    have "x - 1 < x" "\<not> x \<le> x - 1" using word_pred_less [OF x0] by (simp_all add: not_le)
    with True show ?thesis by (simp add: entry_list_def log_range_empty)
  next
    case False
    have "0 < unat len" "0 < unat x" using False x0 by (simp_all add: unat_gt_0)
    then have "x \<le> x - 1 + len" using ul ux by (simp add: word_le_nat_alt)
    with fill_loop_range [OF assms(1,2) this bound] show ?thesis by (simp add: entry_list_def)
  qed
qed

lemma prev_entry_term:
  assumes "contiguous lm" "x - 1 \<le> maximumIndex lm"
  obtains pt where "(if x - 1 \<noteq> 0 then (case FetchLogEntry lm (x - 1) of
        Inl err \<Rightarrow> None | Inr logEntryPrev \<Rightarrow> Some (le_Term logEntryPrev)) else Some 0) = Some pt"
    "x = 1 \<and> pt = 0 \<or> (\<exists>e. logInMemory lm (x - 1) = Some e \<and> pt = le_Term e)"
proof (cases "x = 1")
  case True
  then show ?thesis by (intro that [of 0]) simp_all
next
  case False
  then have p0: "x - 1 \<noteq> 0" by simp
  then obtain e where "FetchLogEntry lm (x - 1) = Inr e" "logInMemory lm (x - 1) = Some e"
    using contiguous_fetch [OF assms(1) _ assms(2)] word_ge_1 by blast
  with p0 show ?thesis by (intro that [of "le_Term e"]) simp_all
qed

lemma AppendEntries_request_spec:
  assumes lead: "node_state n = Leader" and wf: "wf_Node n" "maximumIndex (LogEntryInMemory n) \<noteq> - 1"
    and next_index: "1 \<le> NextIndex (PeerList n ! i)" "NextIndex (PeerList n ! i) \<le> maximumIndex (LogEntryInMemory n) + 1"
  defines "x \<equiv> NextIndex (PeerList n ! i)"
  shows "\<exists>req len. AppendEntries_request i n = Some (req, x, len) \<and>
    len = Uint64Min (ucast (MaxLogUnitsRecover (Params (NodeConfigInstance n)))) (maximumIndex (LogEntryInMemory n) - (x - 1)) \<and>
    aeq_EntryList req = map le_Entry (log_range (LogEntryInMemory n) x (x - 1 + len)) \<and>
    x - 1 + len \<le> maximumIndex (LogEntryInMemory n) \<and>
    aeq_PrevEntryIndex req = x - 1 \<and> aeq_Term req = node_term n \<and> aeq_CommitEntryIndex req = node_commit n \<and>
    (x = 1 \<and> aeq_PrevEntryTerm req = 0 \<or>
     (\<exists>e. logInMemory (LogEntryInMemory n) (x - 1) = Some e \<and> aeq_PrevEntryTerm req = le_Term e))"
proof -
  let ?lm = "LogEntryInMemory n" and ?max = "maximumIndex (LogEntryInMemory n)"
  define len where "len = Uint64Min (ucast (MaxLogUnitsRecover (Params (NodeConfigInstance n)))) (?max - (x - 1))"
  note ct = wf_NodeD(2) [OF wf(1)]
  have x: "1 \<le> x" "x \<noteq> 0" using next_index(1) by (simp_all add: x_def word_ge_1)
  have "unat (x - 1) = unat x - 1" using word_pred_less [OF x(2)] by simp
  then have xm: "x - 1 \<le> ?max"
    using next_index(2) unat_plus_1 [OF wf(2)] by (simp add: x_def word_le_nat_alt)
  have "len \<le> ?max - (x - 1)" unfolding len_def by (rule Uint64Min_le)
  note list = entry_list_range [OF ct x(1) xm this]
  obtain pt where pt: "(if x - 1 \<noteq> 0 then (case FetchLogEntry ?lm (x - 1) of
        Inl err \<Rightarrow> None | Inr logEntryPrev \<Rightarrow> Some (le_Term logEntryPrev)) else Some 0) = Some pt"
    "x = 1 \<and> pt = 0 \<or> (\<exists>e. logInMemory ?lm (x - 1) = Some e \<and> pt = le_Term e)"
    using prev_entry_term [OF ct xm] .
  have "AppendEntries_request i n =
      Some (\<lparr>aeq_Term = node_term n, aeq_NodeId = SelfId (NodeConfigInstance n), aeq_PrevEntryIndex = x - 1,
             aeq_PrevEntryTerm = pt, aeq_CommitEntryIndex = node_commit n,
             aeq_EntryList = map le_Entry (log_range ?lm x (x - 1 + len))\<rparr>, x, len)"
    unfolding AppendEntries_request_def Let_def MaximumIndex_def x_def [symmetric] len_def [symmetric] list(2)
      option.case pt(1) using lead by simp
  with pt(2) list(1) len_def show ?thesis by auto
qed

subsection \<open>Majorities\<close>

text \<open>The property of majorities every election and every commitment relies on.\<close>

locale majority =
  fixes members :: "'a set"
  assumes finite_members: "finite members"
begin

definition quorum :: "'a set \<Rightarrow> bool" where
  "quorum Q \<longleftrightarrow> Q \<subseteq> members \<and> card members < 2 * card Q"

lemma quorum_nonempty: "quorum Q \<Longrightarrow> Q \<noteq> {}"
  by (auto simp: quorum_def)

lemma quorum_intersect:
  assumes "quorum Q" "quorum R"
  shows "Q \<inter> R \<noteq> {}"
proof
  assume "Q \<inter> R = {}"
  moreover have "finite Q" "finite R"
    using assms finite_members by (auto simp: quorum_def intro: finite_subset)
  ultimately have "card (Q \<union> R) = card Q + card R"
    by (simp add: card_Un_disjoint)
  moreover have "card (Q \<union> R) \<le> card members"
    using assms finite_members by (intro card_mono) (auto simp: quorum_def)
  ultimately show False using assms by (simp add: quorum_def)
qed

lemma quorum_mono: "quorum Q \<Longrightarrow> Q \<subseteq> R \<Longrightarrow> R \<subseteq> members \<Longrightarrow> quorum R"
  using finite_members card_mono [of R Q] finite_subset [of R members]
  by (fastforce simp: quorum_def)

end

definition cluster_members :: "NodeConfig \<Rightarrow> u32 set" where
  "cluster_members c = insert (SelfId c) (set (PeerId c))"

interpretation cluster: majority "cluster_members c" for c
  by unfold_locales (simp add: cluster_members_def)

text \<open>The identities of the cluster are different, and the peers are those of the configuration.\<close>

definition wf_Peers :: "Node \<Rightarrow> bool" where
  "wf_Peers n \<longleftrightarrow>
     distinct (SelfId (NodeConfigInstance n) # PeerId (NodeConfigInstance n)) \<and>
     map pn_PeerId (PeerList n) = PeerId (NodeConfigInstance n)"

lemma card_cluster: "wf_Peers n \<Longrightarrow> card (cluster_members (NodeConfigInstance n)) = length (PeerId (NodeConfigInstance n)) + 1"
  by (simp add: wf_Peers_def cluster_members_def distinct_card)

subsection \<open>Counting votes\<close>

definition voters :: "NodeConfig \<Rightarrow> Election \<Rightarrow> u32 set" where
  "voters c el = {i \<in> cluster_members c. voteMap el i}"

definition wf_Election :: "NodeConfig \<Rightarrow> Election \<Rightarrow> bool" where
  "wf_Election c el \<longleftrightarrow> voteMap el (SelfId c) \<and> collectedVote el = card (voters c el)"

lemma NodeConfigInstance_foldl_go:
  "NodeConfigInstance (foldl (\<lambda>m i. go (f i) m) n is) = NodeConfigInstance n"
  "NodeContextInstance (foldl (\<lambda>m i. go (f i) m) n is) = NodeContextInstance n"
  "LogEntryInMemory (foldl (\<lambda>m i. go (f i) m) n is) = LogEntryInMemory n"
  "StateMapDLock (foldl (\<lambda>m i. go (f i) m) n is) = StateMapDLock n"
  "PeerList (foldl (\<lambda>m i. go (f i) m) n is) = PeerList n"
  by (induction "is" arbitrary: n) simp_all

lemma StartCandidateVoteModule_fields:
  assumes "StartCandidateVoteModule now n = (n', el)"
  shows "node_term n' = node_term n + 1" "savedCurrentTerm el = node_term n + 1" "node_state n' = Candidate"
    "VotedPeer (NodeContextInstance n') = SelfId (NodeConfigInstance n)" "NodeConfigInstance n' = NodeConfigInstance n"
    "LogEntryInMemory n' = LogEntryInMemory n" "node_commit n' = node_commit n" "PeerList n' = PeerList n"
    "StateMapDLock n' = StateMapDLock n"
    "LastAppliedIndex (NodeContextInstance n') = LastAppliedIndex (NodeContextInstance n)"
  using assms by (auto simp: StartCandidateVoteModule_def Let_def NodeConfigInstance_foldl_go)

lemma wf_Election_start [wf_intros]:
  assumes "wf_Peers n" "StartCandidateVoteModule now n = (n', el)"
  shows "wf_Election (NodeConfigInstance n) el"
proof -
  have peers: "pn_PeerId ` set (PeerList n) = set (PeerId (NodeConfigInstance n))"
    using assms(1) by (metis list.set_map wf_Peers_def)
  have el: "voteMap el = (\<lambda>i. i = SelfId (NodeConfigInstance n) \<and> i \<notin> set (PeerId (NodeConfigInstance n)))" "collectedVote el = 1"
    using assms(2) by (auto simp: StartCandidateVoteModule_def Let_def peers)
  moreover have "voters (NodeConfigInstance n) el = {SelfId (NodeConfigInstance n)}"
    using assms(1) unfolding voters_def el by (auto simp: cluster_members_def wf_Peers_def)
  ultimately show ?thesis using assms(1) by (simp add: wf_Election_def wf_Peers_def)
qed

lemma voters_add:
  assumes "wf_Election c el" "peer \<in> cluster_members c" "\<not> voteMap el peer"
  shows "wf_Election c (el\<lparr>collectedVote := collectedVote el + 1, voteMap := (voteMap el)(peer := True)\<rparr>)"
proof -
  let ?el = "el\<lparr>collectedVote := collectedVote el + 1, voteMap := (voteMap el)(peer := True)\<rparr>"
  have "voters c ?el = insert peer (voters c el)" "peer \<notin> voters c el" "finite (voters c el)"
    using assms cluster.finite_members [of c] by (auto simp: voters_def)
  then show ?thesis using assms(1) by (simp add: wf_Election_def)
qed

text \<open>
  A response keeps the count right, and the node takes the lead only with the votes of a
  majority of the cluster, in the term of the election.
\<close>

lemma CandidateVote_response_spec:
  assumes "wf_Peers n" "wf_Election (NodeConfigInstance n) el" "peer \<in> set (PeerId (NodeConfigInstance n))"
    and r: "CandidateVote_response order now peer response n el = (n', el')"
  shows "wf_Election (NodeConfigInstance n) el'"
    "n' = n \<or> n' = BecomeFollower (cvr_Term response) now (upd_ctx (\<lambda>nc. nc\<lparr>HopToCurrentLeaderId := 0\<rparr>) n) \<or>
     (n' = BecomeLeader order now n \<and> node_term n = savedCurrentTerm el \<and>
      cluster.quorum (NodeConfigInstance n) (voters (NodeConfigInstance n) el'))"
proof -
  let ?c = "NodeConfigInstance n"
  have peer: "peer \<in> cluster_members ?c" using assms(3) by (simp add: cluster_members_def)
  define el1 where "el1 = (if cvr_Accepted response \<and> \<not> voteMap el peer
      then el\<lparr>collectedVote := collectedVote el + 1, voteMap := (voteMap el)(peer := True)\<rparr> else el)"
  have wf1: "wf_Election ?c el1"
    using assms(2) voters_add [OF assms(2) peer] by (simp add: el1_def)
  have el': "el' = el \<or> el' = el1"
    using r unfolding CandidateVote_response_def el1_def by (auto simp: Let_def split: if_splits)
  then show "wf_Election ?c el'" using wf1 assms(2) by blast
  show "n' = n \<or> n' = BecomeFollower (cvr_Term response) now (upd_ctx (\<lambda>nc. nc\<lparr>HopToCurrentLeaderId := 0\<rparr>) n) \<or>
     (n' = BecomeLeader order now n \<and> node_term n = savedCurrentTerm el \<and> cluster.quorum ?c (voters ?c el'))"
  proof (cases "node_state n = Candidate \<and> \<not> savedCurrentTerm el < cvr_Term response \<and>
      cvr_Term response = savedCurrentTerm el \<and> node_term n = savedCurrentTerm el \<and>
      length (PeerId ?c) + 1 < 2 * collectedVote el1")
    case True
    then have "n' = BecomeLeader order now n" "el' = el1"
      using r unfolding CandidateVote_response_def el1_def [symmetric] by (simp_all add: Let_def)
    moreover have "cluster.quorum ?c (voters ?c el1)"
      using True wf1 card_cluster [OF assms(1)] by (auto simp: cluster.quorum_def wf_Election_def voters_def)
    ultimately show ?thesis using True by simp
  next
    case False
    then show ?thesis
      using r unfolding CandidateVote_response_def el1_def [symmetric] by (auto simp: Let_def split: if_splits)
  qed
qed

end
