(* ===== verification/P2P_Server.thy ===== *)
theory P2P_Server
  imports Raft_Node
begin

section \<open>The services of a node for its peers (node/p2p_server.go)\<close>

text \<open>
  The handlers of the requests of other nodes. Each takes the mutex first and gives it back by
  a deferred call on every path, so they are functions from a node to a response and a node. The
  response is built with the term of the node at the end of the handler.
\<close>

subsection \<open>AppendEntries\<close>

definition initial_response :: "Node \<Rightarrow> AppendEntriesResponse" where
  "initial_response n =
     \<lparr>aer_Term = node_term n, aer_NodeId = SelfId (NodeConfigInstance n), aer_ConflictEntryIndex = 0,
      aer_ConflictEntryTerm = 0, aer_CommitEntryIndex = node_commit n, aer_Success = False\<rparr>"

text \<open>Does the entry before the sent ones match?\<close>

definition prev_matches :: "AppendEntriesRequest \<Rightarrow> Node \<Rightarrow> go_error + bool" where
  "prev_matches request n =
     (let lm = LogEntryInMemory n
      in if aeq_PrevEntryIndex request \<le> MaximumIndex lm
         then (if aeq_PrevEntryIndex request \<noteq> 0
               then case FetchLogEntry lm (aeq_PrevEntryIndex request) of
                      Inl err \<Rightarrow> Inl err
                    | Inr entryForPrevIndex \<Rightarrow> Inr (le_Term entryForPrevIndex = aeq_PrevEntryTerm request)
               else Inr True)
         else Inr False)"

fun decode_entries :: "Entry list \<Rightarrow> go_error + LogEntry list" where
  "decode_entries [] = Inr []"
| "decode_entries (entry # rest) =
     (case NewLogEntryList entry of
        Inl err \<Rightarrow> Inl err
      | Inr logEntry \<Rightarrow>
          (case decode_entries rest of Inl err \<Rightarrow> Inl err | Inr logEntries \<Rightarrow> Inr (logEntry # logEntries)))"

definition accept_entries ::
  "AppendEntriesRequest \<Rightarrow> AppendEntriesResponse \<Rightarrow> Node \<Rightarrow> (go_error + AppendEntriesResponse) \<times> Node" where
  "accept_entries request response n =
     (case decode_entries (aeq_EntryList request) of
        Inl err \<Rightarrow> (Inl err, n)
      | Inr logEntryList \<Rightarrow>
          (case InsertValidEntryList (LogEntryInMemory n) (map Some logEntryList) of
             (Some err, lm) \<Rightarrow> (Inl err, n\<lparr>LogEntryInMemory := lm\<rparr>)
           | (None, lm) \<Rightarrow>
               let n1 = n\<lparr>LogEntryInMemory := lm\<rparr>
               in if node_commit n1 < aeq_CommitEntryIndex request
                  then let n2 = upd_ctx (\<lambda>nc. nc\<lparr>CommitIndex :=
                                  Uint64Min (aeq_CommitEntryIndex request) (MaximumIndex lm)\<rparr>) n1;
                           n3 = upd_ctx TriggerCommitChannel n2
                       in (Inr (response\<lparr>aer_CommitEntryIndex := node_commit n3\<rparr>), n3)
                  else (Inr response, n1)))"

definition conflict_response ::
  "AppendEntriesRequest \<Rightarrow> AppendEntriesResponse \<Rightarrow> Node \<Rightarrow> go_error + AppendEntriesResponse" where
  "conflict_response request response n =
     (let lm = LogEntryInMemory n; maximumIndex = MaximumIndex lm
      in if maximumIndex = 0
         then Inr (response\<lparr>aer_ConflictEntryTerm := 0, aer_ConflictEntryIndex := 0\<rparr>)
         else if maximumIndex < aeq_PrevEntryIndex request
         then (case FetchLogEntry lm maximumIndex of
                 Inl err \<Rightarrow> Inl err
               | Inr entryForMaxIndex \<Rightarrow>
                   Inr (response\<lparr>aer_ConflictEntryIndex := maximumIndex,
                                 aer_ConflictEntryTerm := le_Term entryForMaxIndex\<rparr>))
         else if aeq_PrevEntryIndex request \<noteq> 0
         then (case FetchLogEntry lm (aeq_PrevEntryIndex request) of
                 Inl err \<Rightarrow> Inl err
               | Inr entryForPrevIndex \<Rightarrow>
                   Inr (response\<lparr>aer_ConflictEntryIndex := aeq_PrevEntryIndex request,
                                 aer_ConflictEntryTerm := le_Term entryForPrevIndex\<rparr>))
         else Inr response)"

definition from_leader ::
  "i64 \<Rightarrow> AppendEntriesRequest \<Rightarrow> AppendEntriesResponse \<Rightarrow> Node \<Rightarrow> (go_error + AppendEntriesResponse) \<times> Node" where
  "from_leader now request response n =
     (let n1 = upd_ctx (\<lambda>nc. nc\<lparr>HopToCurrentLeaderId := aeq_NodeId request\<rparr>) n;
          n2 = (if node_state n1 \<noteq> Follower then BecomeFollower (aeq_Term request) now n1 else n1);
          n3 = upd_ctx (\<lambda>nc. nc\<lparr>ElectionRestartTime := now\<rparr>) n2
      in case prev_matches request n3 of
           Inl err \<Rightarrow> (Inl err, n3)
         | Inr True \<Rightarrow> accept_entries request (response\<lparr>aer_Success := True\<rparr>) n3
         | Inr False \<Rightarrow> (conflict_response request response n3, n3))"

definition AppendEntriesService ::
  "i64 \<Rightarrow> AppendEntriesRequest \<Rightarrow> Node \<Rightarrow> (go_error + AppendEntriesResponse) \<times> Node" where
  "AppendEntriesService now request n =
     (if node_state n = Dead then (Inl GrpcP2PServerDeadError, n)
      else let response = initial_response n;
               n1 = (if node_term n < aeq_Term request
                     then BecomeFollower (aeq_Term request) now
                            (upd_ctx (\<lambda>nc. nc\<lparr>HopToCurrentLeaderId := aeq_NodeId request\<rparr>) n)
                     else n);
               (r, n2) = (if aeq_Term request = node_term n1 then from_leader now request response n1
                          else (Inr response, n1))
           in (case r of
                 Inl err \<Rightarrow> (Inl err, n2)
               | Inr resp \<Rightarrow> (Inr (resp\<lparr>aer_Term := node_term n2\<rparr>), n2)))"

subsection \<open>CandidateVotes\<close>

definition same_term_vote ::
  "i64 \<Rightarrow> CandidateVotesRequest \<Rightarrow> CandidateVotesResponse \<Rightarrow> Node \<Rightarrow> (go_error + CandidateVotesResponse) \<times> Node" where
  "same_term_vote now request response n =
     (let lm = LogEntryInMemory n in
      case (if MaximumIndex lm \<noteq> 0
            then (case FetchLogEntry lm (MaximumIndex lm) of Inl err \<Rightarrow> Inl err | Inr e \<Rightarrow> Inr (le_Term e))
            else Inr 0) of
        Inl err \<Rightarrow> (Inl err, n)
      | Inr lastEntryTerm \<Rightarrow>
          if lastEntryTerm < cvq_PrevEntryTerm request \<or>
             (cvq_PrevEntryTerm request = lastEntryTerm \<and> MaximumIndex lm \<le> cvq_PrevEntryIndex request)
          then (Inr (response\<lparr>cvr_Accepted := True\<rparr>),
                upd_ctx (\<lambda>nc. nc\<lparr>VotedPeer := cvq_NodeId request, ElectionRestartTime := now\<rparr>) n)
          else (Inr response, n))"

definition CandidateVotesService ::
  "i64 \<Rightarrow> CandidateVotesRequest \<Rightarrow> Node \<Rightarrow> (go_error + CandidateVotesResponse) \<times> Node" where
  "CandidateVotesService now request n =
     (if node_state n = Dead then (Inl GrpcP2PServerDeadError, n)
      else let response = \<lparr>cvr_Term = node_term n, cvr_NodeId = SelfId (NodeConfigInstance n), cvr_Accepted = False\<rparr>;
               (r, n1) =
                 (if node_term n < cvq_Term request
                  then (Inr (response\<lparr>cvr_Accepted := True\<rparr>),
                        upd_ctx (\<lambda>nc. nc\<lparr>VotedPeer := cvq_NodeId request\<rparr>)
                          (BecomeFollower (cvq_Term request) now
                             (upd_ctx (\<lambda>nc. nc\<lparr>HopToCurrentLeaderId := 0\<rparr>) n)))
                  else if cvq_Term request = node_term n \<and>
                          (VotedPeer (NodeContextInstance n) = 0 \<or>
                           VotedPeer (NodeContextInstance n) = cvq_NodeId request)
                  then same_term_vote now request response n
                  else (Inr response, n))
           in (case r of
                 Inl err \<Rightarrow> (Inl err, n1)
               | Inr resp \<Rightarrow> (Inr (resp\<lparr>cvr_Term := node_term n1\<rparr>), n1)))"

subsection \<open>RecoverEntries\<close>

record RecoverEntriesResponse =
  rer_Term :: u64
  rer_NodeId :: u32
  rer_PrevEntryIndex :: u64
  rer_PrevEntryTerm :: u64
  rer_Recovered :: bool
  rer_EntryList :: "Entry list option"

definition RecoverEntriesService :: "Node \<Rightarrow> RecoverEntriesResponse" where
  "RecoverEntriesService n =
     \<lparr>rer_Term = 0, rer_NodeId = 0, rer_PrevEntryIndex = 0, rer_PrevEntryTerm = 0, rer_Recovered = False,
      rer_EntryList = None\<rparr>"

subsection \<open>Appending what a leader sent\<close>

lemma BecomeFollower_simps [simp]:
  "NodeContextInstance (BecomeFollower t now n) = (NodeContextInstance n)
     \<lparr>VotedPeer := 0, CurrentTerm := t, NodeState := Follower, ElectionRestartTime := now\<rparr>"
  "LogEntryInMemory (BecomeFollower t now n) = LogEntryInMemory n"
  "NodeConfigInstance (BecomeFollower t now n) = NodeConfigInstance n"
  "StateMapDLock (BecomeFollower t now n) = StateMapDLock n"
  "StateMapKVStore (BecomeFollower t now n) = StateMapKVStore n"
  "PeerList (BecomeFollower t now n) = PeerList n"
  "DlockInterchangeInstance (BecomeFollower t now n) = DlockInterchangeInstance n"
  "mutex (BecomeFollower t now n) = mutex n"
  by (simp_all add: BecomeFollower_def)

lemma decode_entries_spec:
  "decode_entries es = Inr les \<Longrightarrow> map le_Entry les = es \<and> (\<forall>le \<in> set les. wf_LogEntry le)"
proof (induction es arbitrary: les)
  case (Cons e es)
  then obtain le les' where d: "NewLogEntryList e = Inr le" "decode_entries es = Inr les'" "les = le # les'"
    by (auto split: sum.splits)
  with Cons.IH [OF d(2)] NewLogEntryList_Entry [OF d(1)] NewLogEntryList_wf [OF d(1)] show ?case by simp
qed simp

text \<open>Entries at consecutive indexes that start inside the log or just behind it leave no hole.\<close>

lemma contiguous_put:
  assumes "wf_LogMemory lm" "contiguous lm" "wf_LogEntry e" "1 \<le> le_Index e" "le_Index e \<le> maximumIndex lm + 1"
    "maximumIndex lm \<noteq> - 1"
  shows "contiguous (put_entry lm e)"
proof (cases "le_Index e = maximumIndex lm + 1")
  case True
  from contiguous_append [OF assms(1-3) this word_less_plus_1 [OF assms(6)]] show ?thesis .
next
  case False
  have "maximumIndex lm + 1 \<noteq> 0" using word_less_plus_1 [OF assms(6)] by (metis word_not_simps(1))
  with False assms(5) have "le_Index e \<le> maximumIndex lm"
    using word_le_pred_iff [of "maximumIndex lm + 1" "le_Index e"] by simp
  then show ?thesis using assms(2,4) by (auto simp: contiguous_def put_entry_def)
qed

fun consecutive :: "u64 \<Rightarrow> LogEntry list \<Rightarrow> bool" where
  "consecutive i [] \<longleftrightarrow> True"
| "consecutive i (e # es) \<longleftrightarrow> le_Index e = i \<and> consecutive (i + 1) es"

lemma append_consecutive:
  assumes "wf_LogMemory lm" "contiguous lm" "\<forall>e \<in> set es. wf_LogEntry e"
    and "consecutive i es" "1 \<le> i" "i \<le> maximumIndex lm + 1" "maximumIndex lm \<noteq> - 1"
    and "unat i + length es < 2 ^ 64"
  shows "wf_LogMemory (foldl put_entry lm es) \<and> contiguous (foldl put_entry lm es) \<and>
    maximumIndex lm \<le> maximumIndex (foldl put_entry lm es)"
  using assms
proof (induction es arbitrary: lm i)
  case (Cons e es)
  have i: "le_Index e = i" "wf_LogEntry e" using Cons.prems by simp_all
  have u: "unat (i + 1) = Suc (unat i)"
    using Cons.prems(8) by (simp add: unat_word_ariths)
  have wf: "wf_LogMemory (put_entry lm e)" "contiguous (put_entry lm e)"
    using wf_put_entry [OF Cons.prems(1) i(2)] contiguous_put [OF Cons.prems(1,2) i(2)] Cons.prems(5-7) i(1)
    by simp_all
  have mx: "maximumIndex (put_entry lm e) = max (maximumIndex lm) i" using i(1) by simp
  have um: "unat (maximumIndex lm + 1) = Suc (unat (maximumIndex lm))"
    using unat_Suc_no_wrap [of "maximumIndex lm" "- 1"] Cons.prems(7) word_order.not_eq_extremum by blast
  have ne: "max (maximumIndex lm) i \<noteq> - 1"
  proof -
    have "i \<noteq> - 1" using u by (metis add.left_inverse nat.distinct(1) unat_0)
    with Cons.prems(7) show ?thesis by (simp add: max_def)
  qed
  have "i + 1 \<le> max (maximumIndex lm) i + 1"
  proof (cases "maximumIndex lm \<le> i")
    case False
    then have "unat i < unat (maximumIndex lm)" by (simp add: word_le_nat_alt)
    then show ?thesis using False u um by (simp add: max_def word_le_nat_alt)
  qed (simp add: max_def)
  moreover have "1 \<le> i + 1" using u by (simp add: word_le_nat_alt)
  ultimately have "wf_LogMemory (foldl put_entry (put_entry lm e) es) \<and> contiguous (foldl put_entry (put_entry lm e) es) \<and>
      maximumIndex (put_entry lm e) \<le> maximumIndex (foldl put_entry (put_entry lm e) es)"
    using Cons.prems(3,4,8) u ne mx by (intro Cons.IH [OF wf, of "i + 1"]) simp_all
  then show ?case using mx by (auto simp: max_def split: if_splits)
qed simp

text \<open>What the handler does to the log, on the branch that accepts.\<close>

lemma accept_entries_spec:
  assumes "accept_entries request response n = (Inr resp, n')"
  obtains les where "decode_entries (aeq_EntryList request) = Inr les"
    "LogEntryInMemory n' = foldl put_entry (LogEntryInMemory n) les"
    "node_commit n' = (if node_commit n < aeq_CommitEntryIndex request
       then Uint64Min (aeq_CommitEntryIndex request) (maximumIndex (foldl put_entry (LogEntryInMemory n) les))
       else node_commit n)"
    "node_term n' = node_term n" "node_state n' = node_state n" "StateMapDLock n' = StateMapDLock n"
    "VotedPeer (NodeContextInstance n') = VotedPeer (NodeContextInstance n)"
    "LastAppliedIndex (NodeContextInstance n') = LastAppliedIndex (NodeContextInstance n)"
    "aer_Success resp = aer_Success response" "NodeConfigInstance n' = NodeConfigInstance n" "mutex n' = mutex n"
  using assms
  by (auto simp: accept_entries_def InsertValidEntryList_Some Let_def MaximumIndex_def split: sum.splits if_splits)

lemma prev_matches_ctx [simp]: "prev_matches request (upd_ctx f n) = prev_matches request n"
  "prev_matches request (BecomeFollower t now n) = prev_matches request n"
  by (simp_all add: prev_matches_def)

text \<open>The node after it has recognised the sender as the leader of a term not older than its own.\<close>

definition hear :: "i64 \<Rightarrow> AppendEntriesRequest \<Rightarrow> Node \<Rightarrow> Node" where
  "hear now request n =
     (let n1 = (if node_term n < aeq_Term request
                then BecomeFollower (aeq_Term request) now
                       (upd_ctx (\<lambda>nc. nc\<lparr>HopToCurrentLeaderId := aeq_NodeId request\<rparr>) n)
                else n);
          n2 = upd_ctx (\<lambda>nc. nc\<lparr>HopToCurrentLeaderId := aeq_NodeId request\<rparr>) n1;
          n3 = (if node_state n2 \<noteq> Follower then BecomeFollower (aeq_Term request) now n2 else n2)
      in upd_ctx (\<lambda>nc. nc\<lparr>ElectionRestartTime := now\<rparr>) n3)"

lemma hear_simps [simp]:
  "LogEntryInMemory (hear now request n) = LogEntryInMemory n"
  "StateMapDLock (hear now request n) = StateMapDLock n"
  "NodeConfigInstance (hear now request n) = NodeConfigInstance n"
  "node_commit (hear now request n) = node_commit n"
  "LastAppliedIndex (NodeContextInstance (hear now request n)) = LastAppliedIndex (NodeContextInstance n)"
  "node_state (hear now request n) = Follower"
  "prev_matches request (hear now request n) = prev_matches request n"
  "mutex (hear now request n) = mutex n"
  "HopToCurrentLeaderId (NodeContextInstance (hear now request n)) = aeq_NodeId request"
  by (simp_all add: hear_def Let_def)

lemma hear_term: "node_term n \<le> aeq_Term request \<Longrightarrow> node_term (hear now request n) = aeq_Term request"
  by (auto simp: hear_def Let_def)

lemma hear_vote:
  "VotedPeer (NodeContextInstance (hear now request n)) =
     (if node_term n < aeq_Term request \<or> node_state n \<noteq> Follower then 0 else VotedPeer (NodeContextInstance n))"
  by (auto simp: hear_def Let_def)

definition finish :: "(go_error + AppendEntriesResponse) \<times> Node \<Rightarrow> (go_error + AppendEntriesResponse) \<times> Node" where
  "finish rn = (case rn of (Inl err, n) \<Rightarrow> (Inl err, n) | (Inr resp, n) \<Rightarrow> (Inr (resp\<lparr>aer_Term := node_term n\<rparr>), n))"

lemma AppendEntriesService_current:
  assumes "node_state n \<noteq> Dead" "node_term n \<le> aeq_Term request"
  shows "AppendEntriesService now request n = finish
    (case prev_matches request n of
       Inl err \<Rightarrow> (Inl err, hear now request n)
     | Inr True \<Rightarrow> accept_entries request ((initial_response n)\<lparr>aer_Success := True\<rparr>) (hear now request n)
     | Inr False \<Rightarrow> (conflict_response request (initial_response n) (hear now request n), hear now request n))"
proof -
  let ?n1 = "if node_term n < aeq_Term request
    then BecomeFollower (aeq_Term request) now (upd_ctx (\<lambda>nc. nc\<lparr>HopToCurrentLeaderId := aeq_NodeId request\<rparr>) n) else n"
  have t: "aeq_Term request = node_term ?n1" using assms(2) by auto
  have pm: "prev_matches request ?n1 = prev_matches request n" by simp
  have fl: "from_leader now request (initial_response n) ?n1 =
    (case prev_matches request n of
       Inl err \<Rightarrow> (Inl err, hear now request n)
     | Inr True \<Rightarrow> accept_entries request ((initial_response n)\<lparr>aer_Success := True\<rparr>) (hear now request n)
     | Inr False \<Rightarrow> (conflict_response request (initial_response n) (hear now request n), hear now request n))"
    unfolding from_leader_def hear_def Let_def using pm by (simp split: if_split)
  show ?thesis
    unfolding AppendEntriesService_def Let_def finish_def fl [symmetric] using assms(1) t
    by (simp split: prod.split sum.split if_split)
qed

lemma AppendEntriesService_stale:
  assumes "node_state n \<noteq> Dead" "aeq_Term request < node_term n"
  shows "AppendEntriesService now request n = (Inr (initial_response n), n)"
proof -
  have "\<not> node_term n < aeq_Term request" "aeq_Term request \<noteq> node_term n" using assms(2) by auto
  with assms(1) show ?thesis by (simp add: AppendEntriesService_def initial_response_def)
qed

lemma AppendEntriesService_dead:
  "node_state n = Dead \<Longrightarrow> AppendEntriesService now request n = (Inl GrpcP2PServerDeadError, n)"
  by (simp add: AppendEntriesService_def)

lemma conflict_response_failure:
  "conflict_response request response n = Inr resp \<Longrightarrow> aer_Success resp = aer_Success response"
  by (auto simp: conflict_response_def Let_def split: if_splits sum.splits)

text \<open>A success means: the sender's term is the node's, the previous entry matched, and the entries are in.\<close>

lemma AppendEntriesService_success:
  assumes "AppendEntriesService now request n = (Inr resp, n')" "aer_Success resp"
  obtains les where "node_term n \<le> aeq_Term request" "node_term n' = aeq_Term request" "aer_Term resp = aeq_Term request"
    "node_state n' = Follower" "prev_matches request n = Inr True"
    "decode_entries (aeq_EntryList request) = Inr les"
    "LogEntryInMemory n' = foldl put_entry (LogEntryInMemory n) les"
    "node_commit n' = (if node_commit n < aeq_CommitEntryIndex request
       then Uint64Min (aeq_CommitEntryIndex request) (maximumIndex (LogEntryInMemory n')) else node_commit n)"
    "StateMapDLock n' = StateMapDLock n"
    "LastAppliedIndex (NodeContextInstance n') = LastAppliedIndex (NodeContextInstance n)"
proof -
  have alive: "node_state n \<noteq> Dead" using assms(1) AppendEntriesService_dead by fastforce
  have le: "node_term n \<le> aeq_Term request"
  proof (rule ccontr)
    assume "\<not> node_term n \<le> aeq_Term request"
    with AppendEntriesService_stale [OF alive, of request now] assms show False by (auto simp: initial_response_def)
  qed
  let ?h = "hear now request n" and ?i = "(initial_response n)\<lparr>aer_Success := True\<rparr>"
  note u = AppendEntriesService_current [OF alive le, of now]
  have pm: "prev_matches request n = Inr True"
    using assms u conflict_response_failure [of request "initial_response n" ?h]
    by (fastforce simp: finish_def initial_response_def split: sum.splits bool.splits prod.splits)
  obtain resp0 where a: "accept_entries request ?i ?h = (Inr resp0, n')" "resp = resp0\<lparr>aer_Term := node_term n'\<rparr>"
    using assms(1) u pm by (auto simp: finish_def split: prod.splits sum.splits)
  from a(1) obtain les where les: "decode_entries (aeq_EntryList request) = Inr les"
    "LogEntryInMemory n' = foldl put_entry (LogEntryInMemory ?h) les"
    "node_commit n' = (if node_commit ?h < aeq_CommitEntryIndex request
       then Uint64Min (aeq_CommitEntryIndex request) (maximumIndex (foldl put_entry (LogEntryInMemory ?h) les))
       else node_commit ?h)"
    "node_term n' = node_term ?h" "node_state n' = node_state ?h" "StateMapDLock n' = StateMapDLock ?h"
    "LastAppliedIndex (NodeContextInstance n') = LastAppliedIndex (NodeContextInstance ?h)"
    by (rule accept_entries_spec) blast
  show thesis
    by (rule that [OF le _ _ _ pm les(1)]) (use les a(2) hear_term [OF le, of now] in auto)
qed

subsection \<open>Terms and votes\<close>

text \<open>Within a term a vote once given is kept; a new term forgets it.\<close>

definition vote_kept :: "Node \<Rightarrow> Node \<Rightarrow> bool" where
  "vote_kept n n' \<longleftrightarrow>
     node_term n < node_term n' \<or>
     node_term n' = node_term n \<and>
       (VotedPeer (NodeContextInstance n) \<noteq> 0 \<longrightarrow> VotedPeer (NodeContextInstance n') = VotedPeer (NodeContextInstance n))"

lemma vote_kept_refl [simp]: "vote_kept n n"
  by (simp add: vote_kept_def)

lemma vote_kept_trans: "vote_kept n n1 \<Longrightarrow> vote_kept n1 n2 \<Longrightarrow> vote_kept n n2"
  by (auto simp: vote_kept_def)

lemma vote_kept_same:
  "node_term n' = node_term n \<Longrightarrow> VotedPeer (NodeContextInstance n') = VotedPeer (NodeContextInstance n) \<Longrightarrow> vote_kept n n'"
  by (simp add: vote_kept_def)

lemma same_term_vote_spec:
  assumes "same_term_vote now request response n = (r, n1)"
  shows "node_term n1 = node_term n" "LogEntryInMemory n1 = LogEntryInMemory n" "node_commit n1 = node_commit n"
    "StateMapDLock n1 = StateMapDLock n"
    "LastAppliedIndex (NodeContextInstance n1) = LastAppliedIndex (NodeContextInstance n)"
    "VotedPeer (NodeContextInstance n1) = VotedPeer (NodeContextInstance n) \<or>
     VotedPeer (NodeContextInstance n1) = cvq_NodeId request"
    "\<And>resp. r = Inr resp \<Longrightarrow> cvr_Accepted resp \<Longrightarrow> \<not> cvr_Accepted response \<Longrightarrow>
       VotedPeer (NodeContextInstance n1) = cvq_NodeId request"
  using assms by (auto simp: same_term_vote_def Let_def split: sum.splits if_splits)

lemma CandidateVotesService_newer:
  assumes "node_state n \<noteq> Dead" "node_term n < cvq_Term request"
  shows "CandidateVotesService now request n =
    (Inr \<lparr>cvr_Term = cvq_Term request, cvr_NodeId = SelfId (NodeConfigInstance n), cvr_Accepted = True\<rparr>,
     upd_ctx (\<lambda>nc. nc\<lparr>VotedPeer := cvq_NodeId request\<rparr>)
       (BecomeFollower (cvq_Term request) now (upd_ctx (\<lambda>nc. nc\<lparr>HopToCurrentLeaderId := 0\<rparr>) n)))"
  using assms by (simp add: CandidateVotesService_def)

definition may_vote :: "CandidateVotesRequest \<Rightarrow> Node \<Rightarrow> bool" where
  "may_vote request n \<longleftrightarrow> cvq_Term request = node_term n \<and>
     (VotedPeer (NodeContextInstance n) = 0 \<or> VotedPeer (NodeContextInstance n) = cvq_NodeId request)"

lemma CandidateVotesService_same:
  assumes "node_state n \<noteq> Dead" "may_vote request n"
    "same_term_vote now request \<lparr>cvr_Term = node_term n, cvr_NodeId = SelfId (NodeConfigInstance n), cvr_Accepted = False\<rparr> n = (r1, n1)"
  shows "CandidateVotesService now request n =
    ((case r1 of Inl err \<Rightarrow> Inl err | Inr resp \<Rightarrow> Inr (resp\<lparr>cvr_Term := node_term n1\<rparr>)), n1)"
proof -
  have "\<not> node_term n < cvq_Term request" using assms(2) by (simp add: may_vote_def)
  with assms show ?thesis
    unfolding CandidateVotesService_def may_vote_def by (cases r1) simp_all
qed

lemma CandidateVotesService_refused:
  assumes "node_state n \<noteq> Dead" "\<not> node_term n < cvq_Term request" "\<not> may_vote request n"
  shows "CandidateVotesService now request n =
    (Inr \<lparr>cvr_Term = node_term n, cvr_NodeId = SelfId (NodeConfigInstance n), cvr_Accepted = False\<rparr>, n)"
  using assms unfolding CandidateVotesService_def may_vote_def [symmetric] by simp

definition vote_outcome :: "CandidateVotesRequest \<Rightarrow> Node \<Rightarrow> go_error + CandidateVotesResponse \<Rightarrow> Node \<Rightarrow> bool" where
  "vote_outcome request n r n' \<longleftrightarrow>
     vote_kept n n' \<and> LogEntryInMemory n' = LogEntryInMemory n \<and> node_commit n' = node_commit n \<and>
     StateMapDLock n' = StateMapDLock n \<and>
     LastAppliedIndex (NodeContextInstance n') = LastAppliedIndex (NodeContextInstance n) \<and>
     (case r of
        Inl _ \<Rightarrow> True
      | Inr resp \<Rightarrow> cvr_Term resp = node_term n' \<and>
          (cvr_Accepted resp \<longrightarrow> VotedPeer (NodeContextInstance n') = cvq_NodeId request \<and> node_term n' = cvq_Term request))"

text \<open>
  How far a log reaches, ordered by the term of the last entry and then by its index: the order in
  which Raft compares logs.
\<close>

datatype log_position = Position (pos_term: u64) (pos_index: u64)

instantiation log_position :: linorder
begin

definition less_eq_log_position :: "log_position \<Rightarrow> log_position \<Rightarrow> bool" where
  "p \<le> q \<longleftrightarrow> pos_term p < pos_term q \<or> pos_term p = pos_term q \<and> pos_index p \<le> pos_index q"

definition less_log_position :: "log_position \<Rightarrow> log_position \<Rightarrow> bool" where
  "p < q \<longleftrightarrow> pos_term p < pos_term q \<or> pos_term p = pos_term q \<and> pos_index p < pos_index q"

instance
  by standard (auto simp: less_eq_log_position_def less_log_position_def log_position.expand)

end

definition last_position :: "LogMemory \<Rightarrow> log_position" where
  "last_position lm =
     (case logInMemory lm (maximumIndex lm) of
        None \<Rightarrow> Position 0 (maximumIndex lm)
      | Some e \<Rightarrow> Position (le_Term e) (maximumIndex lm))"

lemma same_term_vote_decision:
  assumes "wf_Node n" "\<not> cvr_Accepted response"
  shows "\<exists>resp n'. same_term_vote now request response n = (Inr resp, n') \<and>
    (cvr_Accepted resp \<longleftrightarrow> last_position (LogEntryInMemory n) \<le> Position (cvq_PrevEntryTerm request) (cvq_PrevEntryIndex request))"
proof (cases "maximumIndex (LogEntryInMemory n) = 0")
  case True
  have "0 \<notin> dom (logInMemory (LogEntryInMemory n))" using wf_NodeD(2) [OF assms(1)] by (simp add: contiguous_def)
  then have "logInMemory (LogEntryInMemory n) 0 = None" by auto
  with True assms(2) show ?thesis
    by (auto simp: same_term_vote_def MaximumIndex_def last_position_def less_eq_log_position_def word_coorder.not_eq_extremum)
next
  case False
  then have "1 \<le> maximumIndex (LogEntryInMemory n)" by (simp add: word_ge_1)
  then obtain e where "FetchLogEntry (LogEntryInMemory n) (maximumIndex (LogEntryInMemory n)) = Inr e"
      "logInMemory (LogEntryInMemory n) (maximumIndex (LogEntryInMemory n)) = Some e"
    using contiguous_fetch [OF wf_NodeD(2) [OF assms(1)]] by blast
  with False assms(2) show ?thesis
    by (auto simp: same_term_vote_def MaximumIndex_def last_position_def less_eq_log_position_def)
qed

lemma CandidateVotesService_decision:
  assumes "wf_Node n" "node_state n \<noteq> Dead"
  shows "\<exists>resp n'. CandidateVotesService now request n = (Inr resp, n') \<and>
    (cvr_Accepted resp \<longleftrightarrow> node_term n < cvq_Term request \<or>
       may_vote request n \<and> last_position (LogEntryInMemory n) \<le> Position (cvq_PrevEntryTerm request) (cvq_PrevEntryIndex request))"
proof -
  consider "node_term n < cvq_Term request" | "\<not> node_term n < cvq_Term request" "\<not> may_vote request n" | "may_vote request n" by blast
  then show ?thesis
  proof cases
    case 1
    with CandidateVotesService_newer [OF assms(2) 1] show ?thesis by simp
  next
    case 2
    with CandidateVotesService_refused [OF assms(2) 2] show ?thesis by simp
  next
    case 3
    let ?r = "\<lparr>cvr_Term = node_term n, cvr_NodeId = SelfId (NodeConfigInstance n), cvr_Accepted = False\<rparr>"
    obtain resp n' where s: "same_term_vote now request ?r n = (Inr resp, n')"
        "cvr_Accepted resp \<longleftrightarrow> last_position (LogEntryInMemory n) \<le> Position (cvq_PrevEntryTerm request) (cvq_PrevEntryIndex request)"
      using same_term_vote_decision [OF assms(1), of ?r now request] by auto
    have "\<not> node_term n < cvq_Term request" using 3 by (simp add: may_vote_def)
    with CandidateVotesService_same [OF assms(2) 3 s(1)] s(2) 3 show ?thesis by simp
  qed
qed

lemma CandidateVotesService_outcome:
  assumes "CandidateVotesService now request n = (r, n')"
  shows "vote_outcome request n r n'"
proof (cases "node_state n = Dead")
  case True
  with assms show ?thesis by (auto simp: CandidateVotesService_def vote_outcome_def)
next
  case alive: False
  show ?thesis
  proof (cases "node_term n < cvq_Term request")
    case True
    from CandidateVotesService_newer [OF alive True, of now] assms True show ?thesis
      by (auto simp: vote_outcome_def vote_kept_def)
  next
    case old: False
    show ?thesis
    proof (cases "may_vote request n")
      case False
      from CandidateVotesService_refused [OF alive old False, of now] assms show ?thesis
        by (auto simp: vote_outcome_def)
    next
      case True
      obtain r1 n1 where s: "same_term_vote now request
          \<lparr>cvr_Term = node_term n, cvr_NodeId = SelfId (NodeConfigInstance n), cvr_Accepted = False\<rparr> n = (r1, n1)"
        by fastforce
      note f = same_term_vote_spec [OF s]
      have u: "n' = n1" "r = (case r1 of Inl err \<Rightarrow> Inl err | Inr resp \<Rightarrow> Inr (resp\<lparr>cvr_Term := node_term n1\<rparr>))"
        using CandidateVotesService_same [OF alive True s] assms by simp_all
      have "vote_kept n n'" using f(1,6) True u(1) by (auto simp: vote_kept_def may_vote_def)
      moreover have "cvr_Accepted resp \<Longrightarrow> VotedPeer (NodeContextInstance n1) = cvq_NodeId request" if "r1 = Inr resp" for resp
        using f(7) [OF that] by simp
      ultimately show ?thesis
        using f(1-5) u True by (cases r1) (simp_all add: vote_outcome_def may_vote_def)
    qed
  qed
qed

text \<open>
  An append request keeps the vote of a follower. A candidate or leader that hears from the
  leader of its own term forgets its vote: the handler resets it.
\<close>

lemma accept_entries_frame:
  assumes "accept_entries request response n = (r, n')"
  shows "node_term n' = node_term n" "VotedPeer (NodeContextInstance n') = VotedPeer (NodeContextInstance n)"
  using assms by (auto simp: accept_entries_def Let_def split: sum.splits prod.splits option.splits if_splits)

lemma AppendEntriesService_term_vote:
  assumes "AppendEntriesService now request n = (r, n')"
  shows "n' = n \<or> node_term n \<le> aeq_Term request \<and> node_term n' = aeq_Term request \<and>
    VotedPeer (NodeContextInstance n') =
      (if node_term n < aeq_Term request \<or> node_state n \<noteq> Follower then 0 else VotedPeer (NodeContextInstance n))"
proof (cases "node_state n = Dead \<or> aeq_Term request < node_term n")
  case True
  with assms AppendEntriesService_dead AppendEntriesService_stale show ?thesis by fastforce
next
  case False
  then have le: "node_term n \<le> aeq_Term request" and alive: "node_state n \<noteq> Dead" by auto
  have "node_term n' = node_term (hear now request n) \<and>
      VotedPeer (NodeContextInstance n') = VotedPeer (NodeContextInstance (hear now request n))"
    using assms AppendEntriesService_current [OF alive le, of now] accept_entries_frame
    by (fastforce simp: finish_def split: sum.splits bool.splits prod.splits)
  with hear_term [OF le] hear_vote le show ?thesis by metis
qed

lemma AppendEntriesService_vote_kept:
  assumes "AppendEntriesService now request n = (r, n')" "node_state n = Follower \<or> node_term n < aeq_Term request"
  shows "vote_kept n n'"
  using AppendEntriesService_term_vote [OF assms(1)] assms(2) by (auto simp: vote_kept_def)

subsection \<open>What a request leaves in the log\<close>

text \<open>The entries of a request, numbered from the index after the previous one.\<close>

definition numbered :: "u64 \<Rightarrow> Entry list \<Rightarrow> bool" where
  "numbered i es \<longleftrightarrow> (\<forall>k < length es. e_Index (es ! k) = i + of_nat k)"

lemma numbered_consecutive: "numbered i (map le_Entry les) \<Longrightarrow> consecutive i les"
proof (induction les arbitrary: i)
  case (Cons e les)
  have "e_Index (le_Entry e) = i" using Cons.prems by (auto simp: numbered_def dest: spec [of _ 0])
  moreover have "numbered (i + 1) (map le_Entry les)"
    using Cons.prems by (auto simp: numbered_def ac_simps dest: spec [of _ "Suc _"])
  ultimately show ?case using Cons.IH by simp
qed simp

lemma numbered_index:
  assumes "numbered i (map le_Entry les)" "unat i + length les < 2 ^ 64" "k < length les"
  shows "unat (le_Index (les ! k)) = unat i + k"
proof -
  have "le_Index (les ! k) = i + of_nat k" using assms(1,3) by (auto simp: numbered_def)
  moreover have "unat (i + of_nat k) = unat i + k" by (rule of_nat_word_inj) (use assms(2,3) in simp)
  ultimately show ?thesis by simp
qed

lemma numbered_distinct:
  assumes "numbered i (map le_Entry les)" "unat i + length les < 2 ^ 64"
  shows "distinct (map le_Index les)"
  using numbered_index [OF assms]
  by (auto simp: distinct_conv_nth) (metis add_left_cancel)

lemma numbered_range:
  assumes "numbered i (map le_Entry les)" "unat i + length les < 2 ^ 64" "e \<in> set les"
  shows "unat i \<le> unat (le_Index e)" "unat (le_Index e) < unat i + length les"
  using numbered_index [OF assms(1,2)] assms(3) by (auto simp: in_set_conv_nth)

lemma prev_matches_le: "prev_matches request n = Inr True \<Longrightarrow> aeq_PrevEntryIndex request \<le> maximumIndex (LogEntryInMemory n)"
  by (auto simp: prev_matches_def MaximumIndex_def Let_def split: if_splits)

lemma stored_entries:
  assumes wf: "wf_LogMemory lm" "\<forall>e \<in> set les. wf_LogEntry e"
    and num: "numbered i (map le_Entry les)" "unat i + length les < 2 ^ 64"
  shows "k < length les \<Longrightarrow> logInMemory (foldl put_entry lm les) (i + of_nat k) = Some (les ! k)"
    and "\<not> (unat i \<le> unat j \<and> unat j < unat i + length les) \<Longrightarrow> logInMemory (foldl put_entry lm les) j = logInMemory lm j"
proof -
  assume k: "k < length les"
  have "le_Index (les ! k) = i + of_nat k" using num(1) k by (auto simp: numbered_def)
  then show "logInMemory (foldl put_entry lm les) (i + of_nat k) = Some (les ! k)"
    using mem.get_put_all_in [OF wf numbered_distinct [OF num], of "les ! k"] k by simp
next
  assume "\<not> (unat i \<le> unat j \<and> unat j < unat i + length les)"
  then have "j \<notin> le_Index ` set les" using numbered_range [OF num] by blast
  then show "logInMemory (foldl put_entry lm les) j = logInMemory lm j" by (rule mem.get_put_all_other [OF wf])
qed

lemma AppendEntriesService_log:
  assumes wf: "wf_Node n" "maximumIndex (LogEntryInMemory n) \<noteq> - 1"
    and r: "AppendEntriesService now request n = (Inr resp, n')" "aer_Success resp"
    and num: "numbered (aeq_PrevEntryIndex request + 1) (aeq_EntryList request)"
      "unat (aeq_PrevEntryIndex request) + 1 + length (aeq_EntryList request) < 2 ^ 64"
  shows "wf_Node n'"
    and "k < length (aeq_EntryList request) \<Longrightarrow>
      \<exists>e. logInMemory (LogEntryInMemory n') (aeq_PrevEntryIndex request + 1 + of_nat k) = Some e \<and>
          le_Entry e = aeq_EntryList request ! k \<and> wf_LogEntry e"
    and "unat j \<le> unat (aeq_PrevEntryIndex request) \<or>
         unat (aeq_PrevEntryIndex request) + length (aeq_EntryList request) < unat j \<Longrightarrow>
      logInMemory (LogEntryInMemory n') j = logInMemory (LogEntryInMemory n) j"
    and "aeq_PrevEntryIndex request + of_nat (length (aeq_EntryList request)) \<le> maximumIndex (LogEntryInMemory n')"
proof -
  let ?p = "aeq_PrevEntryIndex request" and ?es = "aeq_EntryList request"
  obtain les where les: "prev_matches request n = Inr True" "decode_entries ?es = Inr les"
      "LogEntryInMemory n' = foldl put_entry (LogEntryInMemory n) les"
      "node_commit n' = (if node_commit n < aeq_CommitEntryIndex request
         then Uint64Min (aeq_CommitEntryIndex request) (maximumIndex (LogEntryInMemory n')) else node_commit n)"
      "StateMapDLock n' = StateMapDLock n"
      "LastAppliedIndex (NodeContextInstance n') = LastAppliedIndex (NodeContextInstance n)"
    using AppendEntriesService_success [OF r] by metis
  have es: "map le_Entry les = ?es" "\<forall>e \<in> set les. wf_LogEntry e" using decode_entries_spec [OF les(2)] by auto
  then have len: "length les = length ?es" by (metis length_map)
  have p: "?p \<le> maximumIndex (LogEntryInMemory n)" by (rule prev_matches_le [OF les(1)])
  then have "?p \<noteq> - 1" using wf(2) by (metis word_order.extremum_uniqueI)
  then have up: "unat (?p + 1) = unat ?p + 1" by (simp add: unat_plus_1)
  have num': "numbered (?p + 1) (map le_Entry les)" "unat (?p + 1) + length les < 2 ^ 64"
    using num es(1) len up by simp_all
  have log: "wf_LogMemory (LogEntryInMemory n')" "contiguous (LogEntryInMemory n')"
      "maximumIndex (LogEntryInMemory n) \<le> maximumIndex (LogEntryInMemory n')"
    using append_consecutive [OF wf_NodeD(1,2) [OF wf(1)] es(2) numbered_consecutive [OF num'(1)] _ _ wf(2) num'(2)]
      up p wf(2) by (auto simp: les(3) word_le_nat_alt unat_plus_1)
  show "wf_Node n'"
    using wf_NodeD [OF wf(1)] log les(4,5,6) Uint64Min_le(2) [of "aeq_CommitEntryIndex request" "maximumIndex (LogEntryInMemory n')"]
    by (auto simp: wf_Node_def Uint64Min_def)
  note st = stored_entries [OF wf_NodeD(1) [OF wf(1)] es(2) num', folded les(3)]
  show "\<exists>e. logInMemory (LogEntryInMemory n') (?p + 1 + of_nat k) = Some e \<and> le_Entry e = ?es ! k \<and> wf_LogEntry e"
    if "k < length ?es"
    using st(1) [of k] that es len by (metis nth_map nth_mem)
  show "logInMemory (LogEntryInMemory n') j = logInMemory (LogEntryInMemory n) j"
    if "unat j \<le> unat ?p \<or> unat ?p + length ?es < unat j"
  proof -
    have "\<not> (unat (?p + 1) \<le> unat j \<and> unat j < unat (?p + 1) + length les)" using that unfolding len up by arith
    then show ?thesis by (rule st(2))
  qed
  show "?p + of_nat (length ?es) \<le> maximumIndex (LogEntryInMemory n')"
  proof (cases "length ?es")
    case 0
    then show ?thesis using p log(3) by simp
  next
    case (Suc m)
    then have "logInMemory (LogEntryInMemory n') (?p + 1 + of_nat m) = Some (les ! m)" using st(1) [of m] len by simp
    then have "?p + 1 + of_nat m \<le> maximumIndex (LogEntryInMemory n')" using wf_LogMemoryD [OF log(1)] by blast
    then show ?thesis unfolding Suc of_nat_Suc by (simp only: add.assoc)
  qed
qed

lemma log_range_numbered:
  assumes "wf_LogMemory lm" "contiguous lm" "1 \<le> i" "j \<le> maximumIndex lm"
  shows "numbered i (map le_Entry (log_range lm i j))"
proof -
  have "e_Index (le_Entry (log_range lm i j ! k)) = i + of_nat k" if k: "k < length (log_range lm i j)" for k
  proof -
    have lt: "unat i + k < Suc (unat j)" using k by (simp add: log_range_def split: if_splits)
    then have "unat (i + of_nat k) = unat i + k"
      by (intro of_nat_word_inj) (use unsigned_less [of j, where ?'a = nat] in simp)
    moreover have idx: "(of_nat (unat i + k) :: u64) = i + of_nat k" by simp
    ultimately
    have "1 \<le> i + of_nat k" "i + of_nat k \<le> maximumIndex lm" using assms(3,4) lt by (auto simp: word_le_nat_alt)
    then obtain e where "logInMemory lm (i + of_nat k) = Some e" using contiguous_lookup [OF assms(2)] by blast
    moreover have "log_range lm i j ! k = the (logInMemory lm (i + of_nat k))" using lt by (intro log_range_nth) simp
    ultimately show ?thesis using wf_LogMemoryD [OF assms(1)] by simp
  qed
  then show ?thesis by (simp add: numbered_def)
qed

lemma AppendEntries_request_range:
  assumes l: "node_state l = Leader" "wf_Node l" "maximumIndex (LogEntryInMemory l) \<noteq> - 1"
      "1 \<le> NextIndex (PeerList l ! i)" "NextIndex (PeerList l ! i) \<le> maximumIndex (LogEntryInMemory l) + 1"
    and q: "AppendEntries_request i l = Some (request, x, len)"
  shows "aeq_PrevEntryIndex request = x - 1" "unat (x - 1) + 1 = unat x" "x \<noteq> 0"
    "aeq_EntryList request = map le_Entry (log_range (LogEntryInMemory l) x (x - 1 + len))"
    "x - 1 + len \<le> maximumIndex (LogEntryInMemory l)" "unat (x - 1 + len) = unat (x - 1) + unat len"
    "length (aeq_EntryList request) = unat len"
    "numbered (aeq_PrevEntryIndex request + 1) (aeq_EntryList request)"
    "unat (aeq_PrevEntryIndex request) + 1 + length (aeq_EntryList request) < 2 ^ 64"
proof -
  let ?L = "LogEntryInMemory l"
  obtain x: "x = NextIndex (PeerList l ! i)" and es: "aeq_EntryList request = map le_Entry (log_range ?L x (x - 1 + len))"
      and bound: "x - 1 + len \<le> maximumIndex ?L" and prev: "aeq_PrevEntryIndex request = x - 1"
      and len: "len = Uint64Min (ucast (MaxLogUnitsRecover (Params (NodeConfigInstance l)))) (maximumIndex ?L - (x - 1))"
    using AppendEntries_request_spec [OF l] q by auto
  have x1: "x \<noteq> 0" using l(4) x by (auto simp: word_ge_1)
  then have ux: "unat (x - 1) + 1 = unat x" using word_pred_less [of x] by (auto simp: word_less_nat_alt)
  have "x - 1 \<le> maximumIndex ?L"
    using l(3,5) x ux unat_plus_1 [OF l(3)] by (simp add: word_le_nat_alt)
  then have "unat (maximumIndex ?L - (x - 1)) = unat (maximumIndex ?L) - unat (x - 1)" by (rule unat_sub)
  moreover have "unat len \<le> unat (maximumIndex ?L - (x - 1))"
    using Uint64Min_le(2) unfolding len by (metis word_le_nat_alt)
  ultimately have ulen: "unat (x - 1 + len) = unat (x - 1) + unat len"
    using unsigned_less [of "maximumIndex ?L", where ?'a = nat] \<open>x - 1 \<le> maximumIndex ?L\<close>
    by (simp add: unat_word_ariths(1) word_le_nat_alt)
  have leng: "length (aeq_EntryList request) = unat len" using ux ulen by (simp add: es log_range_def del: upt_Suc)
  have num: "numbered (aeq_PrevEntryIndex request + 1) (aeq_EntryList request)"
    using log_range_numbered [OF wf_NodeD(1,2) [OF l(2)] _ bound, of x] x1 by (simp add: prev es word_ge_1)
  have room: "unat (aeq_PrevEntryIndex request) + 1 + length (aeq_EntryList request) < 2 ^ 64"
    using bound l(3) ulen leng unsigned_less [of "maximumIndex ?L + 1", where ?'a = nat] unat_plus_1 [OF l(3)]
    by (simp add: prev word_le_nat_alt)
  show "aeq_PrevEntryIndex request = x - 1" "unat (x - 1) + 1 = unat x" "x \<noteq> 0"
    "aeq_EntryList request = map le_Entry (log_range ?L x (x - 1 + len))" "x - 1 + len \<le> maximumIndex ?L"
    "unat (x - 1 + len) = unat (x - 1) + unat len" "length (aeq_EntryList request) = unat len"
    "numbered (aeq_PrevEntryIndex request + 1) (aeq_EntryList request)"
    "unat (aeq_PrevEntryIndex request) + 1 + length (aeq_EntryList request) < 2 ^ 64"
    by (fact prev ux x1 es bound ulen leng num room)+
qed

text \<open>
  What a follower has after it accepted a request of a leader: where it agreed with the leader
  before the first new entry, it agrees up to the last one.
\<close>

lemma AppendEntries_transfer:
  assumes l: "node_state l = Leader" "wf_Node l" "maximumIndex (LogEntryInMemory l) \<noteq> - 1"
      "1 \<le> NextIndex (PeerList l ! i)" "NextIndex (PeerList l ! i) \<le> maximumIndex (LogEntryInMemory l) + 1"
    and q: "AppendEntries_request i l = Some (request, x, len)"
    and n: "wf_Node n" "maximumIndex (LogEntryInMemory n) \<noteq> - 1"
    and r: "AppendEntriesService now request n = (Inr resp, n')" "aer_Success resp"
    and agree: "\<forall>j. j < x \<longrightarrow> logInMemory (LogEntryInMemory n) j = logInMemory (LogEntryInMemory l) j"
    and j: "j \<le> x - 1 + len"
  shows "logInMemory (LogEntryInMemory n') j = logInMemory (LogEntryInMemory l) j"
proof -
  let ?L = "LogEntryInMemory l"
  note range = AppendEntries_request_range [OF l q]
  note prev = range(1) and ux = range(2) and x1 = range(3) and es = range(4) and bound = range(5) and ulen = range(6)
    and leng = range(7)
  note log = AppendEntriesService_log [OF n r range(8,9)]
  show ?thesis
  proof (cases "j < x")
    case True
    then have "unat j \<le> unat (aeq_PrevEntryIndex request)" using ux by (simp add: prev word_less_nat_alt)
    then show ?thesis using log(3) agree True by simp
  next
    case False
    define k where "k = unat j - unat x"
    have k: "unat x + k = unat j" "k < unat len" using False j ux ulen by (simp_all add: k_def word_less_nat_alt word_le_nat_alt)
    have "(of_nat (unat x + k) :: u64) = j" unfolding k(1) by simp
    then have jk: "j = x + of_nat k" by simp
    obtain e where e: "logInMemory (LogEntryInMemory n') j = Some e" "le_Entry e = aeq_EntryList request ! k" "wf_LogEntry e"
      using log(2) [of k] k leng x1 by (auto simp: prev jk)
    have "1 \<le> j" "j \<le> maximumIndex ?L" using False x1 j bound by (auto simp: word_ge_1 word_gt_0)
    then obtain e' where e': "logInMemory ?L j = Some e'" using contiguous_lookup [OF wf_NodeD(2) [OF l(2)]] by blast
    have "aeq_EntryList request ! k = le_Entry e'"
      using k j leng e' by (simp add: es log_range_nth word_le_nat_alt jk)
    then have "e = e'" using e e' wf_LogMemoryD [OF wf_NodeD(1) [OF l(2)]] wf_LogEntry_inj by metis
    then show ?thesis using e e' by simp
  qed
qed

lemma decode_wf: "\<forall>e \<in> set les. wf_LogEntry e \<Longrightarrow> decode_entries (map le_Entry les) = Inr les"
  by (induction les) (simp_all add: wf_LogEntry_def)

end
