(* ===== verification/Raft_Cluster.thy ===== *)
theory Raft_Cluster
  imports P2P_Server
begin

section \<open>A cluster of nodes: one leader per term\<close>

text \<open>
  The nodes of a cluster and the messages of elections, as a step relation over the handlers of
  node/node.go and node/p2p_server.go. A message once sent stays in the network and may be
  delivered any number of times, in any order, or never. Sets record history: who answered which
  vote request, which nodes took the lead in which term, which append requests were sent.

  Four things are excluded by the rules, because the code does not keep the property under them. A
  late answer to a vote request whose term is newer than the election it belongs to but older than
  the term of the node is not delivered (\<open>count_vote\<close>): the handler compares it with the term of the
  election and would lower the term of the node. A late answer to an append request whose term is
  newer than the term in which the request was sent but not newer than the term of the node is not
  delivered (\<open>count_append\<close>): the handler would lower the term of the node or, when the terms are
  equal, keep it and forget the vote the node has given in it. A node does not restart, because its
  vote is not on disk. A node in the last term has no timeout, so terms do not wrap around. The
  lemmas lead to: a term has at most one leader.
\<close>

record Cluster =
  members :: "u32 set"
  node_of :: "u32 \<Rightarrow> Node"
  election_of :: "u32 \<Rightarrow> u64 \<Rightarrow> Election option"
  vote_requests :: "CandidateVotesRequest set"
  vote_answers :: "(u32 \<times> u64 \<times> u32 \<times> CandidateVotesResponse) set"
  append_requests :: "AppendEntriesRequest set"
  leaders :: "(u32 \<times> u64) set"

abbreviation voted :: "Node \<Rightarrow> u32" where
  "voted n \<equiv> VotedPeer (NodeContextInstance n)"

definition set_node :: "u32 \<Rightarrow> Node \<Rightarrow> Cluster \<Rightarrow> Cluster" where
  "set_node i n c = c\<lparr>node_of := (node_of c)(i := n)\<rparr>"

lemma set_node_simps [simp]:
  "members (set_node i n c) = members c" "node_of (set_node i n c) = (node_of c)(i := n)"
  "election_of (set_node i n c) = election_of c" "vote_requests (set_node i n c) = vote_requests c"
  "vote_answers (set_node i n c) = vote_answers c" "append_requests (set_node i n c) = append_requests c"
  "leaders (set_node i n c) = leaders c"
  by (simp_all add: set_node_def)

text \<open>What the other operations of a node keep: they do not vote.\<close>

definition quiet :: "Node \<Rightarrow> Node \<Rightarrow> bool" where
  "quiet n n' \<longleftrightarrow> node_term n' = node_term n \<and> node_state n' = node_state n \<and> voted n' = voted n \<and>
     NodeConfigInstance n' = NodeConfigInstance n \<and> map pn_PeerId (PeerList n') = map pn_PeerId (PeerList n)"

definition add_leader :: "u32 \<Rightarrow> Cluster \<Rightarrow> Cluster" where
  "add_leader i c =
     (if node_state (node_of c i) = Leader then c\<lparr>leaders := insert (i, node_term (node_of c i)) (leaders c)\<rparr> else c)"

inductive cluster_step :: "Cluster \<Rightarrow> Cluster \<Rightarrow> bool" where
  timeout:
    "i \<in> members c \<Longrightarrow> RunElectionDetectorModule_tick now tmo start (node_of c i) = (goes_on, n', Some el) \<Longrightarrow>
     node_term (node_of c i) \<noteq> - 1 \<Longrightarrow>
     cluster_step c ((set_node i n' c)\<lparr>election_of := (election_of c)(i := (election_of c i)(savedCurrentTerm el \<mapsto> el))\<rparr>)"
| ask_vote:
    "i \<in> members c \<Longrightarrow> election_of c i saved = Some el \<Longrightarrow> CandidateVote_request saved (node_of c i) = Some request \<Longrightarrow>
     cluster_step c (c\<lparr>vote_requests := insert request (vote_requests c)\<rparr>)"
| answer_vote:
    "request \<in> vote_requests c \<Longrightarrow> j \<in> set (PeerId (NodeConfigInstance (node_of c (cvq_NodeId request)))) \<Longrightarrow>
     CandidateVotesService now request (node_of c j) = (Inr response, n') \<Longrightarrow>
     cluster_step c ((set_node j n' c)\<lparr>vote_answers :=
       insert (cvq_NodeId request, cvq_Term request, j, response) (vote_answers c)\<rparr>)"
| fail_vote:
    "request \<in> vote_requests c \<Longrightarrow> j \<in> set (PeerId (NodeConfigInstance (node_of c (cvq_NodeId request)))) \<Longrightarrow>
     CandidateVotesService now request (node_of c j) = (Inl err, n') \<Longrightarrow> cluster_step c (set_node j n' c)"
| count_vote:
    "(i, saved, j, response) \<in> vote_answers c \<Longrightarrow> election_of c i saved = Some el \<Longrightarrow>
     saved < cvr_Term response \<longrightarrow> node_term (node_of c i) \<le> cvr_Term response \<Longrightarrow>
     CandidateVote_response order now j response (node_of c i) el = (n', el') \<Longrightarrow>
     cluster_step c (add_leader i
       ((set_node i n' c)\<lparr>election_of := (election_of c)(i := (election_of c i)(saved \<mapsto> el'))\<rparr>))"
| ask_append:
    "i \<in> members c \<Longrightarrow> AppendEntries_request k (node_of c i) = Some (request, next_index, len) \<Longrightarrow>
     cluster_step c (c\<lparr>append_requests := insert request (append_requests c)\<rparr>)"
| answer_append:
    "request \<in> append_requests c \<Longrightarrow> j \<in> members c \<Longrightarrow> j \<noteq> aeq_NodeId request \<Longrightarrow>
     AppendEntriesService now request (node_of c j) = (r, n') \<Longrightarrow> cluster_step c (set_node j n' c)"
| count_append:
    "i \<in> members c \<Longrightarrow> start < aer_Term response \<longrightarrow> node_term (node_of c i) < aer_Term response \<Longrightarrow>
     cluster_step c (set_node i (AppendEntries_response now k start next_index len response (node_of c i)) c)"
| other:
    "i \<in> members c \<Longrightarrow> quiet (node_of c i) n' \<Longrightarrow> cluster_step c (set_node i n' c)"

inductive cluster_run :: "Cluster \<Rightarrow> Cluster \<Rightarrow> bool" where
  start: "cluster_run c c"
| step: "cluster_run c c1 \<Longrightarrow> cluster_step c1 c2 \<Longrightarrow> cluster_run c c2"

lemma set_node_id [simp]: "set_node i (node_of c i) c = c"
  by (simp add: set_node_def)

lemma set_node_election: "set_node i n (c\<lparr>election_of := e\<rparr>) = (set_node i n c)\<lparr>election_of := e\<rparr>"
  by (simp add: set_node_def)

lemma add_leader_known:
  "(node_state (node_of c i) = Leader \<Longrightarrow> (i, node_term (node_of c i)) \<in> leaders c) \<Longrightarrow> add_leader i c = c"
  by (simp add: add_leader_def insert_absorb)

subsection \<open>What the handlers do to term, role and vote\<close>

lemma quiet_refl [simp]: "quiet n n"
  by (simp add: quiet_def)

lemma quiet_trans: "quiet n n1 \<Longrightarrow> quiet n1 n2 \<Longrightarrow> quiet n n2"
  by (simp add: quiet_def)

lemma quiet_commitProcedure: "quiet n (commitProcedure n)"
  by (simp add: quiet_def)

lemma quiet_log: "quiet n (n\<lparr>LogEntryInMemory := lm\<rparr>)"
  by (simp add: quiet_def)

lemma quiet_upd_ctx:
  assumes "CurrentTerm (f (NodeContextInstance n)) = node_term n" "NodeState (f (NodeContextInstance n)) = node_state n"
    "VotedPeer (f (NodeContextInstance n)) = voted n"
  shows "quiet n (upd_ctx f n)"
  using assms by (simp add: quiet_def)

lemma quiet_scan: "scanDLockStateMap order ts n di = (r, n', di') \<Longrightarrow> quiet n n'"
  by (auto simp: scanDLockStateMap_def quiet_def Let_def split: prod.splits sum.splits option.splits if_splits)

lemma quiet_InitFromDLockStateMap: "InitFromDLockStateMap order ts n di = (r, n', di') \<Longrightarrow> quiet n n'"
  unfolding InitFromDLockStateMap_def by (metis quiet_commitProcedure quiet_scan quiet_trans)

lemma BecomeLeader_election:
  "node_term (BecomeLeader order now n) = node_term n" "node_state (BecomeLeader order now n) = Leader"
  "voted (BecomeLeader order now n) = voted n" "NodeConfigInstance (BecomeLeader order now n) = NodeConfigInstance n"
  "map pn_PeerId (PeerList (BecomeLeader order now n)) = map pn_PeerId (PeerList n)"
proof -
  let ?n = "upd_ctx (\<lambda>nc. nc\<lparr>NodeState := Leader\<rparr>) n"
  obtain r n2 di where i: "InitFromDLockStateMap order now ?n (NewDlockInterchange ?n) = (r, n2, di)"
    by (cases "InitFromDLockStateMap order now ?n (NewDlockInterchange ?n)") auto
  have "quiet ?n n2" using i by (rule quiet_InitFromDLockStateMap)
  then show "node_term (BecomeLeader order now n) = node_term n" "node_state (BecomeLeader order now n) = Leader"
    "voted (BecomeLeader order now n) = voted n" "NodeConfigInstance (BecomeLeader order now n) = NodeConfigInstance n"
    "map pn_PeerId (PeerList (BecomeLeader order now n)) = map pn_PeerId (PeerList n)"
    using i by (simp_all add: BecomeLeader_def Let_def quiet_def comp_def)
qed

subsection \<open>The invariant\<close>

definition granted :: "Cluster \<Rightarrow> u32 \<Rightarrow> u64 \<Rightarrow> u32 \<Rightarrow> bool" where
  "granted c k t j \<longleftrightarrow> (\<exists>response. (k, t, j, response) \<in> vote_answers c \<and> cvr_Accepted response)"

text \<open>The members know each other and themselves.\<close>

definition inv_members :: "Cluster \<Rightarrow> bool" where
  "inv_members c \<longleftrightarrow> (\<forall>i \<in> members c. i \<noteq> 0 \<and> SelfId (NodeConfigInstance (node_of c i)) = i \<and>
     cluster_members (NodeConfigInstance (node_of c i)) = members c \<and> wf_Peers (node_of c i))"

text \<open>Whoever stands for election or leads has voted for itself.\<close>

definition inv_self_vote :: "Cluster \<Rightarrow> bool" where
  "inv_self_vote c \<longleftrightarrow> (\<forall>i \<in> members c. node_state (node_of c i) \<in> {Candidate, Leader} \<longrightarrow> voted (node_of c i) = i)"

definition inv_requests :: "Cluster \<Rightarrow> bool" where
  "inv_requests c \<longleftrightarrow> (\<forall>request \<in> vote_requests c. cvq_NodeId request \<in> members c) \<and>
     (\<forall>request \<in> append_requests c. (aeq_NodeId request, aeq_Term request) \<in> leaders c)"

text \<open>A vote given in the voter's term is the vote it remembers, and there is one per term.\<close>

definition inv_votes :: "Cluster \<Rightarrow> bool" where
  "inv_votes c \<longleftrightarrow>
     (\<forall>k t j response. (k, t, j, response) \<in> vote_answers c \<longrightarrow> k \<in> members c \<and> j \<in> members c \<and> j \<noteq> k) \<and>
     (\<forall>k t j. granted c k t j \<longrightarrow> t \<le> node_term (node_of c j) \<and> (node_term (node_of c j) = t \<longrightarrow> voted (node_of c j) = k)) \<and>
     (\<forall>k k' t j. granted c k t j \<longrightarrow> granted c k' t j \<longrightarrow> k = k')"

text \<open>An election counts the candidate and nodes that have voted for it.\<close>

definition inv_elections :: "Cluster \<Rightarrow> bool" where
  "inv_elections c \<longleftrightarrow> (\<forall>i \<in> members c. \<forall>t el. election_of c i t = Some el \<longrightarrow>
     savedCurrentTerm el = t \<and> t \<le> node_term (node_of c i) \<and> wf_Election (NodeConfigInstance (node_of c i)) el \<and>
     (\<forall>j \<in> voters (NodeConfigInstance (node_of c i)) el. j = i \<or> granted c i t j))"

text \<open>
  A leader was elected by a majority, has voted for nobody else, and leads for as long as its
  term lasts.
\<close>

definition elected :: "Cluster \<Rightarrow> u32 \<Rightarrow> u64 \<Rightarrow> bool" where
  "elected c i t \<longleftrightarrow> i \<in> members c \<and> (\<forall>k. \<not> granted c k t i) \<and>
     (\<exists>Q. cluster.quorum (NodeConfigInstance (node_of c i)) Q \<and> (\<forall>j \<in> Q. j = i \<or> granted c i t j)) \<and>
     (t < node_term (node_of c i) \<or> t = node_term (node_of c i) \<and> node_state (node_of c i) = Leader)"

definition inv_leaders :: "Cluster \<Rightarrow> bool" where
  "inv_leaders c \<longleftrightarrow> (\<forall>i t. (i, t) \<in> leaders c \<longrightarrow> elected c i t) \<and>
     (\<forall>i \<in> members c. node_state (node_of c i) = Leader \<longrightarrow> (i, node_term (node_of c i)) \<in> leaders c)"

definition inv_cluster :: "Cluster \<Rightarrow> bool" where
  "inv_cluster c \<longleftrightarrow> inv_members c \<and> inv_self_vote c \<and> inv_requests c \<and> inv_votes c \<and> inv_elections c \<and> inv_leaders c"

lemma granted_cong: "vote_answers c' = vote_answers c \<Longrightarrow> granted c' = granted c"
  by (simp add: granted_def fun_eq_iff)

lemma granted_set_node [simp]: "granted (set_node i n c) = granted c"
  by (rule granted_cong) simp

text \<open>Two leaders of one term would have been elected by two majorities, and these have a member in common.\<close>

lemma one_leader:
  assumes "inv_cluster c" "(i, t) \<in> leaders c" "(k, t) \<in> leaders c"
  shows "i = k"
proof (rule ccontr)
  assume ne: "i \<noteq> k"
  have el: "elected c i t" "elected c k t" using assms by (auto simp: inv_cluster_def inv_leaders_def)
  then obtain Q R where Q: "cluster.quorum (NodeConfigInstance (node_of c i)) Q" "\<forall>j \<in> Q. j = i \<or> granted c i t j"
      and R: "cluster.quorum (NodeConfigInstance (node_of c k)) R" "\<forall>j \<in> R. j = k \<or> granted c k t j"
    unfolding elected_def by blast
  have same: "cluster_members (NodeConfigInstance (node_of c i)) = cluster_members (NodeConfigInstance (node_of c k))"
    using assms(1) el by (simp add: inv_cluster_def inv_members_def elected_def)
  have none: "\<not> granted c k t i" "\<not> granted c i t k" using el by (simp_all add: elected_def)
  have "cluster.quorum (NodeConfigInstance (node_of c i)) R" using R(1) same by (simp add: cluster.quorum_def)
  then obtain j where j: "j \<in> Q" "j \<in> R" using cluster.quorum_intersect Q(1) by blast
  show False
  proof (cases "j = i \<or> j = k")
    case True
    then show False using bspec [OF Q(2) j(1)] bspec [OF R(2) j(2)] ne none by auto
  next
    case False
    with j Q(2) R(2) have "granted c i t j" "granted c k t j" by blast+
    with assms(1) ne show False unfolding inv_cluster_def inv_votes_def by blast
  qed
qed

subsection \<open>Steps of one node\<close>

text \<open>
  A node may change freely as long as its term does not go back, candidates and leaders keep
  their own vote, a vote that somebody relies on is kept, and nobody starts or stops leading
  within a term.
\<close>

definition allowed_change :: "Cluster \<Rightarrow> u32 \<Rightarrow> Node \<Rightarrow> bool" where
  "allowed_change c i n' \<longleftrightarrow> (let n = node_of c i in
     NodeConfigInstance n' = NodeConfigInstance n \<and> map pn_PeerId (PeerList n') = map pn_PeerId (PeerList n) \<and>
     node_term n \<le> node_term n' \<and> (node_state n' \<in> {Candidate, Leader} \<longrightarrow> voted n' = i) \<and>
     (node_term n' = node_term n \<longrightarrow> voted n' = voted n \<or> (\<forall>k. \<not> granted c k (node_term n) i)) \<and>
     (node_term n' = node_term n \<longrightarrow> node_state n = Leader \<longrightarrow> node_state n' = Leader) \<and>
     (node_state n' = Leader \<longrightarrow> node_term n' = node_term n \<and> node_state n = Leader))"

lemma inv_set_node:
  assumes "inv_cluster c" "i \<in> members c" "allowed_change c i n'"
  shows "inv_cluster (set_node i n' c)"
proof -
  note ch = assms(3) [unfolded allowed_change_def Let_def]
  have inv: "inv_members c" "inv_self_vote c" "inv_requests c" "inv_votes c" "inv_elections c" "inv_leaders c"
    using assms(1) by (simp_all add: inv_cluster_def)
  let ?c = "set_node i n' c"
  have "inv_members ?c" using inv(1) ch by (auto simp: inv_members_def wf_Peers_def)
  moreover have "inv_self_vote ?c" using inv(2) ch by (simp add: inv_self_vote_def)
  moreover have "inv_requests ?c" using inv(3) by (simp add: inv_requests_def)
  moreover have "t \<le> node_term (node_of ?c j) \<and> (node_term (node_of ?c j) = t \<longrightarrow> voted (node_of ?c j) = k)"
    if g: "granted c k t j" for k t j
  proof (cases "j = i")
    case True
    have "t \<le> node_term (node_of c i)" "node_term (node_of c i) = t \<longrightarrow> voted (node_of c i) = k"
      using inv(4) g True unfolding inv_votes_def by blast+
    with ch g True show ?thesis by auto
  next
    case False
    with inv(4) g show ?thesis unfolding inv_votes_def by simp
  qed
  then have "inv_votes ?c" using inv(4) unfolding inv_votes_def granted_set_node by (simp; blast)
  moreover have "inv_elections ?c"
    using inv(5) ch unfolding inv_elections_def granted_set_node by (auto intro: order.trans)
  moreover have "elected ?c k t" if "elected c k t" for k t
    using that ch unfolding elected_def granted_set_node by (auto simp: cluster.quorum_def)
  then have "inv_leaders ?c" using inv(6) ch by (auto simp: inv_leaders_def)
  ultimately show ?thesis by (simp add: inv_cluster_def)
qed

lemma no_grants:
  assumes "inv_cluster c" "i \<in> members c" "node_state (node_of c i) \<in> {Candidate, Leader}"
  shows "\<not> granted c k (node_term (node_of c i)) i"
proof
  assume g: "granted c k (node_term (node_of c i)) i"
  have inv: "inv_votes c" "inv_self_vote c" using assms(1) by (simp_all add: inv_cluster_def)
  have "voted (node_of c i) = k" using inv(1) g unfolding inv_votes_def by blast
  moreover have "voted (node_of c i) = i" using inv(2) assms(2,3) unfolding inv_self_vote_def by blast
  moreover have "i \<noteq> k" using inv(1) g unfolding inv_votes_def granted_def by blast
  ultimately show False by simp
qed

lemma quiet_allowed: "inv_cluster c \<Longrightarrow> i \<in> members c \<Longrightarrow> quiet (node_of c i) n' \<Longrightarrow> allowed_change c i n'"
  by (auto simp: allowed_change_def Let_def quiet_def inv_cluster_def inv_self_vote_def)

lemma follower_allowed:
  assumes "inv_cluster c" "i \<in> members c"
    and "node_term (node_of c i) < t \<or> node_term (node_of c i) = t \<and> node_state (node_of c i) = Candidate"
  shows "allowed_change c i (BecomeFollower t now (upd_ctx (\<lambda>nc. nc\<lparr>HopToCurrentLeaderId := h\<rparr>) (node_of c i)))"
  using assms(3) no_grants [OF assms(1,2)] by (auto simp: allowed_change_def Let_def)

lemma quiet_upd_peer:
  assumes "\<And>p. pn_PeerId (f p) = pn_PeerId p"
  shows "quiet n (upd_peer k f n)"
proof -
  have "map pn_PeerId ((PeerList n)[k := f (PeerList n ! k)]) = map pn_PeerId (PeerList n)"
    by (cases "k < length (PeerList n)") (simp_all add: map_update assms list_update_same_conv list_update_beyond)
  then show ?thesis by (simp add: quiet_def)
qed

lemma quiet_go: "quiet n (go g n)"
  by (simp add: quiet_def)

lemma quiet_acknowledge: "quiet n (acknowledge k next_index n)"
  unfolding acknowledge_def by (rule quiet_trans [OF quiet_upd_peer quiet_upd_peer]) simp_all

lemma quiet_AppendEntries_success: "quiet n (AppendEntries_success k next_index len n)"
  unfolding AppendEntries_success_def Let_def
  by (rule quiet_trans [OF quiet_acknowledge]) (simp add: quiet_def)

lemma quiet_AppendEntries_conflict: "quiet n (AppendEntries_conflict k response n)"
proof -
  have "quiet n (go g (upd_peer k (\<lambda>p. p\<lparr>NextIndex := x\<rparr>) n))" for g x
    by (rule quiet_trans [OF quiet_upd_peer quiet_go]) simp
  then show ?thesis by (auto simp: AppendEntries_conflict_def Let_def split: sum.splits)
qed

lemma append_answer_allowed:
  assumes "inv_cluster c" "i \<in> members c" "start < aer_Term response \<longrightarrow> node_term (node_of c i) < aer_Term response"
  shows "allowed_change c i (AppendEntries_response now k start next_index len response (node_of c i))"
proof -
  have q: "quiet (node_of c i) (AppendEntries_response now k start next_index len response (node_of c i))"
    if "\<not> start < aer_Term response \<or> node_state (node_of c i) \<noteq> Leader"
    using that quiet_AppendEntries_success quiet_AppendEntries_conflict by (auto simp: AppendEntries_response_def)
  show ?thesis
  proof (cases "start < aer_Term response \<and> node_state (node_of c i) = Leader")
    case True
    with assms show ?thesis by (simp add: AppendEntries_response_def follower_allowed)
  next
    case False
    with q quiet_allowed [OF assms(1,2)] show ?thesis by blast
  qed
qed

text \<open>What the services keep besides term and vote.\<close>

lemma CandidateVotesService_frame:
  assumes "CandidateVotesService now request n = (r, n')"
  shows "NodeConfigInstance n' = NodeConfigInstance n" "PeerList n' = PeerList n"
    "node_term n' = node_term n \<Longrightarrow> node_state n' = node_state n"
    "node_term n < node_term n' \<Longrightarrow> node_state n' = Follower"
  using assms
  by (auto simp: CandidateVotesService_def same_term_vote_def Let_def split: if_splits sum.splits)

lemma accept_entries_roles:
  assumes "accept_entries request response n = (r, n')"
  shows "NodeConfigInstance n' = NodeConfigInstance n \<and> PeerList n' = PeerList n \<and> node_state n' = node_state n"
  using assms by (auto simp: accept_entries_def Let_def split: sum.splits prod.splits option.splits if_splits)

lemma AppendEntriesService_frame:
  assumes "AppendEntriesService now request n = (r, n')"
  shows "n' = n \<or> node_state n \<noteq> Dead \<and> node_state n' = Follower \<and> NodeConfigInstance n' = NodeConfigInstance n \<and> PeerList n' = PeerList n"
proof (cases "node_state n = Dead \<or> aeq_Term request < node_term n")
  case True
  with assms AppendEntriesService_dead AppendEntriesService_stale show ?thesis by fastforce
next
  case False
  then have le: "node_term n \<le> aeq_Term request" and alive: "node_state n \<noteq> Dead" by auto
  let ?h = "hear now request n"
  have h: "PeerList ?h = PeerList n" by (simp add: hear_def Let_def)
  have "n' = ?h \<or> (\<exists>rs r1. accept_entries request rs ?h = (r1, n'))"
    using assms AppendEntriesService_current [OF alive le, of now]
    by (fastforce simp: finish_def split: sum.splits bool.splits prod.splits)
  with accept_entries_roles h alive show ?thesis by fastforce
qed

lemma vote_service_allowed:
  assumes "inv_cluster c" "j \<in> members c" "CandidateVotesService now request (node_of c j) = (r, n')"
  shows "allowed_change c j n'"
proof -
  note fr = CandidateVotesService_frame [OF assms(3)]
  have kept: "vote_kept (node_of c j) n'"
    using CandidateVotesService_outcome [OF assms(3)] by (simp add: vote_outcome_def)
  have "\<not> granted c k (node_term (node_of c j)) j" if "voted (node_of c j) = 0" for k
  proof
    assume g: "granted c k (node_term (node_of c j)) j"
    have inv: "inv_votes c" "inv_members c" using assms(1) by (simp_all add: inv_cluster_def)
    have "voted (node_of c j) = k" using inv(1) g unfolding inv_votes_def by blast
    moreover have "k \<in> members c" using inv(1) g unfolding inv_votes_def granted_def by blast
    ultimately show False using inv(2) that unfolding inv_members_def by blast
  qed
  moreover have "voted (node_of c j) = j \<and> j \<noteq> 0" if "node_state (node_of c j) \<in> {Candidate, Leader}"
    using assms(1,2) that unfolding inv_cluster_def inv_self_vote_def inv_members_def by blast
  ultimately show ?thesis
    using kept fr by (auto simp: allowed_change_def Let_def vote_kept_def)
qed

lemma append_service_allowed:
  assumes "inv_cluster c" "j \<in> members c" "request \<in> append_requests c" "j \<noteq> aeq_NodeId request"
    "AppendEntriesService now request (node_of c j) = (r, n')"
  shows "allowed_change c j n'"
proof (cases "n' = node_of c j")
  case True
  with quiet_allowed [OF assms(1,2)] show ?thesis by simp
next
  case False
  have fr: "node_state (node_of c j) \<noteq> Dead" "node_state n' = Follower"
      "NodeConfigInstance n' = NodeConfigInstance (node_of c j)" "PeerList n' = PeerList (node_of c j)"
    using AppendEntriesService_frame [OF assms(5)] False by auto
  have tv: "node_term (node_of c j) \<le> node_term n'" "node_term n' = aeq_Term request"
      "voted n' = (if node_term (node_of c j) < aeq_Term request \<or> node_state (node_of c j) \<noteq> Follower then 0
         else voted (node_of c j))"
    using AppendEntriesService_term_vote [OF assms(5)] False by simp_all
  have "node_state (node_of c j) \<noteq> Leader" if "node_term n' = node_term (node_of c j)"
  proof
    assume "node_state (node_of c j) = Leader"
    then have "(j, node_term (node_of c j)) \<in> leaders c"
      using assms(1,2) by (simp add: inv_cluster_def inv_leaders_def)
    moreover have "(aeq_NodeId request, aeq_Term request) \<in> leaders c"
      using assms(1,3) unfolding inv_cluster_def inv_requests_def by blast
    ultimately show False using one_leader [OF assms(1)] that tv(2) assms(4) by metis
  qed
  moreover have "voted n' = voted (node_of c j) \<or> \<not> granted c k (node_term (node_of c j)) j"
    if "node_term n' = node_term (node_of c j)" for k
    using no_grants [OF assms(1,2), of k] that tv(2,3) fr(1) by (cases "node_state (node_of c j)") auto
  ultimately show ?thesis using fr tv(1) by (auto simp: allowed_change_def Let_def)
qed

subsection \<open>Growing the history\<close>

lemma inv_add_answer:
  assumes "inv_cluster c" "k \<in> members c" "j \<in> members c" "j \<noteq> k"
    and "cvr_Accepted response \<Longrightarrow> node_term (node_of c j) = t \<and> voted (node_of c j) = k"
  shows "inv_cluster (c\<lparr>vote_answers := insert (k, t, j, response) (vote_answers c)\<rparr>)"
proof -
  let ?c = "c\<lparr>vote_answers := insert (k, t, j, response) (vote_answers c)\<rparr>"
  have inv: "inv_members c" "inv_self_vote c" "inv_requests c" "inv_votes c" "inv_elections c" "inv_leaders c"
    using assms(1) by (simp_all add: inv_cluster_def)
  have g: "granted ?c k' t' j' \<longleftrightarrow> granted c k' t' j' \<or> (k' = k \<and> t' = t \<and> j' = j \<and> cvr_Accepted response)" for k' t' j'
    by (auto simp: granted_def)
  have old: "t' \<le> node_term (node_of c j')" "node_term (node_of c j') = t' \<Longrightarrow> voted (node_of c j') = k'"
    if "granted c k' t' j'" for k' t' j'
    using inv(4) that unfolding inv_votes_def by blast+
  have uniq: "k' = k''" if "granted ?c k' t' j'" "granted ?c k'' t' j'" for k' k'' t' j'
    using that inv(4) old assms(5) unfolding g inv_votes_def by metis
  have ids: "k' \<in> members ?c \<and> j' \<in> members ?c \<and> j' \<noteq> k'" if "(k', t', j', response') \<in> vote_answers ?c" for k' t' j' response'
    using that inv(4) assms(2-4) unfolding inv_votes_def by auto
  have now: "t' \<le> node_term (node_of ?c j') \<and> (node_term (node_of ?c j') = t' \<longrightarrow> voted (node_of ?c j') = k')"
    if "granted ?c k' t' j'" for k' t' j'
    using that old assms(5) unfolding g by auto
  have "inv_votes ?c" unfolding inv_votes_def using ids now uniq by blast
  moreover have "inv_elections ?c" using inv(5) unfolding inv_elections_def g by fastforce
  moreover have "elected ?c i t'" if "(i, t') \<in> leaders c" for i t'
  proof -
    have e: "elected c i t'" using inv(6) that by (simp add: inv_leaders_def)
    have "\<not> (t' = t \<and> i = j \<and> cvr_Accepted response)"
    proof
      assume a: "t' = t \<and> i = j \<and> cvr_Accepted response"
      then have "node_state (node_of c j) = Leader" using e assms(5) by (auto simp: elected_def)
      then have "voted (node_of c j) = j" using inv(2) assms(3) by (simp add: inv_self_vote_def)
      with a assms(4,5) show False by simp
    qed
    with e show ?thesis unfolding elected_def g by (auto simp: cluster.quorum_def)
  qed
  then have "inv_leaders ?c" using inv(6) by (simp add: inv_leaders_def)
  moreover have "inv_members ?c" "inv_self_vote ?c" "inv_requests ?c"
    using inv(1-3) by (simp_all add: inv_members_def inv_self_vote_def inv_requests_def)
  ultimately show ?thesis by (simp add: inv_cluster_def)
qed

lemma inv_set_election:
  assumes "inv_cluster c" "i \<in> members c" "savedCurrentTerm el = t" "t \<le> node_term (node_of c i)"
    "wf_Election (NodeConfigInstance (node_of c i)) el"
    "\<forall>j \<in> voters (NodeConfigInstance (node_of c i)) el. j = i \<or> granted c i t j"
  shows "inv_cluster (c\<lparr>election_of := (election_of c)(i := (election_of c i)(t \<mapsto> el))\<rparr>)"
proof -
  let ?c = "c\<lparr>election_of := (election_of c)(i := (election_of c i)(t \<mapsto> el))\<rparr>"
  have g: "granted ?c = granted c" by (rule granted_cong) simp
  have el: "elected ?c = elected c" unfolding elected_def g by (simp add: fun_eq_iff)
  have "inv_elections ?c"
    using assms unfolding inv_cluster_def inv_elections_def g by (auto split: if_splits)
  with assms(1) show ?thesis
    unfolding inv_cluster_def inv_members_def inv_self_vote_def inv_requests_def inv_votes_def inv_leaders_def g el by simp
qed

lemma inv_become_leader:
  assumes "inv_cluster c" "i \<in> members c" "node_state (node_of c i) = Candidate"
    and n': "node_term n' = node_term (node_of c i)" "node_state n' = Leader" "voted n' = voted (node_of c i)"
      "NodeConfigInstance n' = NodeConfigInstance (node_of c i)"
      "map pn_PeerId (PeerList n') = map pn_PeerId (PeerList (node_of c i))"
    and Q: "cluster.quorum (NodeConfigInstance (node_of c i)) Q"
      "\<forall>j \<in> Q. j = i \<or> granted c i (node_term (node_of c i)) j"
  shows "inv_cluster ((set_node i n' c)\<lparr>leaders := insert (i, node_term n') (leaders c)\<rparr>)"
proof -
  let ?c = "(set_node i n' c)\<lparr>leaders := insert (i, node_term n') (leaders c)\<rparr>"
  have inv: "inv_members c" "inv_self_vote c" "inv_requests c" "inv_votes c" "inv_elections c" "inv_leaders c"
    using assms(1) by (simp_all add: inv_cluster_def)
  have g: "granted ?c = granted c" by (rule granted_cong) simp
  have self: "voted n' = i" using inv(2) assms(2,3) n'(3) by (simp add: inv_self_vote_def)
  have "elected ?c k t" if "elected c k t" for k t
    using that n' assms(3) unfolding elected_def g by (auto simp: cluster.quorum_def)
  moreover have "elected ?c i (node_term n')"
    using no_grants [OF assms(1,2)] assms(2,3) n' Q unfolding elected_def g by (auto simp: cluster.quorum_def)
  ultimately have "inv_leaders ?c" using inv(6) by (auto simp: inv_leaders_def)
  moreover have "inv_members ?c" using inv(1) n' by (auto simp: inv_members_def wf_Peers_def)
  moreover have "inv_self_vote ?c" using inv(2) self by (simp add: inv_self_vote_def)
  moreover have "inv_requests ?c" using inv(3) by (simp add: inv_requests_def)
  moreover have "inv_votes ?c" using inv(4) n' unfolding inv_votes_def g by simp
  moreover have "inv_elections ?c" using inv(5) n' unfolding inv_elections_def g by simp
  ultimately show ?thesis by (simp add: inv_cluster_def)
qed

subsection \<open>Elections\<close>

lemma tick_election:
  assumes "RunElectionDetectorModule_tick now tmo start n = (goes_on, n', Some el)"
  shows "StartCandidateVoteModule now n = (n', el)"
  using assms by (auto simp: RunElectionDetectorModule_tick_def split: if_splits prod.splits)

lemma start_voters:
  assumes "wf_Peers n" "StartCandidateVoteModule now n = (n', el)"
  shows "voters (NodeConfigInstance n) el = {SelfId (NodeConfigInstance n)}"
proof -
  have wf: "wf_Election (NodeConfigInstance n) el" using wf_Election_start assms by blast
  have one: "collectedVote el = 1" using assms(2) by (auto simp: StartCandidateVoteModule_def Let_def)
  have "SelfId (NodeConfigInstance n) \<in> voters (NodeConfigInstance n) el"
    using wf by (simp add: wf_Election_def voters_def cluster_members_def)
  moreover have "card (voters (NodeConfigInstance n) el) = 1" using wf one by (simp add: wf_Election_def)
  ultimately show ?thesis by (metis card_1_singletonE singletonD)
qed

lemma timeout_inv:
  assumes "inv_cluster c" "i \<in> members c" "StartCandidateVoteModule now (node_of c i) = (n', el)"
    "node_term (node_of c i) \<noteq> - 1"
  shows "inv_cluster ((set_node i n' c)\<lparr>election_of := (election_of c)(i := (election_of c i)(savedCurrentTerm el \<mapsto> el))\<rparr>)"
proof -
  have m: "SelfId (NodeConfigInstance (node_of c i)) = i" "wf_Peers (node_of c i)"
    using assms(1,2) by (simp_all add: inv_cluster_def inv_members_def)
  note f = StartCandidateVoteModule_fields [OF assms(3)]
  have lt: "node_term (node_of c i) < node_term (node_of c i) + 1" by (rule word_less_plus_1 [OF assms(4)])
  have "allowed_change c i n'" using f lt m(1) by (auto simp: allowed_change_def Let_def)
  then have inv: "inv_cluster (set_node i n' c)" by (rule inv_set_node [OF assms(1,2)])
  have v: "voters (NodeConfigInstance n') el = {i}" "wf_Election (NodeConfigInstance n') el"
    using start_voters [OF m(2) assms(3)] wf_Election_start [OF m(2) assms(3)] f(5) m(1) by simp_all
  from inv_set_election [OF inv, of i el "savedCurrentTerm el"] assms(2) f v show ?thesis by simp
qed

text \<open>The three things a counted response can do.\<close>

lemma CandidateVote_response_cases:
  assumes "CandidateVote_response order now j response n el = (n', el')"
  obtains (same) "n' = n"
    | (follow) "node_state n = Candidate" "savedCurrentTerm el < cvr_Term response"
        "n' = BecomeFollower (cvr_Term response) now (upd_ctx (\<lambda>nc. nc\<lparr>HopToCurrentLeaderId := 0\<rparr>) n)"
    | (lead) "node_state n = Candidate" "n' = BecomeLeader order now n"
  using assms by (auto simp: CandidateVote_response_def Let_def split: if_splits)

lemma CandidateVote_response_voters:
  assumes "CandidateVote_response order now j response n el = (n', el')"
  shows "savedCurrentTerm el' = savedCurrentTerm el"
    "voters c el' \<subseteq> voters c el \<union> (if cvr_Accepted response then {j} else {})"
  using assms by (auto simp: CandidateVote_response_def Let_def voters_def split: if_splits)

lemma count_vote_inv:
  assumes inv: "inv_cluster c" and ans: "(i, saved, j, response) \<in> vote_answers c" and el: "election_of c i saved = Some el"
    and late: "saved < cvr_Term response \<longrightarrow> node_term (node_of c i) \<le> cvr_Term response"
    and r: "CandidateVote_response order now j response (node_of c i) el = (n', el')"
  shows "inv_cluster (add_leader i
    ((set_node i n' c)\<lparr>election_of := (election_of c)(i := (election_of c i)(saved \<mapsto> el'))\<rparr>))"
proof -
  let ?n = "node_of c i" and ?e = "(election_of c)(i := (election_of c i)(saved \<mapsto> el'))"
  have ids: "i \<in> members c" "j \<in> members c" "j \<noteq> i"
    using inv ans unfolding inv_cluster_def inv_votes_def by blast+
  have m: "SelfId (NodeConfigInstance ?n) = i" "cluster_members (NodeConfigInstance ?n) = members c" "wf_Peers ?n"
    using inv ids(1) by (simp_all add: inv_cluster_def inv_members_def)
  have peer: "j \<in> set (PeerId (NodeConfigInstance ?n))" using ids m(1,2) by (auto simp: cluster_members_def)
  have e: "savedCurrentTerm el = saved" "saved \<le> node_term ?n" "wf_Election (NodeConfigInstance ?n) el"
      "\<forall>j \<in> voters (NodeConfigInstance ?n) el. j = i \<or> granted c i saved j"
    using inv ids(1) el unfolding inv_cluster_def inv_elections_def by blast+
  note spec = CandidateVote_response_spec [OF m(3) e(3) peer r]
  have s': "savedCurrentTerm el' = saved" using CandidateVote_response_voters(1) [OF r] e(1) by simp
  have v: "\<forall>j \<in> voters (NodeConfigInstance ?n) el'. j = i \<or> granted c i saved j"
    using CandidateVote_response_voters(2) [OF r, of "NodeConfigInstance ?n"] e(4) ans
    by (fastforce simp: granted_def split: if_splits)
  have inv1: "inv_cluster (c\<lparr>election_of := ?e\<rparr>)"
    by (rule inv_set_election [OF inv ids(1) s' e(2) spec(1) v])
  from r show ?thesis
  proof (cases rule: CandidateVote_response_cases)
    case same
    have "add_leader i (c\<lparr>election_of := ?e\<rparr>) = c\<lparr>election_of := ?e\<rparr>"
      by (rule add_leader_known) (use inv ids(1) in \<open>simp add: inv_cluster_def inv_leaders_def\<close>)
    with inv1 same show ?thesis by simp
  next
    case follow
    have "allowed_change c i n'"
      unfolding follow(3) by (rule follower_allowed [OF inv ids(1)]) (use follow late e(1) in auto)
    then have "inv_cluster (set_node i n' c)" by (rule inv_set_node [OF inv ids(1)])
    moreover have "node_term ?n \<le> node_term n'" using follow late e(1) by simp
    ultimately have "inv_cluster ((set_node i n' c)\<lparr>election_of := ?e\<rparr>)"
      using inv_set_election [of "set_node i n' c" i el' saved] ids(1) s' e(2) spec(1) v follow(3) by (auto intro: order.trans)
    moreover have "node_state n' = Follower" using follow(3) by simp
    ultimately show ?thesis by (simp add: add_leader_def)
  next
    case lead
    note b = BecomeLeader_election [of order now ?n]
    have st: "node_state n' = Leader" using lead(2) b(2) by simp
    have "node_state ?n \<noteq> Leader"
      "node_state (BecomeFollower (cvr_Term response) now (upd_ctx (\<lambda>nc. nc\<lparr>HopToCurrentLeaderId := 0\<rparr>) ?n)) \<noteq> Leader"
      using lead(1) by simp_all
    with st have q: "node_term ?n = saved" "cluster.quorum (NodeConfigInstance ?n) (voters (NodeConfigInstance ?n) el')"
      using spec(2) e(1) by auto
    let ?c = "c\<lparr>election_of := ?e\<rparr>"
    have g: "granted ?c = granted c" by (rule granted_cong) simp
    have "inv_cluster ((set_node i n' ?c)\<lparr>leaders := insert (i, node_term n') (leaders ?c)\<rparr>)"
      by (rule inv_become_leader [OF inv1]) (use ids lead b q v g in simp_all)
    with st show ?thesis by (simp add: add_leader_def set_node_election)
  qed
qed

subsection \<open>Every step keeps the invariant\<close>

lemma member_peers:
  assumes "inv_cluster c" "k \<in> members c" "j \<in> set (PeerId (NodeConfigInstance (node_of c k)))"
  shows "j \<in> members c" "j \<noteq> k"
proof -
  have "SelfId (NodeConfigInstance (node_of c k)) = k" "cluster_members (NodeConfigInstance (node_of c k)) = members c"
      "wf_Peers (node_of c k)"
    using assms(1,2) by (simp_all add: inv_cluster_def inv_members_def)
  with assms(3) show "j \<in> members c" "j \<noteq> k" by (auto simp: cluster_members_def wf_Peers_def)
qed

lemma inv_add_requests:
  assumes "inv_cluster c" "\<forall>request \<in> V. cvq_NodeId request \<in> members c"
    "\<forall>request \<in> A. (aeq_NodeId request, aeq_Term request) \<in> leaders c"
  shows "inv_cluster (c\<lparr>vote_requests := V, append_requests := A\<rparr>)"
proof -
  let ?c = "c\<lparr>vote_requests := V, append_requests := A\<rparr>"
  have g: "granted ?c = granted c" by (rule granted_cong) simp
  have e: "elected ?c = elected c" unfolding elected_def g by (simp add: fun_eq_iff)
  show ?thesis
    using assms unfolding inv_cluster_def inv_members_def inv_self_vote_def inv_requests_def inv_votes_def
      inv_elections_def inv_leaders_def g e by simp
qed

lemma inv_step:
  assumes "cluster_step c c'" "inv_cluster c"
  shows "inv_cluster c'"
  using assms
proof (induction rule: cluster_step.induct)
  case (timeout i c now tmo start goes_on n' el)
  then show ?case by (intro timeout_inv tick_election)
next
  case (ask_vote i c saved el request)
  have "cvq_NodeId request = i"
    using ask_vote by (auto simp: CandidateVote_request_def Let_def inv_cluster_def inv_members_def
        split: if_splits sum.splits)
  with inv_add_requests [OF ask_vote.prems, of "insert request (vote_requests c)" "append_requests c"] ask_vote
  show ?case by (simp add: inv_cluster_def inv_requests_def)
next
  case (answer_vote request c j now response n')
  have k: "cvq_NodeId request \<in> members c"
    using answer_vote by (simp add: inv_cluster_def inv_requests_def)
  note j = member_peers [OF answer_vote.prems k answer_vote.hyps(2)]
  have inv: "inv_cluster (set_node j n' c)"
    using inv_set_node vote_service_allowed answer_vote j by blast
  have "cvr_Accepted response \<Longrightarrow> voted n' = cvq_NodeId request \<and> node_term n' = cvq_Term request"
    using CandidateVotesService_outcome [OF answer_vote.hyps(3)] by (simp add: vote_outcome_def)
  with inv_add_answer [OF inv, of "cvq_NodeId request" j response "cvq_Term request"] k j show ?case by simp
next
  case (fail_vote request c j now err n')
  then have k: "cvq_NodeId request \<in> members c" by (simp add: inv_cluster_def inv_requests_def)
  note j = member_peers [OF fail_vote.prems k fail_vote.hyps(2)]
  then show ?case using inv_set_node vote_service_allowed fail_vote by blast
next
  case (count_vote i saved j response c el order now n' el')
  then show ?case by (intro count_vote_inv)
next
  case (ask_append i c k request next_index len)
  have "node_state (node_of c i) = Leader" "aeq_NodeId request = i" "aeq_Term request = node_term (node_of c i)"
    using ask_append by (auto simp: AppendEntries_request_def Let_def inv_cluster_def inv_members_def
        split: if_splits option.splits)
  with inv_add_requests [OF ask_append.prems, of "vote_requests c" "insert request (append_requests c)"] ask_append
  show ?case by (simp add: inv_cluster_def inv_requests_def inv_leaders_def)
next
  case (answer_append request c j now r n')
  then show ?case using inv_set_node append_service_allowed by blast
next
  case (count_append i c start response now k next_index len)
  then show ?case using inv_set_node append_answer_allowed by blast
next
  case (other i c n')
  then show ?case using inv_set_node quiet_allowed by blast
qed

lemma inv_run: "cluster_run c c' \<Longrightarrow> inv_cluster c \<Longrightarrow> inv_cluster c'"
  by (induction rule: cluster_run.induct) (auto intro: inv_step)

text \<open>A fresh cluster: nodes that have neither voted nor stood for election.\<close>

definition fresh_cluster :: "Cluster \<Rightarrow> bool" where
  "fresh_cluster c \<longleftrightarrow> inv_members c \<and> (\<forall>i \<in> members c. node_state (node_of c i) = Follower) \<and>
     (\<forall>i t. election_of c i t = None) \<and> vote_requests c = {} \<and> vote_answers c = {} \<and>
     append_requests c = {} \<and> leaders c = {}"

lemma inv_fresh: "fresh_cluster c \<Longrightarrow> inv_cluster c"
  by (auto simp: fresh_cluster_def inv_cluster_def inv_self_vote_def inv_requests_def inv_votes_def inv_elections_def
      inv_leaders_def granted_def)

text \<open>The operations that only serve the locks, the log or the disk are \<open>other\<close> steps.\<close>

lemma quiet_backup: "quiet n (backupProcedure pb n)"
  by (auto simp: backupProcedure_def quiet_def Let_def split: option.splits prod.splits sum.splits)

lemma quiet_outcome: "outcome why n di name n' di' \<Longrightarrow> quiet n n'"
  by (auto simp: outcome_def quiet_def)

end
