(* ===== verification/Cli_Server.thy ===== *)
theory Cli_Server
  imports Raft_Cluster
begin

section \<open>The services of a node for its clients (node/clisrv_server.go)\<close>

text \<open>
  The handlers for clients. A reply is a pair of a response that may be nil and an error that
  may be nil, as in the code. The mutex of the node is a field of the record: a handler takes it
  and gives it back as the code does, path by path, because one path does not. A handler that
  waits with a ticker and a timer is a first part and a loop over the events it sees; a tick
  carries the node as it is then, since everything may happen in between.
\<close>

type_synonym 'r reply = "'r option \<times> go_error option"

record ClientPutStateKVResponse =
  put_Committed :: bool
  put_CurrentLeader :: bytes

record ClientGetStateKVResponse =
  get_Success :: bool
  get_Value :: bytes

record ClientAcquireDLockRequest =
  acq_LockName :: bytes
  acq_ClientID :: bytes
  acq_Expire :: i64
  acq_Sequence :: u32

record ClientAcquireDLockResponse =
  acr_Pending :: bool
  acr_Sequence :: u32
  acr_CurrentLeader :: bytes
  acr_Nonce :: u32

record ClientQueryDLockResponse =
  qdr_Owner :: bytes
  qdr_Nonce :: u32
  qdr_Timestamp :: i64
  qdr_Expire :: i64
  qdr_PendingNum :: int

record ClientReleaseDLockResponse =
  rel_Released :: bool
  rel_CurrentLeader :: bytes
  rel_Nonce :: u32

definition Lock :: "Node \<Rightarrow> Node" where
  "Lock n = n\<lparr>mutex := True\<rparr>"

definition Unlock :: "Node \<Rightarrow> Node" where
  "Unlock n = n\<lparr>mutex := False\<rparr>"

text \<open>Where a node that does not lead sends the client; \<open>r\<close> is the random number.\<close>

definition redirect :: "nat \<Rightarrow> Node \<Rightarrow> go_error + bytes" where
  "redirect r n =
     (let hopToLeaderId = HopToCurrentLeaderId (NodeContextInstance n); c = NodeConfigInstance n
      in if hopToLeaderId = 0 then Inr (RandomObjectInStringList r (PeerCliAddress c))
         else slice_index (PeerCliAddress c) (IndexInUint32List (PeerId c) hopToLeaderId))"

subsection \<open>The key-value store\<close>

datatype put_start = PutDone "ClientPutStateKVResponse reply" | PutWait LogEntry

definition PutStateKV_append :: "bytes \<Rightarrow> bytes option \<Rightarrow> ClientPutStateKVResponse \<Rightarrow> Node \<Rightarrow> put_start \<times> Node" where
  "PutStateKV_append key content response n =
     (if content = None \<and> QuerySpecificState_KVStore (StateMapKVStore n) key = Inl InMemoryStateMapKVFetchError
      then (PutDone (Some response, Some CliSrvDeleteEmptyKeyValueError), Unlock n)
      else case NewLogEntry (node_term n) (MaximumIndex (LogEntryInMemory n) + 1)
                  (CommandKVStore (NewCommandKVStore key content)) of
             Inl err \<Rightarrow> (PutDone (None, Some (replace_error CliSrvChangeStateInternalError err)), Unlock n)
           | Inr logEntry \<Rightarrow>
               (case InsertLogEntry (LogEntryInMemory n) (Some logEntry) of
                  (Some err, lm) \<Rightarrow>
                    (PutDone (None, Some CliSrvChangeStateInternalError), Unlock (n\<lparr>LogEntryInMemory := lm\<rparr>))
                | (None, lm) \<Rightarrow>
                    (PutWait logEntry, Unlock (upd_ctx TriggerAEChannel (n\<lparr>LogEntryInMemory := lm\<rparr>)))))"

definition PutStateKV_begin :: "nat \<Rightarrow> bytes \<Rightarrow> bytes option \<Rightarrow> Node \<Rightarrow> put_start \<times> Node" where
  "PutStateKV_begin r key content n0 =
     (let n = Lock n0; response = \<lparr>put_Committed = False, put_CurrentLeader = []\<rparr>
      in if node_state n = Dead then (PutDone (None, Some CliSrvDeadError), Unlock n)
         else if node_state n \<noteq> Leader
         then (case redirect r n of
                 Inl err \<Rightarrow> (PutDone (None, Some err), n)
               | Inr address \<Rightarrow> (PutDone (Some (response\<lparr>put_CurrentLeader := address\<rparr>), None), Unlock n))
         else PutStateKV_append key content response n)"

text \<open>One tick of the wait: \<open>None\<close> says that the wait goes on.\<close>

definition PutStateKV_tick :: "LogEntry \<Rightarrow> Node \<Rightarrow> ClientPutStateKVResponse reply option" where
  "PutStateKV_tick logEntry n =
     (if le_Index logEntry \<le> node_commit n
      then case FetchLogEntry (LogEntryInMemory n) (le_Index logEntry) of
             Inl err \<Rightarrow> Some (None, Some CliSrvChangeStateInternalError)
           | Inr fetchedLogEntry \<Rightarrow>
               if le_Term fetchedLogEntry = le_Term logEntry
               then Some (Some \<lparr>put_Committed = True, put_CurrentLeader = []\<rparr>, None)
               else None
      else None)"

datatype wait_event = Tick Node | Timer

text \<open>The wait over the events of the ticker and the timer; \<open>None\<close> when they do not end it.\<close>

fun PutStateKV_wait :: "LogEntry \<Rightarrow> wait_event list \<Rightarrow> ClientPutStateKVResponse reply option" where
  "PutStateKV_wait logEntry [] = None"
| "PutStateKV_wait logEntry (Timer # events) =
     Some (Some \<lparr>put_Committed = False, put_CurrentLeader = []\<rparr>, Some CliSrvChangeStateTimeoutError)"
| "PutStateKV_wait logEntry (Tick n # events) =
     (case PutStateKV_tick logEntry n of Some result \<Rightarrow> Some result | None \<Rightarrow> PutStateKV_wait logEntry events)"

definition PutStateKVService ::
  "nat \<Rightarrow> bytes \<Rightarrow> bytes option \<Rightarrow> Node \<Rightarrow> wait_event list \<Rightarrow> ClientPutStateKVResponse reply option \<times> Node" where
  "PutStateKVService r key content n events =
     (case PutStateKV_begin r key content n of
        (PutDone result, n') \<Rightarrow> (Some result, n')
      | (PutWait logEntry, n') \<Rightarrow> (PutStateKV_wait logEntry events, n'))"

text \<open>The response of a deletion has the fields of that of a change.\<close>

definition DelStateKVService ::
  "nat \<Rightarrow> bytes \<Rightarrow> Node \<Rightarrow> wait_event list \<Rightarrow> ClientPutStateKVResponse reply option \<times> Node" where
  "DelStateKVService r key n events =
     (case PutStateKVService r key None n events of
        (None, n') \<Rightarrow> (None, n')
      | (Some (response, Some err), n') \<Rightarrow> (Some (None, Some err), n')
      | (Some (None, None), n') \<Rightarrow> (Some (None, Some (GoPanic NilDereference)), n')
      | (Some (Some response, None), n') \<Rightarrow>
          (Some (Some \<lparr>put_Committed = put_Committed response, put_CurrentLeader = put_CurrentLeader response\<rparr>, None), n'))"

definition GetStateKVService :: "bytes \<Rightarrow> Node \<Rightarrow> ClientGetStateKVResponse reply \<times> Node" where
  "GetStateKVService key n0 =
     (let n = Lock n0
      in case QuerySpecificState_KVStore (StateMapKVStore n) key of
           Inl err \<Rightarrow>
             if err = InMemoryStateMapKVFetchError then ((None, Some CliSrvGetEmptyKeyValueError), Unlock n)
             else ((None, Some CliSrvQueryStateInternalError), Unlock n)
         | Inr stateForKey \<Rightarrow> ((Some \<lparr>get_Success = True, get_Value = stateForKey\<rparr>, None), Unlock n))"

subsection \<open>Locks\<close>

text \<open>An operation of the interchange of the leader; a nil interchange is dereferenced.\<close>

definition with_interchange ::
  "(Node \<Rightarrow> DlockInterchange \<Rightarrow> (go_error + 'a) \<times> Node \<times> DlockInterchange) \<Rightarrow> Node \<Rightarrow> (go_error + 'a) \<times> Node" where
  "with_interchange f n =
     (case DlockInterchangeInstance n of
        None \<Rightarrow> (Inl (GoPanic NilDereference), n)
      | Some di \<Rightarrow> (case f n di of (r, n', di') \<Rightarrow> (r, n'\<lparr>DlockInterchangeInstance := Some di'\<rparr>)))"

definition AcquireDLock_refresh ::
  "i64 \<Rightarrow> ClientAcquireDLockRequest \<Rightarrow> ClientAcquireDLockResponse \<Rightarrow> Node \<Rightarrow> ClientAcquireDLockResponse reply \<times> Node" where
  "AcquireDLock_refresh timestamp request response n =
     (case with_interchange (RefreshAcquirementBySequence (acq_LockName request) (acq_ClientID request)
             (acq_Sequence request) timestamp) n of
        (Inl err, n') \<Rightarrow>
          if err = VolatileAcquirementInfoFetchingError \<or> err = VolatileAcquirementInvalidSequenceError
          then ((Some (response\<lparr>acr_Pending := False, acr_Sequence := acq_Sequence request\<rparr>), None), n')
          else ((None, Some (replace_error CliSrvRefreshDLockAcquirementBySequenceError err)), n')
      | (Inr (refreshSuccess, nonce), n') \<Rightarrow>
          let response1 = response\<lparr>acr_Sequence := acq_Sequence request\<rparr>;
              response2 = (if refreshSuccess then response1\<lparr>acr_Nonce := nonce\<rparr> else response1)
          in ((Some (response2\<lparr>acr_Pending := \<not> 0 < nonce\<rparr>), None), n'))"

definition AcquireDLock_new ::
  "i64 \<Rightarrow> ClientAcquireDLockRequest \<Rightarrow> ClientAcquireDLockResponse \<Rightarrow> Node \<Rightarrow> ClientAcquireDLockResponse reply \<times> Node" where
  "AcquireDLock_new timestamp request response n =
     (let command = NewCommandDLock 0 (acq_LockName request) (acq_ClientID request) timestamp (acq_Expire request)
      in case with_interchange (AcquireDLock (acq_LockName request) timestamp command) n of
           (Inl err, n') \<Rightarrow> ((None, Some (replace_error CliSrvAcquireDLockInternalError err)), n')
         | (Inr (sequence, nonce), n') \<Rightarrow>
             if sequence = 0 then ((Some (response\<lparr>acr_Pending := False, acr_Nonce := nonce\<rparr>), None), n')
             else ((Some (response\<lparr>acr_Pending := True, acr_Sequence := sequence\<rparr>), None), n'))"

definition AcquireDLockService ::
  "nat \<Rightarrow> i64 \<Rightarrow> ClientAcquireDLockRequest \<Rightarrow> Node \<Rightarrow> ClientAcquireDLockResponse reply \<times> Node" where
  "AcquireDLockService r timestamp request n0 =
     (let response = \<lparr>acr_Pending = True, acr_Sequence = 0, acr_CurrentLeader = [], acr_Nonce = 0\<rparr>;
          n = Lock n0;
          (result, n') =
            (if node_state n \<noteq> Leader
             then (case redirect r n of
                     Inl err \<Rightarrow> ((None, Some err), n)
                   | Inr address \<Rightarrow> ((Some (response\<lparr>acr_CurrentLeader := address\<rparr>), None), n))
             else if acq_Sequence request \<noteq> 0 then AcquireDLock_refresh timestamp request response n
             else AcquireDLock_new timestamp request response n)
      in (result, Unlock n'))"

definition QueryDLockService :: "bytes \<Rightarrow> Node \<Rightarrow> ClientQueryDLockResponse reply \<times> Node" where
  "QueryDLockService lockName n0 =
     (let n = Lock n0
      in case QuerySpecificState_DLock (StateMapDLock n) lockName of
           Inl err \<Rightarrow>
             if err = InMemoryStateMapDLockFetchError then ((None, Some CliSrvQueryNonExistingDLockError), Unlock n)
             else ((None, Some CliSrvQueryDLockInternalError), Unlock n)
         | Inr stateDecoded \<Rightarrow>
             let response = \<lparr>qdr_Owner = ds_Owner stateDecoded, qdr_Nonce = ds_LockNonce stateDecoded,
                             qdr_Timestamp = ds_Timestamp stateDecoded, qdr_Expire = ds_Expire stateDecoded,
                             qdr_PendingNum = - 1\<rparr>
             in if node_state n = Leader
                then (case DlockInterchangeInstance n of
                        None \<Rightarrow> ((None, Some (GoPanic NilDereference)), Unlock n)
                      | Some di \<Rightarrow>
                          ((Some (response\<lparr>qdr_PendingNum := QueryDLockAcquirementInfo lockName di\<rparr>), None), Unlock n))
                else ((Some response, None), Unlock n))"

text \<open>
  What both calls of the release operation make of its result: \<open>None\<close> when the release has to
  wait. The first call returns from an error without giving the mutex back.
\<close>

definition ReleaseDLock_result :: "ReleaseInfo \<Rightarrow> u32 \<Rightarrow> ClientReleaseDLockResponse reply option" where
  "ReleaseDLock_result releaseInfo nonce =
     (let response = \<lparr>rel_Released = False, rel_CurrentLeader = [], rel_Nonce = 0\<rparr>
      in case releaseInfo of
           ErrorReserve \<Rightarrow> Some (None, Some CliSrvReleaseDLockInternalError)
         | NoDLockExist \<Rightarrow> Some (Some (response\<lparr>rel_Released := True\<rparr>), Some CliSrvReleaseNonExistingDLockError)
         | AlreadyReleased \<Rightarrow> Some (Some (response\<lparr>rel_Released := True\<rparr>), Some CliSrvReleaseNonExistingDLockError)
         | TriggerReleaseSuccess \<Rightarrow> Some (Some (response\<lparr>rel_Released := True, rel_Nonce := nonce\<rparr>), None)
         | TriggerReleaseLater \<Rightarrow> None)"

definition ReleaseDLock_begin ::
  "nat \<Rightarrow> i64 \<Rightarrow> bytes \<Rightarrow> bytes \<Rightarrow> Node \<Rightarrow> ClientReleaseDLockResponse reply option \<times> Node" where
  "ReleaseDLock_begin r timestamp lockName clientId n0 =
     (let response = \<lparr>rel_Released = False, rel_CurrentLeader = [], rel_Nonce = 0\<rparr>;
          n = Lock n0
      in if node_state n \<noteq> Leader
         then (case redirect r n of
                 Inl err \<Rightarrow> (Some (None, Some err), n)
               | Inr address \<Rightarrow> (Some (Some (response\<lparr>rel_CurrentLeader := address\<rparr>), None), Unlock n))
         else case with_interchange (ReleaseDLock lockName clientId timestamp) n of
                (Inl err, n') \<Rightarrow> (Some (None, Some (replace_error CliSrvReleaseDLockInternalError err)), n')
              | (Inr (releaseInfo, nonce), n') \<Rightarrow>
                  if releaseInfo = ErrorReserve then (ReleaseDLock_result releaseInfo nonce, n')
                  else (ReleaseDLock_result releaseInfo nonce, Unlock n'))"

definition ReleaseDLock_tick ::
  "i64 \<Rightarrow> bytes \<Rightarrow> bytes \<Rightarrow> Node \<Rightarrow> ClientReleaseDLockResponse reply option \<times> Node" where
  "ReleaseDLock_tick timestamp lockName clientId n =
     (case with_interchange (ReleaseDLock lockName clientId timestamp) (Lock n) of
        (Inl err, n') \<Rightarrow>
          (Some (None, Some (replace_error CliSrvReleaseDLockInternalError err)), if is_panic err then n' else Unlock n')
      | (Inr (releaseInfo, nonce), n') \<Rightarrow> (ReleaseDLock_result releaseInfo nonce, Unlock n'))"

datatype release_event = ReleaseTick i64 Node | ReleaseTimer

text \<open>The wait: the reply, and the node after the tick that gave it.\<close>

fun ReleaseDLock_wait ::
  "bytes \<Rightarrow> bytes \<Rightarrow> release_event list \<Rightarrow> (ClientReleaseDLockResponse reply \<times> Node option) option" where
  "ReleaseDLock_wait lockName clientId [] = None"
| "ReleaseDLock_wait lockName clientId (ReleaseTimer # events) =
     Some ((Some \<lparr>rel_Released = False, rel_CurrentLeader = [], rel_Nonce = 0\<rparr>, None), None)"
| "ReleaseDLock_wait lockName clientId (ReleaseTick timestamp n # events) =
     (case ReleaseDLock_tick timestamp lockName clientId n of
        (Some result, n') \<Rightarrow> Some (result, Some n')
      | (None, n') \<Rightarrow> ReleaseDLock_wait lockName clientId events)"

definition ReleaseDLockService ::
  "nat \<Rightarrow> i64 \<Rightarrow> bytes \<Rightarrow> bytes \<Rightarrow> Node \<Rightarrow> release_event list \<Rightarrow> ClientReleaseDLockResponse reply option \<times> Node" where
  "ReleaseDLockService r timestamp lockName clientId n events =
     (case ReleaseDLock_begin r timestamp lockName clientId n of
        (Some result, n') \<Rightarrow> (Some result, n')
      | (None, n') \<Rightarrow>
          (case ReleaseDLock_wait lockName clientId events of
             None \<Rightarrow> (None, n')
           | Some (result, None) \<Rightarrow> (Some result, n')
           | Some (result, Some n'') \<Rightarrow> (Some result, n'')))"

subsection \<open>The mutex\<close>

lemma Lock_simps [simp]:
  "NodeConfigInstance (Lock n) = NodeConfigInstance n" "NodeContextInstance (Lock n) = NodeContextInstance n"
  "StateMapKVStore (Lock n) = StateMapKVStore n" "StateMapDLock (Lock n) = StateMapDLock n"
  "LogEntryInMemory (Lock n) = LogEntryInMemory n" "DlockInterchangeInstance (Lock n) = DlockInterchangeInstance n"
  "PeerList (Lock n) = PeerList n" "mutex (Lock n)"
  by (simp_all add: Lock_def)

lemma Unlock_simps [simp]:
  "NodeConfigInstance (Unlock n) = NodeConfigInstance n" "NodeContextInstance (Unlock n) = NodeContextInstance n"
  "StateMapKVStore (Unlock n) = StateMapKVStore n" "StateMapDLock (Unlock n) = StateMapDLock n"
  "LogEntryInMemory (Unlock n) = LogEntryInMemory n" "DlockInterchangeInstance (Unlock n) = DlockInterchangeInstance n"
  "PeerList (Unlock n) = PeerList n" "\<not> mutex (Unlock n)"
  by (simp_all add: Unlock_def)

lemma Unlock_Lock: "\<not> mutex n \<Longrightarrow> Unlock (Lock n) = n"
  by (simp add: Unlock_def Lock_def)

lemma commitProcedure_Lock: "commitProcedure (Lock n) = Lock (commitProcedure n)"
  by (auto simp: commitProcedure_def Lock_def Let_def split: prod.splits)

lemma ReleaseDLock_mutex:
  assumes "ReleaseDLock lockName applicant ts n di = (r, n', di')"
  shows "mutex n' = mutex n"
  using assms by (auto simp: ReleaseDLock_def Let_def split: sum.splits option.splits prod.splits if_splits)

text \<open>
  Which paths give the mutex back: the deferred ones always, the others unless they panic, and the
  release not after an error of its first call.
\<close>

lemma services_unlock:
  "\<not> mutex (snd (GetStateKVService key n))"
  "\<not> mutex (snd (QueryDLockService lockName n))"
  "\<not> mutex (snd (AcquireDLockService r ts request n))"
  by (auto simp: GetStateKVService_def QueryDLockService_def AcquireDLockService_def Let_def
      split: sum.splits option.splits prod.splits)

lemma redirect_Lock [simp]: "redirect r (Lock n) = redirect r n"
  by (simp add: redirect_def Let_def)

lemma PutStateKV_mutex:
  "mutex (snd (PutStateKV_begin r key content n)) \<longleftrightarrow>
     node_state n \<noteq> Dead \<and> node_state n \<noteq> Leader \<and> (\<exists>err. redirect r n = Inl err)"
  by (auto simp: PutStateKV_begin_def PutStateKV_append_def Let_def split: sum.splits prod.splits option.splits if_splits)

lemma PutStateKVService_snd: "snd (PutStateKVService r key content n events) = snd (PutStateKV_begin r key content n)"
  by (simp add: PutStateKVService_def split: prod.split put_start.split)

lemma DelStateKVService_snd: "snd (DelStateKVService r key n events) = snd (PutStateKV_begin r key None n)"
  using PutStateKVService_snd [of r key None n events]
  by (auto simp: DelStateKVService_def split: prod.splits option.splits)

text \<open>A release that has a response, or still waits, has given the mutex back.\<close>

lemma ReleaseDLock_begin_unlock:
  "ReleaseDLock_begin r ts lockName clientId n = (result, n') \<Longrightarrow> mutex n' \<Longrightarrow> \<exists>err. result = Some (None, Some err)"
  by (auto simp: ReleaseDLock_begin_def ReleaseDLock_result_def Let_def split: sum.splits prod.splits if_splits)

lemma ReleaseDLock_tick_unlock:
  "ReleaseDLock_tick ts lockName clientId n = (result, n') \<Longrightarrow> mutex n' \<Longrightarrow> \<exists>p. result = Some (None, Some (GoPanic p))"
  by (auto simp: ReleaseDLock_tick_def is_panic_def split: sum.splits prod.splits if_splits go_error.splits)

lemma ReleaseDLock_wait_unlock:
  "ReleaseDLock_wait lockName clientId events = Some (result, Some n') \<Longrightarrow> mutex n' \<Longrightarrow> \<exists>p. result = (None, Some (GoPanic p))"
  by (induction lockName clientId events rule: ReleaseDLock_wait.induct)
     (auto split: prod.splits option.splits dest: ReleaseDLock_tick_unlock)

lemma ReleaseDLockService_unlock:
  assumes "ReleaseDLockService r ts lockName clientId n events = (result, n')" "mutex n'"
  shows "\<exists>err. result = Some (None, Some err)"
proof -
  obtain r1 n1 where b: "ReleaseDLock_begin r ts lockName clientId n = (r1, n1)" by fastforce
  show ?thesis
    using assms b ReleaseDLock_begin_unlock [OF b] ReleaseDLock_wait_unlock [of lockName clientId events]
    by (auto simp: ReleaseDLockService_def split: option.splits)
qed

lemma ReleaseDLock_begin_mutex:
  assumes "node_state n = Leader" "DlockInterchangeInstance n = Some di"
    "ReleaseDLock lockName clientId ts (Lock n) di = (r1, n1, di1)"
  shows "mutex (snd (ReleaseDLock_begin r ts lockName clientId n)) \<longleftrightarrow>
    (case r1 of Inl _ \<Rightarrow> True | Inr (info, _) \<Rightarrow> info = ErrorReserve)"
  using ReleaseDLock_mutex [OF assms(3)] assms
  by (auto simp: ReleaseDLock_begin_def with_interchange_def Let_def split: sum.splits prod.splits)

subsection \<open>Redirecting\<close>

lemma redirect_known:
  assumes "wf_Config (NodeConfigInstance n)" "HopToCurrentLeaderId (NodeContextInstance n) \<in> set (PeerId (NodeConfigInstance n))"
  shows "\<exists>k < length (PeerId (NodeConfigInstance n)).
    PeerId (NodeConfigInstance n) ! k = HopToCurrentLeaderId (NodeContextInstance n) \<and>
    redirect r n = Inr (PeerCliAddress (NodeConfigInstance n) ! k)"
proof -
  have "HopToCurrentLeaderId (NodeContextInstance n) \<noteq> 0" using assms by (auto simp: wf_Config_def)
  moreover obtain k where "k < length (PeerId (NodeConfigInstance n))"
      "IndexInUint32List (PeerId (NodeConfigInstance n)) (HopToCurrentLeaderId (NodeContextInstance n)) = int k"
      "PeerId (NodeConfigInstance n) ! k = HopToCurrentLeaderId (NodeContextInstance n)"
    using IndexInUint32List_Some [OF assms(2)] by blast
  ultimately show ?thesis
    using assms(1) by (auto simp: redirect_def Let_def slice_index_def wf_Config_def)
qed

lemma redirect_unknown:
  assumes "wf_Config (NodeConfigInstance n)" "PeerId (NodeConfigInstance n) \<noteq> []"
    "HopToCurrentLeaderId (NodeContextInstance n) = 0"
  shows "\<exists>a \<in> set (PeerCliAddress (NodeConfigInstance n)). redirect r n = Inr a"
  using assms by (auto simp: redirect_def Let_def RandomObjectInStringList_def wf_Config_def)

lemma redirect_stranger:
  assumes "HopToCurrentLeaderId (NodeContextInstance n) \<noteq> 0"
    "HopToCurrentLeaderId (NodeContextInstance n) \<notin> set (PeerId (NodeConfigInstance n))"
  shows "redirect r n = Inl (GoPanic IndexOutOfRange)"
  using assms by (simp add: redirect_def Let_def slice_index_def IndexInUint32List_None)

subsection \<open>Changing a key\<close>

text \<open>The wait answers \<open>committed\<close> only after a tick that saw the entry's place committed, in its term.\<close>

lemma PutStateKV_wait_committed:
  assumes "PutStateKV_wait e events = Some (Some response, err)" "put_Committed response"
  shows "err = None \<and> (\<exists>m e'. Tick m \<in> set events \<and> le_Index e \<le> node_commit m \<and>
    FetchLogEntry (LogEntryInMemory m) (le_Index e) = Inr e' \<and> le_Term e' = le_Term e)"
  using assms
proof (induction e events rule: PutStateKV_wait.induct)
  case (3 e n events)
  show ?case
  proof (cases "PutStateKV_tick e n")
    case None
    with 3 show ?thesis by auto
  next
    case (Some result)
    with "3.prems" show ?thesis by (auto simp: PutStateKV_tick_def split: if_splits sum.splits)
  qed
qed auto

lemma PutStateKV_wait_ends: "Timer \<in> set events \<Longrightarrow> PutStateKV_wait e events \<noteq> None"
  by (induction e events rule: PutStateKV_wait.induct) (auto split: option.splits)

lemma PutStateKV_append_entry:
  assumes "valid_utf8 key" "content \<noteq> None \<or> StateMap (StateMapKVStore n) key \<noteq> None"
  shows "\<exists>e. NewLogEntry (node_term n) (maximumIndex (LogEntryInMemory n) + 1) (CommandKVStore (NewCommandKVStore key content)) = Inr e \<and>
    PutStateKV_append key content response n =
      (PutWait e, Unlock (upd_ctx TriggerAEChannel (n\<lparr>LogEntryInMemory := put_entry (LogEntryInMemory n) e\<rparr>)))"
proof -
  have "\<not> (content = None \<and> QuerySpecificState_KVStore (StateMapKVStore n) key = Inl InMemoryStateMapKVFetchError)"
    using assms(2) by (auto simp: QuerySpecificState_KVStore_def split: option.splits)
  then show ?thesis
    unfolding PutStateKV_append_def MaximumIndex_def NewLogEntry_KVStore [OF assms(1)]
    by (simp only: if_False sum.case) (simp add: InsertLogEntry_def)
qed

subsection \<open>What a client is told about its lock\<close>

lemma InsertNewAcquirement_sequence:
  assumes "wf_Acquirement a" "GetAsDLockInfo command = Inr li" "li_LockName li = va_LockName a"
    "wf_command (CommandDLock command)" "lastAssignedAcquirement a + 1 \<noteq> - 1"
    "InsertNewAcquirement a command ts ex = (Inr s, a')"
  shows "s \<noteq> 0"
proof -
  let ?q = "dropWhile (\<lambda>p. acq_expired ts (snd p)) (pending a)"
  have "fst p \<noteq> 0" if "p \<in> set ?q" for p
    using pending_member [OF assms(1), of "fst p" "snd p"] set_dropWhileD [OF that] by auto
  moreover have "lastAssignedAcquirement a + 1 \<noteq> 0"
    using assms(1) by (auto simp: wf_Acquirement_def eq_neg_iff_add_eq_0)
  ultimately show ?thesis
    using InsertNewAcquirement_spec [OF assms(1-5), of ts ex] assms(6) find_Some_member
    by (fastforce simp: Let_def split: option.splits)
qed

text \<open>Sequence 0 means: the entry is in the log, and its nonce is the one returned.\<close>

lemma append_command_nonce:
  assumes "GetAsDLockInfo command = Inr info" "wf_command (CommandDLock command)"
  obtains e where "append_command (SetAsDLockInfo (info\<lparr>li_LockNonce := k, li_Timestamp := ts\<rparr>) command) n =
      (None, n\<lparr>LogEntryInMemory := put_entry (LogEntryInMemory n) e\<rparr>)"
    "next_entry n e (info\<lparr>li_LockNonce := k, li_Timestamp := ts\<rparr>)"
proof -
  have "valid_LockInfo (info\<lparr>li_LockNonce := k, li_Timestamp := ts\<rparr>)"
    using GetAsDLockInfo_valid [OF assms(1)] by (simp add: valid_LockInfo_def)
  then show thesis
    using append_command_spec [OF wf_command_SetAsDLockInfo [OF assms(2)] GetAsDLockInfo_SetAsDLockInfo] that by blast
qed

text \<open>A queued request never has the number 0.\<close>

lemma queued_sequence:
  assumes "wf_Interchange n di" "counters_ok di name" "PendingAcquire di name = Some a"
    and "InsertNewAcquirement a command ts ex = (Inr s, a')"
    and "GetAsDLockInfo command = Inr li" "li_LockName li = name" "wf_command (CommandDLock command)"
  shows "s \<noteq> 0"
  using InsertNewAcquirement_sequence [of a command li ts ex s a'] assms wf_InterchangeD [OF assms(1,3)]
  by (simp add: counters_ok_def)

lemma case1_immediate:
  assumes wf: "wf_Interchange n di" "counters_ok di name"
    and c: "GetAsDLockInfo command = Inr info" "li_LockName info = name" "wf_command (CommandDLock command)"
    and r: "AcquireDLock_case1 name ts command info n di = (Inr (0, nonce), n', di')"
  shows "\<exists>e. n' = node_with_entry n e \<and> next_entry n e (info\<lparr>li_LockNonce := 1, li_Timestamp := ts\<rparr>) \<and> nonce = 1"
proof -
  let ?li = "info\<lparr>li_LockNonce := 1, li_Timestamp := ts\<rparr>"
  obtain e where e: "append_command (SetAsDLockInfo ?li command) n = (None, n\<lparr>LogEntryInMemory := put_entry (LogEntryInMemory n) e\<rparr>)"
      "next_entry n e ?li"
    using append_command_nonce [OF c(1,3)] .
  have v: "valid_LockInfo ?li" using GetAsDLockInfo_valid [OF c(1)] by (simp add: valid_LockInfo_def)
  have "PendingAcquire di name = None"
  proof (rule ccontr)
    assume "PendingAcquire di name \<noteq> None"
    then obtain a where a: "PendingAcquire di name = Some a" by blast
    with r obtain ex a' where "InsertNewAcquirement a (SetAsDLockInfo ?li command) ts ex = (Inr 0, a')"
      by (auto simp: AcquireDLock_case1_def Let_def split: prod.splits sum.splits)
    from queued_sequence [OF wf a this GetAsDLockInfo_SetAsDLockInfo [OF v]] c(2) wf_command_SetAsDLockInfo [OF c(3)]
    show False by simp
  qed
  with r e show ?thesis
    by (auto simp: AcquireDLock_case1_def Let_def node_with_entry_def NewDlockVolatileAcquirement_def)
qed

lemma case2_immediate:
  assumes c: "GetAsDLockInfo command = Inr info" "wf_command (CommandDLock command)"
    and r: "AcquireDLock_case2 name ts command info ds a n di = (Inr (0, nonce), n', di')"
  shows "\<exists>e. n' = node_with_entry n e \<and> next_entry n e (info\<lparr>li_LockNonce := ds_LockNonce ds + 1, li_Timestamp := ts\<rparr>) \<and>
    nonce = ds_LockNonce ds + 1"
proof -
  let ?li = "info\<lparr>li_LockNonce := ds_LockNonce ds + 1, li_Timestamp := ts\<rparr>"
  obtain e where "append_command (SetAsDLockInfo ?li command) n = (None, n\<lparr>LogEntryInMemory := put_entry (LogEntryInMemory n) e\<rparr>)"
      "next_entry n e ?li"
    using append_command_nonce [OF c] .
  with r show ?thesis by (auto simp: AcquireDLock_case2_def Let_def node_with_entry_def)
qed

lemma AcquireDLock_immediate:
  assumes wf: "wf_Node n" "wf_Interchange (commitProcedure n) di" "counters_ok di name" "is_request name client command"
    and r: "AcquireDLock name ts command n di = (Inr (0, nonce), n', di')"
  shows "\<exists>e li. n' = node_with_entry (commitProcedure n) e \<and> next_entry (commitProcedure n) e li \<and>
    li_LockName li = name \<and> li_NewOwner li = client \<and> li_LockNonce li = nonce"
proof -
  let ?n = "commitProcedure n"
  have sm: "wf_LockMap (StateMapDLock ?n)" using wf_commitProcedure [OF wf(1)] by (rule wf_NodeD)
  obtain info where c: "GetAsDLockInfo command = Inr info" "li_LockName info = name" "li_NewOwner info = client"
      "wf_command (CommandDLock command)"
    using wf(4) by (auto simp: is_request_def split: sum.splits)
  show ?thesis
  proof (cases "abs_locks (StateMapDLock ?n) name")
    case None
    then have "AcquireDLock_case1 name ts command info ?n di = (Inr (0, nonce), n', di')"
      using r c(1) by (simp add: AcquireDLock_def QuerySpecificState_abs [OF sm])
    from case1_immediate [OF wf(2,3) c(1,2,4) this] c(2,3) show ?thesis by fastforce
  next
    case ds: (Some ds)
    with r c(1) obtain a where a: "PendingAcquire di name = Some a"
      by (auto simp: AcquireDLock_def Let_def QuerySpecificState_abs [OF sm] split: option.splits)
    have "AcquireDLock_case3 name ts command info a ?n di \<noteq> (Inr (0, nonce), n', di')"
      using queued_sequence [OF wf(2,3) a _ c(1,2,4)] by (auto simp: AcquireDLock_case3_def split: prod.splits sum.splits)
    then have "AcquireDLock_case2 name ts command info ds a ?n di = (Inr (0, nonce), n', di')"
      using r c(1) ds a by (auto simp: AcquireDLock_def Let_def QuerySpecificState_abs [OF sm] split: if_splits)
    from case2_immediate [OF c(1,4) this] c(2,3) show ?thesis by fastforce
  qed
qed

lemma ReleaseDLock_success:
  assumes wf: "wf_Node n"
    and r: "ReleaseDLock name applicant ts n di = (Inr (TriggerReleaseSuccess, nonce), n', di')"
  shows "\<exists>e li ds. n' = node_with_entry (commitProcedure n) e \<and> next_entry (commitProcedure n) e li \<and>
    li_LockName li = name \<and> li_NewOwner li = [] \<and> li_LockNonce li = nonce \<and>
    abs_locks (StateMapDLock (commitProcedure n)) name = Some ds \<and> ds_Owner ds = applicant \<and> nonce = ds_LockNonce ds + 1"
proof -
  let ?n = "commitProcedure n"
  have sm: "wf_LockMap (StateMapDLock ?n)" using wf_commitProcedure [OF wf] by (rule wf_NodeD)
  obtain ds where ds: "abs_locks (StateMapDLock ?n) name = Some ds" "ds_Owner ds = applicant"
    using r by (auto simp: ReleaseDLock_def Let_def QuerySpecificState_abs [OF sm] split: option.splits if_splits)
  note nm = abs_locks_wf [OF sm ds(1)]
  obtain a where a: "PendingAcquire di name = Some a" "\<not> ds_LockNonce ds < LastAppendedNonce a"
    using r ds by (auto simp: ReleaseDLock_def Let_def QuerySpecificState_abs [OF sm] split: option.splits if_splits)
  obtain e where e: "constructLogEntryByItems (ds_LockNonce ds + 1) name [] ts 0 (node_term ?n) (maximumIndex (LogEntryInMemory ?n) + 1) = Inr e"
      "next_entry ?n e \<lparr>li_LockNonce = ds_LockNonce ds + 1, li_LockName = name, li_NewOwner = [], li_Timestamp = ts, li_Expire = 0\<rparr>"
    using constructLogEntryByItems_spec [OF nm(2), of "[]"] by (fastforce simp: next_entry_def)
  have "n' = node_with_entry ?n e" "nonce = ds_LockNonce ds + 1"
    using r ds a e(1) nm(1)
    by (simp_all add: ReleaseDLock_def Let_def QuerySpecificState_abs [OF sm] MaximumIndex_def InsertLogEntry_def node_with_entry_def)
  with e(2) ds show ?thesis by (intro exI [of _ e]) fastforce
qed

text \<open>A refresh that returns a nonce appended the entry with that nonce.\<close>

lemma FetchFirst_keeps:
  assumes "wf_Acquirement a" "FetchFirstValidAcquirement a popTag ts = (r, a')"
  shows "wf_Acquirement a'" "LastAppendedNonce a' = LastAppendedNonce a"
  using FetchFirstValidAcquirement_spec [OF assms(1), where ts = ts and popTag = popTag] assms(2)
  by (cases "dropWhile (\<lambda>p. acq_expired ts (snd p)) (pending a)"; auto simp: Let_def)+

lemma pop_and_append_nonce:
  assumes "wf_Acquirement a" "pop_and_append name ts n di a = (Inr nonce, n', di')"
  shows "nonce = LastAppendedNonce a + 1" "last_nonce di' name = nonce"
  using assms(2) FetchFirst_keeps [OF assms(1), of True ts]
  by (auto simp: pop_and_append_def Let_def last_nonce_def split: prod.splits sum.splits option.splits)

lemma refreshSpecific_nonce:
  assumes "wf_Acquirement a" "PendingAcquire di name = Some a" "refreshSpecificDLock name client ts n di = (Inr nonce, n', di')" "nonce \<noteq> 0"
  shows "nonce = LastAppendedNonce a + 1 \<and> last_nonce di' name = nonce"
proof -
  obtain command a1 where f: "FetchFirstValidAcquirement a False ts = (Inr (Some command), a1)"
      "pop_and_append name ts n di a1 = (Inr nonce, n', di')"
    using assms(2-4) by (auto simp: refreshSpecificDLock_def split: sum.splits prod.splits option.splits if_splits)
  note a1 = FetchFirst_keeps [OF assms(1) f(1)]
  from pop_and_append_nonce [OF a1(1) f(2)] a1(2) show ?thesis by simp
qed

lemma Refresh_nonce:
  assumes wf: "wf_Node n" "wf_Interchange (commitProcedure n) di" "counters_ok di name"
    and r: "RefreshAcquirementBySequence name client sequence ts n di = (Inr (success, nonce), n', di')" "nonce \<noteq> 0"
  shows "success \<and> (\<exists>e li. n' = node_with_entry (commitProcedure n) e \<and> next_entry (commitProcedure n) e li \<and>
    li_LockName li = name \<and> li_NewOwner li = client \<and> li_LockNonce li = nonce)"
proof -
  obtain a0 where a0: "PendingAcquire di name = Some a0"
    using r by (auto simp: RefreshAcquirementBySequence_def Let_def split: option.splits)
  note w = wf_InterchangeD [OF wf(2) a0]
  obtain a where a: "AbandonExpiredAcquirement a0 ts = (None, a)" "wf_Acquirement a" "LastAppendedNonce a = LastAppendedNonce a0"
    using AbandonExpired_spec [OF w(1)] by metis
  obtain a1 where a1: "RefreshAcquirement a sequence ts = (None, a1)" "success"
      "refreshSpecificDLock name client ts (commitProcedure n) (put_acq name a1 di) = (Inr nonce, n', di')"
    using r(1) a0 a(1) by (auto simp: RefreshAcquirementBySequence_def Let_def split: prod.splits sum.splits option.splits)
  have "wf_Acquirement a1" "LastAppendedNonce a1 = LastAppendedNonce a"
    using RefreshAcquirement_spec [OF a(2), where ts = ts and seq = sequence] a1(1)
    by (auto simp: Let_def split: option.split_asm if_split_asm)
  with refreshSpecific_nonce [OF _ _ a1(3) r(2)] a(3) a0
  have "nonce = last_nonce di name + 1" "last_nonce di' name = nonce" by (simp_all add: last_nonce_def)
  with refresh_op.perform_outcome [OF TrueI wf r(1)] a1(2) show ?thesis
    unfolding outcome_def why_served_def by fastforce
qed

text \<open>The mutex does not matter for the invariants.\<close>

lemma Lock_invariants [simp]:
  "wf_Node (Lock n) \<longleftrightarrow> wf_Node n" "wf_Interchange (Lock n) di \<longleftrightarrow> wf_Interchange n di"
  "next_entry (Lock n) e li \<longleftrightarrow> next_entry n e li"
  by (simp_all add: wf_Node_def wf_Interchange_def next_entry_def)

text \<open>The entry that gives the lock to the client, with the nonce it is told, is the next one of the leader.\<close>

definition grants :: "Node \<Rightarrow> ClientAcquireDLockRequest \<Rightarrow> u32 \<Rightarrow> Node \<Rightarrow> bool" where
  "grants n request nonce n' \<longleftrightarrow>
     (\<exists>e li. LogEntryInMemory n' = put_entry (LogEntryInMemory n) e \<and> next_entry (commitProcedure n) e li \<and>
        li_LockName li = acq_LockName request \<and> li_NewOwner li = acq_ClientID request \<and> li_LockNonce li = nonce)"

lemma grants_entry:
  assumes "n1 = node_with_entry (commitProcedure (Lock n)) e" "next_entry (commitProcedure (Lock n)) e li"
    "li_LockName li = acq_LockName request" "li_NewOwner li = acq_ClientID request" "li_LockNonce li = nonce"
    "LogEntryInMemory n' = LogEntryInMemory n1"
  shows "grants n request nonce n'"
  unfolding grants_def using assms by (intro exI [of _ e] exI [of _ li]) (simp add: commitProcedure_Lock)

text \<open>Only a leader answers that a request is not pending.\<close>

lemma AcquireDLockService_not_pending:
  assumes "AcquireDLockService r ts request n = ((Some response, None), n')" "\<not> acr_Pending response"
  shows "node_state n = Leader"
  using assms by (auto simp: AcquireDLockService_def Let_def split: if_splits sum.splits prod.splits)

lemma AcquireDLock_new_grants:
  assumes di: "DlockInterchangeInstance n = Some di"
    and wf: "wf_Node n" "wf_Interchange (commitProcedure n) di" "counters_ok di (acq_LockName request)"
    and req: "valid_utf8 (acq_LockName request)" "valid_utf8 (acq_ClientID request)"
    and r: "AcquireDLock_new ts request response0 (Lock n) = ((Some response, None), n')" "\<not> acr_Pending response"
  shows "grants n request (acr_Nonce response) n'"
proof -
  let ?command = "NewCommandDLock 0 (acq_LockName request) (acq_ClientID request) ts (acq_Expire request)"
  obtain r1 n1 di1 where a: "AcquireDLock (acq_LockName request) ts ?command (Lock n) di = (r1, n1, di1)"
    by (metis prod_cases3)
  have s: "r1 = Inr (0, acr_Nonce response)" "n' = n1\<lparr>DlockInterchangeInstance := Some di1\<rparr>"
    using r di a by (auto simp: AcquireDLock_new_def with_interchange_def Let_def split: sum.splits if_splits)
  have lock: "wf_Node (Lock n)" "wf_Interchange (commitProcedure (Lock n)) di" using wf(1,2) by (simp_all add: commitProcedure_Lock)
  obtain e li where e: "n1 = node_with_entry (commitProcedure (Lock n)) e" "next_entry (commitProcedure (Lock n)) e li"
      "li_LockName li = acq_LockName request" "li_NewOwner li = acq_ClientID request" "li_LockNonce li = acr_Nonce response"
    using AcquireDLock_immediate [OF lock wf(3) is_request_new [OF req] a [unfolded s(1)]] by blast
  show ?thesis by (rule grants_entry [OF e]) (simp add: s(2))
qed

lemma AcquireDLock_refresh_grants:
  assumes di: "DlockInterchangeInstance n = Some di"
    and wf: "wf_Node n" "wf_Interchange (commitProcedure n) di" "counters_ok di (acq_LockName request)"
    and r: "AcquireDLock_refresh ts request response0 (Lock n) = ((Some response, None), n')" "acr_Nonce response \<noteq> 0"
      "acr_Nonce response0 = 0"
  shows "grants n request (acr_Nonce response) n'"
proof -
  obtain r1 n1 di1 where a: "RefreshAcquirementBySequence (acq_LockName request) (acq_ClientID request) (acq_Sequence request) ts (Lock n) di = (r1, n1, di1)"
    by (metis prod_cases3)
  have w: "with_interchange (RefreshAcquirementBySequence (acq_LockName request) (acq_ClientID request) (acq_Sequence request) ts) (Lock n) =
      (r1, n1\<lparr>DlockInterchangeInstance := Some di1\<rparr>)"
    using di a by (simp add: with_interchange_def)
  obtain success where s: "r1 = Inr (success, acr_Nonce response)" "n' = n1\<lparr>DlockInterchangeInstance := Some di1\<rparr>"
  proof (cases r1)
    case (Inl err)
    then have False using r unfolding AcquireDLock_refresh_def w by (simp split: if_splits) auto
    then show ?thesis ..
  next
    case (Inr q)
    then show ?thesis using r unfolding AcquireDLock_refresh_def w by (intro that [of "fst q"]) (auto simp: Let_def split: if_splits prod.splits)
  qed
  have lock: "wf_Node (Lock n)" "wf_Interchange (commitProcedure (Lock n)) di" using wf(1,2) by (simp_all add: commitProcedure_Lock)
  obtain e li where e: "n1 = node_with_entry (commitProcedure (Lock n)) e" "next_entry (commitProcedure (Lock n)) e li"
      "li_LockName li = acq_LockName request" "li_NewOwner li = acq_ClientID request" "li_LockNonce li = acr_Nonce response"
    using Refresh_nonce [OF lock wf(3) a [unfolded s(1)] r(2)] by blast
  show ?thesis by (rule grants_entry [OF e]) (simp add: s(2))
qed

text \<open>
  A new request that is not pending, and a refresh answered with a nonce, are in the log. A refresh
  answered as not pending with nonce 0 is not: its sequence number is unknown.
\<close>

lemma AcquireDLockService_grants:
  assumes "DlockInterchangeInstance n = Some di"
    and wf: "wf_Node n" "wf_Interchange (commitProcedure n) di" "counters_ok di (acq_LockName request)"
    and req: "valid_utf8 (acq_LockName request)" "valid_utf8 (acq_ClientID request)"
    and r: "AcquireDLockService r ts request n = ((Some response, None), n')" "\<not> acr_Pending response"
    and nonce: "acq_Sequence request = 0 \<or> acr_Nonce response \<noteq> 0"
  shows "grants n request (acr_Nonce response) n'"
proof -
  let ?response = "\<lparr>acr_Pending = True, acr_Sequence = 0, acr_CurrentLeader = [], acr_Nonce = 0\<rparr>"
  have lead: "node_state n = Leader" by (rule AcquireDLockService_not_pending [OF r])
  have unlock: "grants n request k m \<Longrightarrow> grants n request k (Unlock m)" for k m by (simp add: grants_def)
  show ?thesis
  proof (cases "acq_Sequence request = 0")
    case True
    obtain m where "AcquireDLock_new ts request ?response (Lock n) = ((Some response, None), m)" "n' = Unlock m"
      using r(1) lead True by (auto simp: AcquireDLockService_def split: prod.splits)
    then show ?thesis using AcquireDLock_new_grants [OF assms(1) wf req _ r(2)] unlock by blast
  next
    case False
    obtain m where "AcquireDLock_refresh ts request ?response (Lock n) = ((Some response, None), m)" "n' = Unlock m"
      using r(1) lead False by (auto simp: AcquireDLockService_def split: prod.splits)
    then show ?thesis using AcquireDLock_refresh_grants [OF assms(1) wf, where ?response0.0 = ?response] nonce False unlock by auto
  qed
qed

text \<open>What the service does about a request that has expired in the queue: it forgets it and says that it is not pending.\<close>

lemma pending_numbers: "distinct (map fst (pending a))"
proof -
  have "unat (of_nat k :: u32) = k" if "k \<le> unat (lastAssignedAcquirement a)" for k
    using that unsigned_less [of "lastAssignedAcquirement a", where ?'a = nat] by (simp add: unat_of_nat)
  then have "inj_on (of_nat :: nat \<Rightarrow> u32) {Suc (unat (lastProcessedAcquirement a))..<Suc (unat (lastAssignedAcquirement a))}"
    by (intro inj_onI) (metis atLeastLessThan_iff less_Suc_eq_le)
  then show ?thesis by (simp add: pending_def distinct_map comp_def del: upt_Suc)
qed

lemma AcquireDLockService_dropped:
  assumes lead: "node_state n = Leader" "DlockInterchangeInstance n = Some di" "PendingAcquire di (acq_LockName request) = Some a"
    and a: "wf_Acquirement a" "pending a = before @ (acq_Sequence request, info) # behind"
    and late: "\<forall>(k, i) \<in> set before. acq_expired ts i" "acq_expired ts info"
  shows "\<exists>n' di' a'. AcquireDLockService r ts request n =
      ((Some \<lparr>acr_Pending = False, acr_Sequence = acq_Sequence request, acr_CurrentLeader = [], acr_Nonce = 0\<rparr>, None), n') \<and>
    LogEntryInMemory n' = LogEntryInMemory n \<and> DlockInterchangeInstance n' = Some di' \<and>
    PendingAcquire di' (acq_LockName request) = Some a' \<and> acq_Sequence request \<notin> set (map fst (pending a'))"
proof -
  let ?P = "\<lambda>p :: u32 \<times> DlockAcquirementInfo. acq_expired ts (snd p)" and ?s = "acq_Sequence request"
  have s: "?s \<noteq> 0" using pending_member [OF a(1), of ?s info] a(2) by auto
  have "dropWhile ?P (pending a) = dropWhile ?P behind" using a(2) late by (simp add: dropWhile_append case_prod_beta)
  moreover have "?s \<notin> fst ` set behind" using pending_numbers [of a] a(2) by simp
  ultimately have gone: "map_of (dropWhile ?P (pending a)) ?s = None" by (auto simp: map_of_eq_None_iff dest: set_dropWhileD)
  obtain a1 where a1: "AbandonExpiredAcquirement a ts = (None, a1)" "wf_Acquirement a1" "pending a1 = dropWhile ?P (pending a)"
    using AbandonExpired_spec [OF a(1)] by metis
  have again: "dropWhile ?P (pending a1) = pending a1" using a1(3) by simp
  obtain a2 where a2: "RefreshAcquirement a1 ?s ts = (Some VolatileAcquirementInvalidSequenceError, a2)" "pending a2 = pending a1"
    using RefreshAcquirement_spec [OF a1(2), of ts ?s] gone a1(3) unfolding again by (auto simp: Let_def)
  have "RefreshAcquirementBySequence (acq_LockName request) (acq_ClientID request) ?s ts (Lock n) di =
      (Inl VolatileAcquirementInvalidSequenceError, Lock (commitProcedure n), put_acq (acq_LockName request) a2 di)"
    using lead(3) a1(1) a2(1) by (simp add: RefreshAcquirementBySequence_def Let_def commitProcedure_Lock)
  then show ?thesis
    using lead(1,2) s gone a1(3) a2(2)
    by (simp add: AcquireDLockService_def AcquireDLock_refresh_def with_interchange_def Let_def map_of_eq_None_iff)
qed

text \<open>What a release reported by the service means: the next entry of the leader empties the owner of the lock.\<close>

definition releases :: "Node \<Rightarrow> bytes \<Rightarrow> bytes \<Rightarrow> u32 \<Rightarrow> Node \<Rightarrow> bool" where
  "releases n lockName clientId nonce n' \<longleftrightarrow>
     (\<exists>e li ds. LogEntryInMemory n' = put_entry (LogEntryInMemory n) e \<and> next_entry (commitProcedure n) e li \<and>
        li_LockName li = lockName \<and> li_NewOwner li = [] \<and> li_LockNonce li = nonce \<and>
        abs_locks (StateMapDLock (commitProcedure n)) lockName = Some ds \<and> ds_Owner ds = clientId)"

lemma release_call:
  assumes "wf_Node n" "with_interchange (ReleaseDLock lockName clientId ts) (Lock n) = (Inr (info, nonce), n1)"
    and "ReleaseDLock_result info nonce = Some (Some response, None)" "LogEntryInMemory n' = LogEntryInMemory n1"
  shows "rel_Released response \<and> releases n lockName clientId (rel_Nonce response) n'"
proof -
  have info: "info = TriggerReleaseSuccess" "rel_Nonce response = nonce" "rel_Released response"
    using assms(3) by (auto simp: ReleaseDLock_result_def Let_def split: ReleaseInfo.splits)
  obtain di m di1 where "ReleaseDLock lockName clientId ts (Lock n) di = (Inr (TriggerReleaseSuccess, nonce), m, di1)"
      "LogEntryInMemory n1 = LogEntryInMemory m"
    using assms(2) info(1) by (auto simp: with_interchange_def split: option.splits prod.splits)
  from ReleaseDLock_success [OF _ this(1)] this(2) assms(1,4) info(2,3) show ?thesis
    by (fastforce simp: commitProcedure_Lock releases_def)
qed

lemma ReleaseDLock_begin_releases:
  assumes "wf_Node n" "ReleaseDLock_begin r ts lockName clientId n = (Some (Some response, None), n')" "rel_Released response"
  shows "releases n lockName clientId (rel_Nonce response) n'"
proof -
  obtain info nonce n1 where "with_interchange (ReleaseDLock lockName clientId ts) (Lock n) = (Inr (info, nonce), n1)"
      "ReleaseDLock_result info nonce = Some (Some response, None)" "LogEntryInMemory n' = LogEntryInMemory n1"
    using assms(2,3) by (auto simp: ReleaseDLock_begin_def Let_def split: if_splits sum.splits prod.splits)
  from release_call [OF assms(1) this] show ?thesis by blast
qed

lemma ReleaseDLock_tick_releases:
  assumes "wf_Node n" "ReleaseDLock_tick ts lockName clientId n = (Some (Some response, None), n')"
  shows "rel_Released response \<and> releases n lockName clientId (rel_Nonce response) n'"
proof -
  obtain info nonce n1 where "with_interchange (ReleaseDLock lockName clientId ts) (Lock n) = (Inr (info, nonce), n1)"
      "ReleaseDLock_result info nonce = Some (Some response, None)" "LogEntryInMemory n' = LogEntryInMemory n1"
    using assms(2) by (auto simp: ReleaseDLock_tick_def split: sum.splits prod.splits)
  from release_call [OF assms(1) this] show ?thesis .
qed

lemma ReleaseDLock_wait_releases:
  assumes "ReleaseDLock_wait lockName clientId events = Some ((Some response, None), final)" "rel_Released response"
    and "\<forall>t m. ReleaseTick t m \<in> set events \<longrightarrow> wf_Node m"
  shows "\<exists>t m n'. ReleaseTick t m \<in> set events \<and> final = Some n' \<and> releases m lockName clientId (rel_Nonce response) n'"
  using assms
proof (induction lockName clientId events rule: ReleaseDLock_wait.induct)
  case (3 lockName clientId t m events)
  show ?case
  proof (cases "ReleaseDLock_tick t lockName clientId m")
    case (Pair result n')
    show ?thesis
    proof (cases result)
      case None
      with Pair 3(2) have "ReleaseDLock_wait lockName clientId events = Some ((Some response, None), final)" by simp
      from 3(1) [OF Pair [symmetric] None this 3(3)] 3(4) show ?thesis by (meson list.set_intros(2))
    next
      case (Some reply)
      with Pair 3(2) have "ReleaseDLock_tick t lockName clientId m = (Some (Some response, None), n')" "final = Some n'" by simp_all
      moreover have "wf_Node m" using 3(4) by (meson list.set_intros(1))
      ultimately have "releases m lockName clientId (rel_Nonce response) n'" "final = Some n'" using ReleaseDLock_tick_releases by blast+
      then show ?thesis by auto
    qed
  qed
qed auto

lemma ReleaseDLockService_releases:
  assumes "ReleaseDLockService r ts lockName clientId n events = (Some (Some response, None), n')" "rel_Released response"
    and "wf_Node n" "\<forall>t m. ReleaseTick t m \<in> set events \<longrightarrow> wf_Node m"
  shows "\<exists>m. (m = n \<or> (\<exists>t. ReleaseTick t m \<in> set events)) \<and> releases m lockName clientId (rel_Nonce response) n'"
proof -
  obtain r1 n1 where b: "ReleaseDLock_begin r ts lockName clientId n = (r1, n1)" by fastforce
  show ?thesis
  proof (cases r1)
    case None
    then obtain final where w: "ReleaseDLock_wait lockName clientId events = Some ((Some response, None), final)"
        "n' = (case final of None \<Rightarrow> n1 | Some n2 \<Rightarrow> n2)"
      using assms(1) b by (auto simp: ReleaseDLockService_def split: option.splits)
    obtain t m n2 where "ReleaseTick t m \<in> set events" "final = Some n2" "releases m lockName clientId (rel_Nonce response) n2"
      using ReleaseDLock_wait_releases [OF w(1) assms(2,4)] by blast
    with w(2) show ?thesis by auto
  next
    case (Some reply)
    then have "ReleaseDLock_begin r ts lockName clientId n = (Some (Some response, None), n')"
      using assms(1) b by (simp add: ReleaseDLockService_def)
    from ReleaseDLock_begin_releases [OF assms(3) this assms(2)] show ?thesis by blast
  qed
qed

end
