(* ===== verification/Grpc_Clients.thy ===== *)
theory Grpc_Clients
  imports Cli_Server
begin

section \<open>The gRPC clients (node/p2p_client.go, node/clisrv_client.go)\<close>

text \<open>
  Both clients keep one connection to one address, open it when it is first needed and open it
  again after a transient failure. The gRPC library is a parameter: dialling, the state of a
  connection, closing it, and the remote calls themselves. A call on a nil connection would
  panic; the lemmas show that no path makes one.
\<close>

datatype ConnState = Idle | Connecting | Ready | TransientFailure | Shutdown

record 'c grpc =
  grpc_Dial :: "bytes \<Rightarrow> go_error + 'c"
  grpc_GetState :: "'c \<Rightarrow> ConnState"
  grpc_Close :: "'c \<Rightarrow> go_error option"

subsection \<open>The connection, as both clients handle it\<close>

definition conn_start :: "'c grpc \<Rightarrow> bytes \<Rightarrow> 'c option \<Rightarrow> go_error option \<times> 'c option" where
  "conn_start g address conn =
     (case grpc_Dial g address of Inl err \<Rightarrow> (Some err, conn) | Inr c \<Rightarrow> (None, Some c))"

definition conn_reconnect :: "'c grpc \<Rightarrow> bytes \<Rightarrow> 'c option \<Rightarrow> go_error option \<times> 'c option" where
  "conn_reconnect g address conn =
     (case conn of
        None \<Rightarrow> conn_start g address conn
      | Some c \<Rightarrow>
          if grpc_GetState g c = TransientFailure
          then (case grpc_Close g c of
                  Some err \<Rightarrow> (Some err, conn)
                | None \<Rightarrow> (case grpc_Dial g address of Inl err \<Rightarrow> (Some err, conn) | Inr c' \<Rightarrow> (None, Some c')))
          else (None, conn))"

definition conn_available :: "'c grpc \<Rightarrow> 'c option \<Rightarrow> bool" where
  "conn_available g conn = (case conn of None \<Rightarrow> False | Some c \<Rightarrow> grpc_GetState g c = Ready)"

text \<open>A call: make sure there is a connection, then call with the timeout in milliseconds.\<close>

definition conn_send ::
  "'c grpc \<Rightarrow> ('c \<Rightarrow> u32 \<Rightarrow> 'q \<Rightarrow> go_error + 'r) \<Rightarrow> bytes \<Rightarrow> u32 \<Rightarrow> 'q \<Rightarrow> 'c option \<Rightarrow> (go_error + 'r) \<times> 'c option" where
  "conn_send g service address timeout request conn =
     (let (err, conn1) = (if conn_available g conn then (None, conn) else conn_reconnect g address conn)
      in case err of
           Some e \<Rightarrow> (Inl e, conn1)
         | None \<Rightarrow> (case conn1 of
                      None \<Rightarrow> (Inl (GoPanic NilDereference), conn1)
                    | Some c \<Rightarrow> (service c timeout request, conn1)))"

subsection \<open>The client for peers\<close>

record 'c GrpcP2PClientImpl =
  p2p_address :: bytes
  p2p_conn :: "'c option"

definition NewGrpcP2PClientImpl :: "bytes \<Rightarrow> 'c GrpcP2PClientImpl" where
  "NewGrpcP2PClientImpl address = \<lparr>p2p_address = address, p2p_conn = None\<rparr>"

definition P2P_StartConnection :: "'c grpc \<Rightarrow> 'c GrpcP2PClientImpl \<Rightarrow> go_error option \<times> 'c GrpcP2PClientImpl" where
  "P2P_StartConnection g gc = (case conn_start g (p2p_address gc) (p2p_conn gc) of (err, c) \<Rightarrow> (err, gc\<lparr>p2p_conn := c\<rparr>))"

definition P2P_GetConnectionState :: "'c grpc \<Rightarrow> 'c GrpcP2PClientImpl \<Rightarrow> ConnState" where
  "P2P_GetConnectionState g gc = (case p2p_conn gc of None \<Rightarrow> Idle | Some c \<Rightarrow> grpc_GetState g c)"

definition P2P_IsAvailable :: "'c grpc \<Rightarrow> 'c GrpcP2PClientImpl \<Rightarrow> bool" where
  "P2P_IsAvailable g gc = conn_available g (p2p_conn gc)"

definition P2P_ReConnect :: "'c grpc \<Rightarrow> 'c GrpcP2PClientImpl \<Rightarrow> go_error option \<times> 'c GrpcP2PClientImpl" where
  "P2P_ReConnect g gc = (case conn_reconnect g (p2p_address gc) (p2p_conn gc) of (err, c) \<Rightarrow> (err, gc\<lparr>p2p_conn := c\<rparr>))"

definition p2p_send ::
  "'c grpc \<Rightarrow> ('c \<Rightarrow> u32 \<Rightarrow> 'q \<Rightarrow> go_error + 'r) \<Rightarrow> u32 \<Rightarrow> 'q \<Rightarrow> 'c GrpcP2PClientImpl \<Rightarrow>
   (go_error + 'r) \<times> 'c GrpcP2PClientImpl" where
  "p2p_send g service timeout request gc =
     (case conn_send g service (p2p_address gc) timeout request (p2p_conn gc) of
        (r, c) \<Rightarrow> (r, gc\<lparr>p2p_conn := c\<rparr>))"

definition SendGrpcAppendEntries ::
  "'c grpc \<Rightarrow> ('c \<Rightarrow> u32 \<Rightarrow> AppendEntriesRequest \<Rightarrow> go_error + AppendEntriesResponse) \<Rightarrow> NodeConfig \<Rightarrow>
   AppendEntriesRequest \<Rightarrow> 'c GrpcP2PClientImpl \<Rightarrow> (go_error + AppendEntriesResponse) \<times> 'c GrpcP2PClientImpl" where
  "SendGrpcAppendEntries g service config request gc =
     p2p_send g service (AppendEntriesTimeout (Params config)) request gc"

definition SendGrpcCandidateVotes ::
  "'c grpc \<Rightarrow> ('c \<Rightarrow> u32 \<Rightarrow> CandidateVotesRequest \<Rightarrow> go_error + CandidateVotesResponse) \<Rightarrow> NodeConfig \<Rightarrow>
   CandidateVotesRequest \<Rightarrow> 'c GrpcP2PClientImpl \<Rightarrow> (go_error + CandidateVotesResponse) \<times> 'c GrpcP2PClientImpl" where
  "SendGrpcCandidateVotes g service config request gc =
     p2p_send g service (MaxWaitTimeCandidate (Params config)) request gc"

definition SendGrpcRecoverEntries ::
  "'c grpc \<Rightarrow> ('c \<Rightarrow> u32 \<Rightarrow> 'q \<Rightarrow> go_error + RecoverEntriesResponse) \<Rightarrow> NodeConfig \<Rightarrow>
   'q \<Rightarrow> 'c GrpcP2PClientImpl \<Rightarrow> (go_error + RecoverEntriesResponse) \<times> 'c GrpcP2PClientImpl" where
  "SendGrpcRecoverEntries g service config request gc =
     p2p_send g service (AppendEntriesTimeout (Params config)) request gc"

subsection \<open>The client for users\<close>

record ClientPutStateKVRequest =
  putq_Key :: bytes
  putq_Content :: "bytes option"

record ClientReleaseDLockRequest =
  relq_LockName :: bytes
  relq_ClientID :: bytes

record 'c GrpcCliSrvClientImpl =
  cs_nodeAddress :: bytes
  cs_conn :: "'c option"
  cs_timeout :: u32

definition NewGrpcCliSrvClientImpl :: "bytes \<Rightarrow> u32 \<Rightarrow> 'c GrpcCliSrvClientImpl" where
  "NewGrpcCliSrvClientImpl address timeout = \<lparr>cs_nodeAddress = address, cs_conn = None, cs_timeout = timeout\<rparr>"

definition SetTimeout :: "u32 \<Rightarrow> 'c GrpcCliSrvClientImpl \<Rightarrow> 'c GrpcCliSrvClientImpl" where
  "SetTimeout timeout gc = gc\<lparr>cs_timeout := timeout\<rparr>"

definition Cli_StartConnection :: "'c grpc \<Rightarrow> 'c GrpcCliSrvClientImpl \<Rightarrow> go_error option \<times> 'c GrpcCliSrvClientImpl" where
  "Cli_StartConnection g gc = (case conn_start g (cs_nodeAddress gc) (cs_conn gc) of (err, c) \<Rightarrow> (err, gc\<lparr>cs_conn := c\<rparr>))"

definition Cli_GetConnectionState :: "'c grpc \<Rightarrow> 'c GrpcCliSrvClientImpl \<Rightarrow> ConnState" where
  "Cli_GetConnectionState g gc = (case cs_conn gc of None \<Rightarrow> Idle | Some c \<Rightarrow> grpc_GetState g c)"

definition Cli_IsAvailable :: "'c grpc \<Rightarrow> 'c GrpcCliSrvClientImpl \<Rightarrow> bool" where
  "Cli_IsAvailable g gc = conn_available g (cs_conn gc)"

definition Cli_ReConnect :: "'c grpc \<Rightarrow> 'c GrpcCliSrvClientImpl \<Rightarrow> go_error option \<times> 'c GrpcCliSrvClientImpl" where
  "Cli_ReConnect g gc = (case conn_reconnect g (cs_nodeAddress gc) (cs_conn gc) of (err, c) \<Rightarrow> (err, gc\<lparr>cs_conn := c\<rparr>))"

text \<open>The six methods that send a request differ only in the remote service they call.\<close>

definition SendGrpc ::
  "'c grpc \<Rightarrow> ('c \<Rightarrow> u32 \<Rightarrow> 'q \<Rightarrow> go_error + 'r) \<Rightarrow> 'q \<Rightarrow> 'c GrpcCliSrvClientImpl \<Rightarrow>
   (go_error + 'r) \<times> 'c GrpcCliSrvClientImpl" where
  "SendGrpc g service request gc =
     (case conn_send g service (cs_nodeAddress gc) (cs_timeout gc) request (cs_conn gc) of
        (r, c) \<Rightarrow> (r, gc\<lparr>cs_conn := c\<rparr>))"

text \<open>A request with one field is that field: the key, or the name of the lock.\<close>

definition SendGrpcPutState ::
  "'c grpc \<Rightarrow> ('c \<Rightarrow> u32 \<Rightarrow> ClientPutStateKVRequest \<Rightarrow> go_error + ClientPutStateKVResponse) \<Rightarrow>
   ClientPutStateKVRequest \<Rightarrow> 'c GrpcCliSrvClientImpl \<Rightarrow> (go_error + ClientPutStateKVResponse) \<times> 'c GrpcCliSrvClientImpl" where
  "SendGrpcPutState = SendGrpc"

definition SendGrpcDelState ::
  "'c grpc \<Rightarrow> ('c \<Rightarrow> u32 \<Rightarrow> bytes \<Rightarrow> go_error + ClientPutStateKVResponse) \<Rightarrow>
   bytes \<Rightarrow> 'c GrpcCliSrvClientImpl \<Rightarrow> (go_error + ClientPutStateKVResponse) \<times> 'c GrpcCliSrvClientImpl" where
  "SendGrpcDelState = SendGrpc"

definition SendGrpcGetState ::
  "'c grpc \<Rightarrow> ('c \<Rightarrow> u32 \<Rightarrow> bytes \<Rightarrow> go_error + ClientGetStateKVResponse) \<Rightarrow>
   bytes \<Rightarrow> 'c GrpcCliSrvClientImpl \<Rightarrow> (go_error + ClientGetStateKVResponse) \<times> 'c GrpcCliSrvClientImpl" where
  "SendGrpcGetState = SendGrpc"

definition SendGrpcAcquireDLock ::
  "'c grpc \<Rightarrow> ('c \<Rightarrow> u32 \<Rightarrow> ClientAcquireDLockRequest \<Rightarrow> go_error + ClientAcquireDLockResponse) \<Rightarrow>
   ClientAcquireDLockRequest \<Rightarrow> 'c GrpcCliSrvClientImpl \<Rightarrow> (go_error + ClientAcquireDLockResponse) \<times> 'c GrpcCliSrvClientImpl" where
  "SendGrpcAcquireDLock = SendGrpc"

definition SendGrpcQueryDLock ::
  "'c grpc \<Rightarrow> ('c \<Rightarrow> u32 \<Rightarrow> bytes \<Rightarrow> go_error + ClientQueryDLockResponse) \<Rightarrow>
   bytes \<Rightarrow> 'c GrpcCliSrvClientImpl \<Rightarrow> (go_error + ClientQueryDLockResponse) \<times> 'c GrpcCliSrvClientImpl" where
  "SendGrpcQueryDLock = SendGrpc"

definition SendGrpcReleaseDLock ::
  "'c grpc \<Rightarrow> ('c \<Rightarrow> u32 \<Rightarrow> ClientReleaseDLockRequest \<Rightarrow> go_error + ClientReleaseDLockResponse) \<Rightarrow>
   ClientReleaseDLockRequest \<Rightarrow> 'c GrpcCliSrvClientImpl \<Rightarrow> (go_error + ClientReleaseDLockResponse) \<times> 'c GrpcCliSrvClientImpl" where
  "SendGrpcReleaseDLock = SendGrpc"

subsection \<open>No call on a nil connection\<close>

lemma conn_reconnect_conn: "conn_reconnect g address conn = (None, conn') \<Longrightarrow> conn' \<noteq> None"
  by (auto simp: conn_reconnect_def conn_start_def split: option.splits sum.splits if_splits)

lemma conn_reconnect_keeps: "conn_reconnect g address conn = (Some err, conn') \<Longrightarrow> conn' = conn"
  by (auto simp: conn_reconnect_def conn_start_def split: option.splits sum.splits if_splits)

lemma conn_send_calls:
  assumes "conn_send g service address timeout request conn = (r, conn')"
  obtains (called) c where "conn' = Some c" "r = service c timeout request"
    | (failed) err where "r = Inl err" "conn_reconnect g address conn = (Some err, conn')" "conn' = conn"
proof (cases "conn_available g conn")
  case True
  then obtain c where "conn = Some c" by (auto simp: conn_available_def split: option.splits)
  with True assms have "conn' = Some c" "r = service c timeout request" by (simp_all add: conn_send_def)
  then show thesis by (rule called)
next
  case False
  obtain e conn1 where rc: "conn_reconnect g address conn = (e, conn1)" by fastforce
  show thesis
  proof (cases e)
    case None
    obtain c where c: "conn1 = Some c" using conn_reconnect_conn [OF rc [unfolded None]] by blast
    have "conn' = Some c" "r = service c timeout request" using None False rc c assms by (simp_all add: conn_send_def)
    then show thesis by (rule called)
  next
    case (Some err)
    have "conn1 = conn" by (rule conn_reconnect_keeps [OF rc [unfolded Some]])
    moreover have "r = Inl err" "conn' = conn1" using Some False rc assms by (simp_all add: conn_send_def)
    ultimately show thesis using failed [of err] rc Some by metis
  qed
qed

lemma SendGrpc_calls:
  assumes "SendGrpc g service request gc = (r, gc')"
  shows "(\<exists>c. cs_conn gc' = Some c \<and> r = service c (cs_timeout gc) request) \<or>
    (\<exists>err. r = Inl err \<and> conn_reconnect g (cs_nodeAddress gc) (cs_conn gc) = (Some err, cs_conn gc) \<and> gc' = gc)"
proof -
  obtain r1 c1 where s: "conn_send g service (cs_nodeAddress gc) (cs_timeout gc) request (cs_conn gc) = (r1, c1)" by fastforce
  then have "r = r1" "gc' = gc\<lparr>cs_conn := c1\<rparr>" using assms by (simp_all add: SendGrpc_def)
  with s show ?thesis by (auto elim!: conn_send_calls)
qed

end
