(* ===== verification/Client_API.thy ===== *)
theory Client_API
  imports Grpc_Clients
begin

section \<open>The client library (dlock_api/dlock_raft_client_API.go)\<close>

text \<open>
  What a program calls to use the service. A call sends a request to one node, follows
  redirections while its time budget lasts, and, for locks, polls until the nonce it was given
  is committed. The network is an argument: for every attempt the gRPC library and the remote
  service as they are at that moment and the time the attempt takes (in nanoseconds), and for the
  polling a list of the events of the tickers and of the timer. Running out of them is \<open>None\<close>:
  the call is still waiting.
\<close>

type_synonym ('c, 'q, 'r) network = "'c grpc \<times> ('c \<Rightarrow> u32 \<Rightarrow> 'q \<Rightarrow> go_error + 'r)"

type_synonym ('c, 'q, 'r) attempt = "('c, 'q, 'r) network \<times> nat"

record 'c DLockRaftClientAPI =
  CliSrvHandler :: "bytes \<rightharpoonup> 'c GrpcCliSrvClientImpl"
  ClientId :: bytes

text \<open>The generated identifier is an argument.\<close>

definition NewDLockRaftClientAPI :: "bytes list \<Rightarrow> bytes \<Rightarrow> 'c DLockRaftClientAPI" where
  "NewDLockRaftClientAPI clientIdPreset ksuid =
     \<lparr>CliSrvHandler = Map.empty,
      ClientId = (case clientIdPreset of
                    [] \<Rightarrow> ksuid
                  | preset # _ \<Rightarrow> if length preset \<noteq> 27 then preset else ksuid)\<rparr>"

definition default_timeout :: "u32 option \<Rightarrow> u32" where
  "default_timeout timeoutOptional = (case timeoutOptional of None \<Rightarrow> 2500 | Some timeout \<Rightarrow> timeout)"

definition preprocessConnections ::
  "bytes \<Rightarrow> u32 option \<Rightarrow> 'c DLockRaftClientAPI \<Rightarrow> 'c DLockRaftClientAPI" where
  "preprocessConnections address timeoutOptional drc =
     (let timeout = default_timeout timeoutOptional
      in case CliSrvHandler drc address of
           None \<Rightarrow> drc\<lparr>CliSrvHandler := (CliSrvHandler drc)(address \<mapsto> NewGrpcCliSrvClientImpl address timeout)\<rparr>
         | Some cliSrvFetched \<Rightarrow>
             drc\<lparr>CliSrvHandler := (CliSrvHandler drc)(address \<mapsto> SetTimeout timeout cliSrvFetched)\<rparr>)"

text \<open>
  The budget left after a redirected attempt: \<open>None\<close> when it is used up. The elapsed time is
  not negative, since the clock is monotonic.
\<close>

definition time_left :: "u32 \<Rightarrow> nat \<Rightarrow> u32 option" where
  "time_left timeout timeExperienced =
     (if timeExperienced < unat timeout * 1000000
      then Some (timeout - of_nat (timeExperienced div 1000000)) else None)"

text \<open>
  A request to an address goes through the handler of the address. It exists by then
  (\<open>preprocess_handler\<close> below); a missing one is a nil pointer.
\<close>

definition via_handler ::
  "bytes \<Rightarrow> ('c GrpcCliSrvClientImpl \<Rightarrow> (go_error + 'r) \<times> 'c GrpcCliSrvClientImpl) \<Rightarrow> 'c DLockRaftClientAPI \<Rightarrow>
   (go_error + 'r) \<times> 'c DLockRaftClientAPI" where
  "via_handler address send drc =
     (case CliSrvHandler drc address of
        None \<Rightarrow> (Inl (GoPanic NilDereference), drc)
      | Some gc \<Rightarrow> (case send gc of (r, gc') \<Rightarrow> (r, drc\<lparr>CliSrvHandler := (CliSrvHandler drc)(address \<mapsto> gc')\<rparr>)))"

subsection \<open>The key-value store\<close>

fun PutState ::
  "bytes \<Rightarrow> bytes \<Rightarrow> bytes option \<Rightarrow> u32 option \<Rightarrow> ('c, ClientPutStateKVRequest, ClientPutStateKVResponse) attempt list \<Rightarrow>
   'c DLockRaftClientAPI \<Rightarrow> (bool \<times> 'c DLockRaftClientAPI) option" where
  "PutState address key content timeoutOptional [] drc = None"
| "PutState address key content timeoutOptional (((g, service), timeExperienced) # rest) drc =
     (let timeout = default_timeout timeoutOptional;
          drc1 = preprocessConnections address (Some timeout) drc;
          request = \<lparr>putq_Key = key, putq_Content = content\<rparr>
      in case via_handler address (SendGrpcPutState g service request) drc1 of
           (Inl err, drc2) \<Rightarrow> Some (False, drc2)
         | (Inr response, drc2) \<Rightarrow>
             if put_Committed response then Some (True, drc2)
             else if put_CurrentLeader response \<noteq> []
             then (case time_left timeout timeExperienced of
                     None \<Rightarrow> Some (False, drc2)
                   | Some left \<Rightarrow> PutState (put_CurrentLeader response) key content (Some left) rest drc2)
             else Some (False, drc2))"

fun DelState ::
  "bytes \<Rightarrow> bytes \<Rightarrow> u32 option \<Rightarrow> ('c, bytes, ClientPutStateKVResponse) attempt list \<Rightarrow>
   'c DLockRaftClientAPI \<Rightarrow> (bool \<times> 'c DLockRaftClientAPI) option" where
  "DelState address key timeoutOptional [] drc = None"
| "DelState address key timeoutOptional (((g, service), timeExperienced) # rest) drc =
     (let timeout = default_timeout timeoutOptional;
          drc1 = preprocessConnections address (Some timeout) drc
      in case via_handler address (SendGrpcDelState g service key) drc1 of
           (Inl err, drc2) \<Rightarrow> Some (False, drc2)
         | (Inr response, drc2) \<Rightarrow>
             if put_Committed response then Some (True, drc2)
             else if put_CurrentLeader response \<noteq> []
             then (case time_left timeout timeExperienced of
                     None \<Rightarrow> Some (False, drc2)
                   | Some left \<Rightarrow> DelState (put_CurrentLeader response) key (Some left) rest drc2)
             else Some (False, drc2))"

fun GetState ::
  "bytes \<Rightarrow> bytes \<Rightarrow> u32 option \<Rightarrow> ('c, bytes, ClientGetStateKVResponse) network \<Rightarrow>
   'c DLockRaftClientAPI \<Rightarrow> bytes option \<times> 'c DLockRaftClientAPI" where
  "GetState address key timeoutOptional (g, service) drc =
     (let drc1 = preprocessConnections address (Some (default_timeout timeoutOptional)) drc
      in case via_handler address (SendGrpcGetState g service key) drc1 of
           (Inl err, drc2) \<Rightarrow> (None, drc2)
         | (Inr response, drc2) \<Rightarrow> (if get_Success response then Some (get_Value response) else None, drc2))"

subsection \<open>Acquiring a lock\<close>

datatype 'c client_event =
    QueryTick "('c, bytes, ClientQueryDLockResponse) network"
  | RefreshTick "('c, ClientAcquireDLockRequest, ClientAcquireDLockResponse) network"
  | ClientTimer

text \<open>The loop: \<open>Some nonce\<close> once the client queries for that nonce, \<open>None\<close> while it waits in the queue.\<close>

fun acquire_loop ::
  "bytes \<Rightarrow> ClientAcquireDLockRequest \<Rightarrow> u32 option \<Rightarrow> 'c client_event list \<Rightarrow> 'c DLockRaftClientAPI \<Rightarrow>
   (bool \<times> 'c DLockRaftClientAPI) option" where
  "acquire_loop address request recordedNonce [] drc = None"
| "acquire_loop address request recordedNonce (ClientTimer # events) drc = Some (False, drc)"
| "acquire_loop address request recordedNonce (QueryTick (g, service) # events) drc =
     (case recordedNonce of
        None \<Rightarrow> acquire_loop address request recordedNonce events drc
      | Some nonce \<Rightarrow>
          (case via_handler address (SendGrpcQueryDLock g service (acq_LockName request)) drc of
             (Inl err, drc1) \<Rightarrow> acquire_loop address request recordedNonce events drc1
           | (Inr responseQuery, drc1) \<Rightarrow>
               if nonce \<le> qdr_Nonce responseQuery then Some (True, drc1)
               else acquire_loop address request recordedNonce events drc1))"
| "acquire_loop address request recordedNonce (RefreshTick (g, service) # events) drc =
     (case recordedNonce of
        Some nonce \<Rightarrow> acquire_loop address request recordedNonce events drc
      | None \<Rightarrow>
          (case via_handler address (SendGrpcAcquireDLock g service request) drc of
             (Inl err, drc1) \<Rightarrow> Some (False, drc1)
           | (Inr response, drc1) \<Rightarrow>
               if acr_CurrentLeader response \<noteq> [] then Some (False, drc1)
               else if \<not> acr_Pending response then acquire_loop address request (Some (acr_Nonce response)) events drc1
               else acquire_loop address request recordedNonce events drc1))"

text \<open>The request of the first attempt; the expiry is given in milliseconds and sent in nanoseconds.\<close>

definition acquire_request :: "bytes \<Rightarrow> bytes \<Rightarrow> i64 \<Rightarrow> ClientAcquireDLockRequest" where
  "acquire_request lockName clientId expire =
     \<lparr>acq_LockName = lockName, acq_ClientID = clientId, acq_Expire = expire * 1000000, acq_Sequence = 0\<rparr>"

fun Client_AcquireDLock ::
  "bytes \<Rightarrow> bytes \<Rightarrow> i64 \<Rightarrow> u32 option \<Rightarrow> ('c, ClientAcquireDLockRequest, ClientAcquireDLockResponse) attempt list \<Rightarrow>
   'c client_event list \<Rightarrow> 'c DLockRaftClientAPI \<Rightarrow> (bool \<times> 'c DLockRaftClientAPI) option" where
  "Client_AcquireDLock address lockName expire timeoutOptional [] events drc =
     (if i64_less expire 0 then Some (False, drc) else None)"
| "Client_AcquireDLock address lockName expire timeoutOptional (((g, service), timeExperienced) # rest) events drc =
     (let timeout = default_timeout timeoutOptional;
          drc1 = preprocessConnections address (Some timeout) drc;
          request = acquire_request lockName (ClientId drc) expire
      in if i64_less expire 0 then Some (False, drc)
         else case via_handler address (SendGrpcAcquireDLock g service request) drc1 of
                (Inl err, drc2) \<Rightarrow> Some (False, drc2)
              | (Inr response, drc2) \<Rightarrow>
                  if acr_CurrentLeader response \<noteq> []
                  then (case time_left timeout timeExperienced of
                          None \<Rightarrow> Some (False, drc2)
                        | Some left \<Rightarrow>
                            Client_AcquireDLock (acr_CurrentLeader response) lockName expire (Some left) rest events drc2)
                  else if \<not> acr_Pending response \<or> acr_Sequence response = 0
                  then acquire_loop address request (Some (acr_Nonce response)) events drc2
                  else acquire_loop address (request\<lparr>acq_Sequence := acr_Sequence response\<rparr>) None events drc2)"

subsection \<open>Querying and releasing a lock\<close>

record DLockQueryInfo =
  qi_Owner :: bytes
  qi_Nonce :: u32
  qi_Timestamp :: i64
  qi_Expire :: i64
  qi_PendingNum :: int

fun Client_QueryDLock ::
  "bytes \<Rightarrow> bytes \<Rightarrow> u32 option \<Rightarrow> ('c, bytes, ClientQueryDLockResponse) network \<Rightarrow> 'c DLockRaftClientAPI \<Rightarrow>
   (DLockQueryInfo option \<times> bool) \<times> 'c DLockRaftClientAPI" where
  "Client_QueryDLock address lockName timeoutOptional (g, service) drc =
     (let drc1 = preprocessConnections address (Some (default_timeout timeoutOptional)) drc
      in case via_handler address (SendGrpcQueryDLock g service lockName) drc1 of
           (Inl err, drc2) \<Rightarrow> ((None, False), drc2)
         | (Inr response, drc2) \<Rightarrow>
             ((Some \<lparr>qi_Owner = qdr_Owner response, qi_Nonce = qdr_Nonce response, qi_Timestamp = qdr_Timestamp response,
                     qi_Expire = qdr_Expire response, qi_PendingNum = qdr_PendingNum response\<rparr>, True), drc2))"

text \<open>The release loop has no ticker for refreshing: such an event is no event of it.\<close>

fun release_loop ::
  "bytes \<Rightarrow> bytes \<Rightarrow> u32 \<Rightarrow> 'c client_event list \<Rightarrow> 'c DLockRaftClientAPI \<Rightarrow> (bool \<times> 'c DLockRaftClientAPI) option" where
  "release_loop address lockName recordedNonce [] drc = None"
| "release_loop address lockName recordedNonce (ClientTimer # events) drc = Some (False, drc)"
| "release_loop address lockName recordedNonce (RefreshTick network # events) drc =
     release_loop address lockName recordedNonce events drc"
| "release_loop address lockName recordedNonce (QueryTick (g, service) # events) drc =
     (case via_handler address (SendGrpcQueryDLock g service lockName) drc of
        (Inl err, drc1) \<Rightarrow> release_loop address lockName recordedNonce events drc1
      | (Inr responseQuery, drc1) \<Rightarrow>
          if recordedNonce \<le> qdr_Nonce responseQuery then Some (True, drc1)
          else release_loop address lockName recordedNonce events drc1)"

fun Client_ReleaseDLock ::
  "bytes \<Rightarrow> bytes \<Rightarrow> u32 option \<Rightarrow> ('c, ClientReleaseDLockRequest, ClientReleaseDLockResponse) attempt list \<Rightarrow>
   'c client_event list \<Rightarrow> 'c DLockRaftClientAPI \<Rightarrow> (bool \<times> 'c DLockRaftClientAPI) option" where
  "Client_ReleaseDLock address lockName timeoutOptional [] events drc = None"
| "Client_ReleaseDLock address lockName timeoutOptional (((g, service), timeExperienced) # rest) events drc =
     (let timeout = default_timeout timeoutOptional;
          drc1 = preprocessConnections address (Some timeout) drc;
          request = \<lparr>relq_LockName = lockName, relq_ClientID = ClientId drc\<rparr>
      in case via_handler address (SendGrpcReleaseDLock g service request) drc1 of
           (Inl err, drc2) \<Rightarrow> Some (False, drc2)
         | (Inr response, drc2) \<Rightarrow>
             if rel_CurrentLeader response \<noteq> []
             then (case time_left timeout timeExperienced of
                     None \<Rightarrow> Some (False, drc2)
                   | Some left \<Rightarrow> Client_ReleaseDLock (rel_CurrentLeader response) lockName (Some left) rest events drc2)
             else if rel_Released response
             then release_loop address lockName (rel_Nonce response) events drc2
             else Some (False, drc2))"

subsection \<open>The handlers\<close>

text \<open>A handler exists for the address, and it is the handler of that address.\<close>

definition handlers_ok :: "'c DLockRaftClientAPI \<Rightarrow> bool" where
  "handlers_ok drc \<longleftrightarrow> (\<forall>address gc. CliSrvHandler drc address = Some gc \<longrightarrow> cs_nodeAddress gc = address)"

lemma SendGrpc_address: "SendGrpc g service request gc = (r, gc') \<Longrightarrow> cs_nodeAddress gc' = cs_nodeAddress gc"
  by (auto simp: SendGrpc_def split: prod.splits)

lemma preprocess_handler: "CliSrvHandler (preprocessConnections address tmo drc) address \<noteq> None"
  by (auto simp: preprocessConnections_def Let_def split: option.split)

lemma preprocess_handlers_ok: "handlers_ok drc \<Longrightarrow> handlers_ok (preprocessConnections address tmo drc)"
  by (auto simp: handlers_ok_def preprocessConnections_def Let_def NewGrpcCliSrvClientImpl_def SetTimeout_def
      split: option.split)

lemma preprocess_client [simp]: "ClientId (preprocessConnections address tmo drc) = ClientId drc"
  by (simp add: preprocessConnections_def Let_def split: option.split)

lemma via_handler_keeps:
  assumes "via_handler address (SendGrpc g service request) drc = (r, drc')"
  shows "ClientId drc' = ClientId drc" "CliSrvHandler drc address \<noteq> None \<Longrightarrow> CliSrvHandler drc' address \<noteq> None"
    "handlers_ok drc \<Longrightarrow> handlers_ok drc'"
  using assms SendGrpc_address [of g service request]
  by (auto simp: via_handler_def handlers_ok_def split: option.splits prod.splits if_splits)

text \<open>An answer that is not an error came from the remote service, over a connection of the handler.\<close>

lemma via_handler_answer:
  assumes "via_handler address (SendGrpc g service request) drc = (Inr response, drc')"
  shows "\<exists>c timeout. service c timeout request = Inr response"
proof -
  obtain gc where gc: "CliSrvHandler drc address = Some gc"
    using assms by (auto simp: via_handler_def split: option.splits)
  obtain r c' where s: "conn_send g service (cs_nodeAddress gc) (cs_timeout gc) request (cs_conn gc) = (r, c')"
    by fastforce
  then have "r = Inr response" using assms gc by (auto simp: via_handler_def SendGrpc_def)
  with s obtain c where "Inr response = service c (cs_timeout gc) request" by (auto elim!: conn_send_calls)
  then show ?thesis by metis
qed

lemmas send_defs = SendGrpcPutState_def SendGrpcDelState_def SendGrpcGetState_def SendGrpcAcquireDLock_def
  SendGrpcQueryDLock_def SendGrpcReleaseDLock_def

subsection \<open>The time budget\<close>

lemma time_left_bound:
  assumes "time_left timeout elapsed = Some left"
  shows "unat left + elapsed div 1000000 = unat timeout" "left \<le> timeout"
proof -
  have lt: "elapsed div 1000000 < unat timeout"
    using assms by (auto simp: time_left_def less_mult_imp_div_less split: if_splits)
  have "elapsed div 1000000 < 2 ^ 32" using lt unsigned_less [of timeout, where ?'a = nat] by simp
  then have u: "unat (of_nat (elapsed div 1000000) :: u32) = elapsed div 1000000"
    by (simp add: unsigned_of_nat take_bit_nat_eq_self)
  then have le: "(of_nat (elapsed div 1000000) :: u32) \<le> timeout" using lt by (simp add: word_le_nat_alt)
  have eq: "left = timeout - of_nat (elapsed div 1000000)" using assms by (auto simp: time_left_def split: if_splits)
  show "unat left + elapsed div 1000000 = unat timeout" unfolding eq unat_sub [OF le] u using lt by simp
  then show "left \<le> timeout" by (simp add: word_le_nat_alt)
qed

text \<open>
  A call that is redirected on and on ends when its budget is used up: if every attempt takes a
  millisecond or more, the number of attempts is bounded by the budget.
\<close>

lemma budget_shrinks:
  assumes "time_left (default_timeout tmo) elapsed = Some left" "1000000 \<le> elapsed"
    "unat (default_timeout tmo) < Suc k"
  shows "unat (default_timeout (Some left)) < k"
proof -
  have "1 \<le> elapsed div 1000000" using assms(2) by (simp add: div_greater_zero_iff Suc_le_eq)
  with time_left_bound(1) [OF assms(1)] assms(3) show ?thesis by (simp add: default_timeout_def)
qed

text \<open>The elapsed time is counted in whole milliseconds: a faster attempt costs nothing.\<close>

lemma time_left_fast: "0 < timeout \<Longrightarrow> elapsed < 1000000 \<Longrightarrow> time_left timeout elapsed = Some timeout"
proof -
  assume t: "0 < timeout" "elapsed < 1000000"
  then have "1 \<le> unat timeout" by (simp add: word_less_nat_alt)
  then have "elapsed < unat timeout * 1000000" using t(2) by linarith
  then show ?thesis using t(2) by (simp add: time_left_def)
qed

lemma PutState_ends:
  assumes "unat (default_timeout tmo) < length attempts" "\<forall>(network, elapsed) \<in> set attempts. 1000000 \<le> elapsed"
  shows "PutState address key content tmo attempts drc \<noteq> None"
  using assms
proof (induction address key content tmo attempts drc rule: PutState.induct)
  case (2 address key content tmo g service elapsed rest drc)
  show ?case
    using 2(1) [OF refl refl refl] 2(2,3) budget_shrinks [of tmo elapsed _ "length rest"]
    by (auto simp: Let_def split: sum.split option.split prod.split)
qed simp

lemma DelState_ends:
  assumes "unat (default_timeout tmo) < length attempts" "\<forall>(network, elapsed) \<in> set attempts. 1000000 \<le> elapsed"
  shows "DelState address key tmo attempts drc \<noteq> None"
  using assms
proof (induction address key tmo attempts drc rule: DelState.induct)
  case (2 address key tmo g service elapsed rest drc)
  show ?case
    using 2(1) [OF refl refl] 2(2,3) budget_shrinks [of tmo elapsed _ "length rest"]
    by (auto simp: Let_def split: sum.split option.split prod.split)
qed simp

subsection \<open>What success means\<close>

lemma acquire_loop_true:
  assumes "acquire_loop address request recorded events drc = Some (True, drc')"
  shows "\<exists>g service c t response nonce. QueryTick (g, service) \<in> set events \<and>
    service c t (acq_LockName request) = Inr response \<and> nonce \<le> qdr_Nonce response \<and>
    (recorded = Some nonce \<or>
     recorded = None \<and> (\<exists>g' service' c' t' answer. RefreshTick (g', service') \<in> set events \<and>
       service' c' t' request = Inr answer \<and> acr_CurrentLeader answer = [] \<and> \<not> acr_Pending answer \<and> acr_Nonce answer = nonce))"
  using assms
proof (induction address request recorded events drc rule: acquire_loop.induct)
  case (3 address request recorded g service events drc)
  obtain r d where v: "via_handler address (SendGrpcQueryDLock g service (acq_LockName request)) drc = (r, d)" by fastforce
  show ?case
    using 3 v via_handler_answer [of address g service "acq_LockName request" drc _ d]
    by (cases recorded; cases r) (fastforce simp: send_defs split: if_splits)+
next
  case (4 address request recorded g service events drc)
  obtain r d where v: "via_handler address (SendGrpcAcquireDLock g service request) drc = (r, d)" by fastforce
  show ?case
    using 4 v via_handler_answer [of address g service request drc _ d]
    by (cases recorded; cases r) (fastforce simp: send_defs split: if_splits)+
qed simp_all

lemma loops_end:
  "ClientTimer \<in> set events \<Longrightarrow> acquire_loop address request recorded events drc \<noteq> None"
  "ClientTimer \<in> set events \<Longrightarrow> release_loop address lockName nonce events drc \<noteq> None"
proof -
  show "ClientTimer \<in> set events \<Longrightarrow> acquire_loop address request recorded events drc \<noteq> None"
    by (induction address request recorded events drc rule: acquire_loop.induct)
       (auto split: option.splits sum.splits prod.splits)
  show "ClientTimer \<in> set events \<Longrightarrow> release_loop address lockName nonce events drc \<noteq> None"
    by (induction address lockName nonce events drc rule: release_loop.induct)
       (auto split: sum.splits prod.splits)
qed

text \<open>A node that does not redirect the client answered the request.\<close>

definition answered ::
  "ClientAcquireDLockRequest \<Rightarrow> ('c, ClientAcquireDLockRequest, ClientAcquireDLockResponse) attempt list \<Rightarrow>
   ClientAcquireDLockResponse \<Rightarrow> bool" where
  "answered request attempts response \<longleftrightarrow> acr_CurrentLeader response = [] \<and>
     (\<exists>g service elapsed c t. ((g, service), elapsed) \<in> set attempts \<and> service c t request = Inr response)"

text \<open>
  The nonce the client goes by. An answer that is not pending, or has no sequence number, gives its own
  nonce; after an answer that is pending with a sequence number it is the nonce of a refresh with that
  number that was answered as not pending.
\<close>

definition told_nonce ::
  "ClientAcquireDLockRequest \<Rightarrow> ClientAcquireDLockResponse \<Rightarrow> 'c client_event list \<Rightarrow> u32 \<Rightarrow> bool" where
  "told_nonce request response events nonce \<longleftrightarrow>
     (if \<not> acr_Pending response \<or> acr_Sequence response = 0 then nonce = acr_Nonce response
      else \<exists>g refresh c t answer. RefreshTick (g, refresh) \<in> set events \<and>
        refresh c t (request\<lparr>acq_Sequence := acr_Sequence response\<rparr>) = Inr answer \<and> acr_CurrentLeader answer = [] \<and>
        \<not> acr_Pending answer \<and> acr_Nonce answer = nonce)"

text \<open>A query found the lock at that nonce or a later one.\<close>

definition confirmed :: "bytes \<Rightarrow> 'c client_event list \<Rightarrow> u32 \<Rightarrow> bool" where
  "confirmed lockName events nonce \<longleftrightarrow>
     (\<exists>g query c t q. QueryTick (g, query) \<in> set events \<and> query c t lockName = Inr q \<and> nonce \<le> qdr_Nonce q)"

lemma acquire_loop_confirmed:
  assumes "acquire_loop address request (Some nonce) events drc = Some (True, drc')"
  shows "confirmed (acq_LockName request) events nonce"
  using acquire_loop_true [OF assms] unfolding confirmed_def by blast

lemma acquire_loop_told:
  assumes "acquire_loop address (request\<lparr>acq_Sequence := acr_Sequence response\<rparr>) None events drc = Some (True, drc')"
    and "acr_Pending response" "acr_Sequence response \<noteq> 0"
  shows "\<exists>nonce. told_nonce request response events nonce \<and> confirmed (acq_LockName request) events nonce"
  using acquire_loop_true [OF assms(1)] assms(2,3) by (simp add: told_nonce_def confirmed_def) blast

lemma Client_AcquireDLock_true:
  assumes "Client_AcquireDLock address lockName expire tmo attempts events drc = Some (True, drc')"
  shows "\<exists>response nonce. answered (acquire_request lockName (ClientId drc) expire) attempts response \<and>
    told_nonce (acquire_request lockName (ClientId drc) expire) response events nonce \<and> confirmed lockName events nonce"
  using assms
proof (induction address lockName expire tmo attempts events drc rule: Client_AcquireDLock.induct)
  case (2 address lockName expire tmo g service elapsed rest events drc)
  let ?req = "acquire_request lockName (ClientId drc) expire"
    and ?drc1 = "preprocessConnections address (Some (default_timeout tmo)) drc"
  obtain r d where v: "via_handler address (SendGrpc g service ?req) ?drc1 = (r, d)" by fastforce
  have id: "ClientId d = ClientId drc" using via_handler_keeps(1) [OF v] by simp
  have ne: "\<not> i64_less expire 0" using 2(2) by (auto simp: Let_def split: if_splits)
  obtain response where resp: "r = Inr response" using 2(2) v ne by (cases r) (auto simp: Let_def send_defs)
  obtain c t where ans: "service c t ?req = Inr response" using via_handler_answer [OF v [unfolded resp]] by blast
  have name: "acq_LockName ?req = lockName" by (simp add: acquire_request_def)
  show ?case
  proof (cases "acr_CurrentLeader response = []")
    case True
    have a: "answered ?req (((g, service), elapsed) # rest) response" using ans True unfolding answered_def by (metis list.set_intros(1))
    show ?thesis
    proof (cases "\<not> acr_Pending response \<or> acr_Sequence response = 0")
      case q: True
      then have "acquire_loop address ?req (Some (acr_Nonce response)) events d = Some (True, drc')"
        using 2(2) v resp True ne by (auto simp: Let_def send_defs)
      from acquire_loop_confirmed [OF this] a name q show ?thesis by (metis told_nonce_def)
    next
      case q: False
      then have "acquire_loop address (?req\<lparr>acq_Sequence := acr_Sequence response\<rparr>) None events d = Some (True, drc')"
        using 2(2) v resp True ne by (auto simp: Let_def send_defs)
      from acquire_loop_told [OF this] q a name show ?thesis by metis
    qed
  next
    case False
    then obtain left where left: "time_left (default_timeout tmo) elapsed = Some left"
        "Client_AcquireDLock (acr_CurrentLeader response) lockName expire (Some left) rest events d = Some (True, drc')"
      using 2(2) v resp ne by (auto simp: Let_def send_defs split: option.splits)
    have "via_handler address (SendGrpcAcquireDLock g service ?req) ?drc1 = (Inr response, d)" using v resp by (simp add: send_defs)
    from 2(1) [OF refl refl refl ne this [symmetric] refl False left(1) left(2)]
    show ?thesis unfolding id answered_def by (metis list.set_intros(2))
  qed
qed (auto split: if_splits)

lemma Client_AcquireDLock_ends:
  assumes "unat (default_timeout tmo) < length attempts" "\<forall>(network, elapsed) \<in> set attempts. 1000000 \<le> elapsed"
    "ClientTimer \<in> set events"
  shows "Client_AcquireDLock address lockName expire tmo attempts events drc \<noteq> None"
  using assms
proof (induction address lockName expire tmo attempts events drc rule: Client_AcquireDLock.induct)
  case (2 address lockName expire tmo g service elapsed rest events drc)
  show ?case
    using 2(1) [OF refl refl refl] 2(2,3,4) budget_shrinks [of tmo elapsed _ "length rest"] loops_end(1) [OF 2(4)]
    by (auto simp: Let_def split: sum.split option.split prod.split)
qed simp

lemma Client_ReleaseDLock_ends:
  assumes "unat (default_timeout tmo) < length attempts" "\<forall>(network, elapsed) \<in> set attempts. 1000000 \<le> elapsed"
    "ClientTimer \<in> set events"
  shows "Client_ReleaseDLock address lockName tmo attempts events drc \<noteq> None"
  using assms
proof (induction address lockName tmo attempts events drc rule: Client_ReleaseDLock.induct)
  case (2 address lockName tmo g service elapsed rest events drc)
  show ?case
    using 2(1) [OF refl refl refl] 2(2,3,4) budget_shrinks [of tmo elapsed _ "length rest"] loops_end(2) [OF 2(4)]
    by (auto simp: Let_def split: sum.split option.split prod.split)
qed simp

end
