(* ===== verification/Lock_Runs.thy ===== *)
theory Lock_Runs
  imports Cli_Server
begin

section \<open>What a leader appends for the locks over time\<close>

text \<open>
  A leader as a state machine: its node and its interchange change by the lock operations, by the
  periodic scan, by appending key-value entries, by moving the commit index and by applying the
  committed entries, in any order. The invariant says that the part of the log appended since the
  leader started is fair: every entry for a lock has the next nonce, and an entry that gives a
  lock to a client comes when the lease of the entry before it has run out.
\<close>

subsection \<open>Fair logs\<close>

definition base_nonce :: "locks \<Rightarrow> bytes \<Rightarrow> u32" where
  "base_nonce L name = (case L name of None \<Rightarrow> 0 | Some ds \<Rightarrow> ds_LockNonce ds)"

definition fair_update :: "locks \<Rightarrow> LockInfo \<Rightarrow> bool" where
  "fair_update L li \<longleftrightarrow> li_LockNonce li = base_nonce L (li_LockName li) + 1 \<and>
     (case L (li_LockName li) of
        None \<Rightarrow> True
      | Some ds \<Rightarrow> li_NewOwner li \<noteq> [] \<longrightarrow> \<not> lease_runs (li_Timestamp li) ds)"

fun updated :: "LogEntry list \<Rightarrow> locks \<Rightarrow> locks" where
  "updated [] L = L"
| "updated (e # es) L =
     (case entry_LockInfo e of None \<Rightarrow> updated es L | Some li \<Rightarrow> updated es (lock_update li L))"

fun fair :: "LogEntry list \<Rightarrow> locks \<Rightarrow> bool" where
  "fair [] L \<longleftrightarrow> True"
| "fair (e # es) L \<longleftrightarrow>
     (case entry_LockInfo e of
        None \<Rightarrow> fair es L
      | Some li \<Rightarrow> fair_update L li \<and> fair es (lock_update li L))"

lemma updated_append [simp]: "updated (xs @ ys) L = updated ys (updated xs L)"
  by (induction xs arbitrary: L) (auto split: option.split)

lemma fair_append [simp]: "fair (xs @ ys) L \<longleftrightarrow> fair xs L \<and> fair ys (updated xs L)"
  by (induction xs arbitrary: L) (auto split: option.split)

lemma fair_accepts: "fair_update L li \<Longrightarrow> lock_accepts L li"
  by (auto simp: fair_update_def lock_accepts_def base_nonce_def split: option.splits)

lemma fair_replay: "fair es L \<Longrightarrow> lock_replay es L = Some (updated es L)"
  by (induction es arbitrary: L) (auto simp: fair_accepts split: option.splits)

lemma updates_of_append [simp]: "updates_of name (xs @ ys) = updates_of name xs + updates_of name ys"
  by (simp add: updates_of_def)

lemma updated_other: "updates_of name es = 0 \<Longrightarrow> updated es L name = L name"
  by (induction es arbitrary: L) (auto simp: lock_update_def split: option.splits if_splits)

lemma base_nonce_update:
  "fair_update L li \<Longrightarrow> base_nonce (lock_update li L) name =
     base_nonce L name + (if li_LockName li = name then 1 else 0)"
  by (auto simp: base_nonce_def lock_update_def fair_update_def state_of_info_def NewDlockState_def)

lemma fair_nonces: "fair es L \<Longrightarrow> base_nonce (updated es L) name = base_nonce L name + of_nat (updates_of name es)"
  by (induction es arbitrary: L) (auto simp: base_nonce_update split: option.splits)

text \<open>Two consecutive updates of a lock: the second one is no grant while the lease of the first one runs.\<close>

lemma updated_last:
  assumes "entry_LockInfo e = Some li" "updates_of (li_LockName li) ys = 0"
  shows "updated (xs @ e # ys) L (li_LockName li) = Some (state_of_info li)"
  using assms updated_other [OF assms(2)] by (simp add: lock_update_def)

lemma fair_exclusive:
  assumes "fair (xs @ e # ys @ e' # zs) L" "entry_LockInfo e = Some li" "entry_LockInfo e' = Some li'"
    and "li_LockName li' = li_LockName li" "updates_of (li_LockName li) ys = 0" "li_NewOwner li' \<noteq> []"
  shows "\<not> lease_runs (li_Timestamp li') (state_of_info li) \<and> li_LockNonce li' = li_LockNonce li + 1"
proof -
  have "xs @ e # ys @ e' # zs = (xs @ e # ys) @ e' # zs" by simp
  with assms(1) have "fair (e' # zs) (updated (xs @ e # ys) L)" by (metis fair_append)
  then have "fair_update (updated (xs @ e # ys) L) li'" using assms(3) by simp
  with updated_last [OF assms(2,5), of xs L] assms(4,6) show ?thesis
    by (auto simp: fair_update_def base_nonce_def state_of_info_def NewDlockState_def)
qed

subsection \<open>The log and the state map\<close>

lemma log_range_cong:
  assumes "\<And>k. i \<le> k \<Longrightarrow> k \<le> j \<Longrightarrow> logInMemory lm' k = logInMemory lm k"
  shows "log_range lm' i j = log_range lm i j"
proof -
  have "logInMemory lm' (of_nat k) = logInMemory lm (of_nat k)" if "k \<in> set [unat i..<Suc (unat j)]" for k
  proof (rule assms)
    have "k < 2 ^ 64" using that unsigned_less [of j, where ?'a = nat] by (simp del: upt_Suc)
    then have "unat (of_nat k :: u64) = k" by (simp add: unsigned_of_nat take_bit_nat_eq_self)
    then show "i \<le> of_nat k" "of_nat k \<le> j" using that by (simp_all add: word_le_nat_alt del: upt_Suc)
  qed
  then show ?thesis unfolding log_range_def by (intro map_cong refl) (metis (no_types))
qed

lemma log_range_put:
  assumes "maximumIndex lm \<noteq> - 1" "le_Index e = maximumIndex lm + 1" "i \<le> maximumIndex lm + 1"
  shows "log_range (put_entry lm e) i (maximumIndex lm + 1) = log_range lm i (maximumIndex lm) @ [e]"
proof -
  have lt: "maximumIndex lm < maximumIndex lm + 1" by (rule word_less_plus_1 [OF assms(1)])
  have "log_range (put_entry lm e) i (maximumIndex lm) = log_range lm i (maximumIndex lm)"
    using lt assms(2) by (intro log_range_cong) (auto simp: put_entry_def)
  moreover have "log_range (put_entry lm e) (maximumIndex lm + 1) (maximumIndex lm + 1) = [e]"
    using assms(2) by (simp add: log_range_last put_entry_def)
  ultimately show ?thesis using log_range_append [OF lt assms(3), of "put_entry lm e"] by simp
qed

lemma log_range_members:
  assumes "contiguous lm" "1 \<le> i" "j \<le> maximumIndex lm" "i \<le> k" "k \<le> j" "FetchLogEntry lm k = Inr e"
  shows "e \<in> set (log_range lm i j)"
proof -
  have "logInMemory lm k = Some e" using assms(6) by (auto simp: FetchLogEntry_def split: if_splits option.splits)
  then have "e = the (logInMemory lm (of_nat (unat k)))" by simp
  moreover have "unat k \<in> set [unat i..<Suc (unat j)]" using assms(4,5) by (simp add: word_le_nat_alt del: upt_Suc)
  ultimately show ?thesis unfolding log_range_def by (metis (no_types, lifting) image_eqI list.set_map)
qed

lemma apply_term:
  "UpdateStateFromLogEntry_DLock sm (Some e) = (r, sm') \<Longrightarrow> prevTerm sm \<le> t \<Longrightarrow> le_Term e \<le> t \<Longrightarrow> prevTerm sm' \<le> t"
  by (drule UpdateStateFromLogEntry_DLock_cases) auto

lemma update_loop_term:
  assumes "\<And>k e. i \<le> k \<Longrightarrow> k \<le> j \<Longrightarrow> FetchLogEntry lm k = Inr e \<Longrightarrow> le_Term e \<le> t" "i \<le> j" "prevTerm sm \<le> t"
  shows "prevTerm (snd (update_loop UpdateStateFromLogEntry_DLock tolerated_DLock lm i j sm)) \<le> t"
  using assms
proof (induction "unat j - unat i" arbitrary: i sm)
  case 0
  then have "\<not> i < j" by (simp add: word_le_nat_alt word_less_nat_alt)
  with 0(2-4) show ?case
    unfolding update_loop.simps [of _ _ lm i] by (auto intro: apply_term split: sum.split prod.split option.split)
next
  case (Suc n)
  then have lt: "i < j" by (simp add: word_less_nat_alt)
  then have n: "n = unat j - unat (i + 1)" using Suc(2) by (simp add: unat_Suc_no_wrap)
  have "prevTerm (snd (update_loop UpdateStateFromLogEntry_DLock tolerated_DLock lm (i + 1) j sm')) \<le> t" if "prevTerm sm' \<le> t" for sm'
    using Suc.hyps(1) [OF n _ _ that] Suc.prems(1) lt word_less_succ [OF lt] word_succ_le [OF lt]
    by (meson order.strict_implies_order order.trans)
  note step = this
  show ?case
  proof (cases "FetchLogEntry lm i")
    case (Inl err)
    then show ?thesis using Suc.prems(3) by (simp add: update_loop.simps [of _ _ lm i])
  next
    case (Inr e)
    obtain r sm' where ap: "UpdateStateFromLogEntry_DLock sm (Some e) = (r, sm')" by fastforce
    have "prevTerm sm' \<le> t" by (rule apply_term [OF ap Suc.prems(3)]) (use Suc.prems(1,2) Inr in blast)
    with step [OF this] Inr ap show ?thesis by (simp add: update_loop.simps [of _ _ lm i])
  qed
qed

subsection \<open>The invariant of a leader\<close>

text \<open>
  The leader started when everything up to index \<open>s\<close> was applied and the lock table was \<open>L0\<close>. Behind
  the applied index, every lock has at most one entry, and the interchange counts it.
\<close>

abbreviation applied :: "Node \<Rightarrow> u64" where
  "applied n \<equiv> LastAppliedIndex (NodeContextInstance n)"

abbreviation top_index :: "Node \<Rightarrow> u64" where
  "top_index n \<equiv> maximumIndex (LogEntryInMemory n)"

definition unapplied :: "Node \<Rightarrow> LogEntry list" where
  "unapplied n = log_range (LogEntryInMemory n) (applied n + 1) (top_index n)"

definition log_inv :: "u64 \<Rightarrow> locks \<Rightarrow> Node \<Rightarrow> bool" where
  "log_inv s L0 n \<longleftrightarrow>
     wf_Node n \<and> top_index n \<noteq> - 1 \<and> s \<le> applied n \<and> prevIndex (StateMapDLock n) = applied n \<and>
     prevTerm (StateMapDLock n) \<le> node_term n \<and> (\<forall>e \<in> set (unapplied n). le_Term e = node_term n) \<and>
     fair (log_range (LogEntryInMemory n) (s + 1) (top_index n)) L0 \<and>
     abs_locks (StateMapDLock n) = updated (log_range (LogEntryInMemory n) (s + 1) (applied n)) L0"

definition count_inv :: "Node \<Rightarrow> DlockInterchange \<Rightarrow> bytes \<Rightarrow> bool" where
  "count_inv n di name \<longleftrightarrow>
     updates_of name (unapplied n) \<le> 1 \<and>
     last_nonce di name = base_nonce (abs_locks (StateMapDLock n)) name + of_nat (updates_of name (unapplied n)) \<and>
     (updates_of name (unapplied n) = 1 \<longrightarrow> base_nonce (abs_locks (StateMapDLock n)) name \<noteq> - 1)"

definition queues_wf :: "DlockInterchange \<Rightarrow> bool" where
  "queues_wf di \<longleftrightarrow> (\<forall>name a. PendingAcquire di name = Some a \<longrightarrow> wf_Acquirement a \<and> va_LockName a = name)"

definition leader_inv :: "u64 \<Rightarrow> locks \<Rightarrow> Node \<Rightarrow> DlockInterchange \<Rightarrow> bool" where
  "leader_inv s L0 n di \<longleftrightarrow> log_inv s L0 n \<and> (\<forall>name. count_inv n di name) \<and> queues_wf di"

lemma log_range_split:
  assumes "i \<le> k + 1" "k \<le> m" "m \<noteq> - 1"
  shows "log_range lm i m = log_range lm i k @ log_range lm (k + 1) m"
proof (cases "k = m")
  case True
  then show ?thesis using log_range_empty [OF word_less_plus_1 [OF assms(3)]] by simp
next
  case False
  with assms show ?thesis by (intro log_range_append) simp_all
qed

lemma word_succ_mono:
  assumes "(x :: 'a::len word) \<le> y" "y \<noteq> - 1"
  shows "x + 1 \<le> y + 1"
proof -
  have "x \<noteq> - 1" using assms by (metis word_order.extremum_uniqueI)
  with assms show ?thesis by (simp add: word_le_nat_alt unat_plus_1)
qed

lemma log_inv_table:
  assumes "log_inv s L0 n"
  shows "updated (log_range (LogEntryInMemory n) (s + 1) (top_index n)) L0 = updated (unapplied n) (abs_locks (StateMapDLock n))"
    "fair (unapplied n) (abs_locks (StateMapDLock n))"
proof -
  have le: "applied n \<le> top_index n" "s \<le> applied n" "top_index n \<noteq> - 1"
    using assms wf_NodeD(4,5) [of n] by (auto simp: log_inv_def)
  have "applied n \<noteq> - 1" using le(1,3) by (metis word_order.extremum_uniqueI)
  with le(2) have "s + 1 \<le> applied n + 1" by (rule word_succ_mono)
  then have "log_range (LogEntryInMemory n) (s + 1) (top_index n) =
      log_range (LogEntryInMemory n) (s + 1) (applied n) @ unapplied n"
    unfolding unapplied_def using le by (intro log_range_split)
  then show "updated (log_range (LogEntryInMemory n) (s + 1) (top_index n)) L0 = updated (unapplied n) (abs_locks (StateMapDLock n))"
    "fair (unapplied n) (abs_locks (StateMapDLock n))"
    using assms by (auto simp: log_inv_def)
qed

lemma leader_wf_Interchange:
  assumes "leader_inv s L0 n di"
  shows "wf_Interchange n di"
  unfolding wf_Interchange_def
proof (intro allI impI conjI)
  fix name a ds assume a: "PendingAcquire di name = Some a"
  from assms a show "wf_Acquirement a" "va_LockName a = name" by (auto simp: leader_inv_def queues_wf_def)
  assume ds: "abs_locks (StateMapDLock n) name = Some ds"
  have c: "count_inv n di name" using assms by (simp add: leader_inv_def)
  then have "LastAppendedNonce a = ds_LockNonce ds + of_nat (updates_of name (unapplied n))"
    "updates_of name (unapplied n) = 0 \<or> updates_of name (unapplied n) = 1" "updates_of name (unapplied n) = 1 \<longrightarrow> ds_LockNonce ds \<noteq> - 1"
    using a ds by (auto simp: count_inv_def last_nonce_def base_nonce_def)
  then show "ds_LockNonce ds \<le> LastAppendedNonce a" using word_le_plus_1 [of "ds_LockNonce ds" "ds_LockNonce ds"] by auto
qed

subsection \<open>Applying committed entries\<close>

lemma unapplied_split:
  assumes "wf_Node n" "top_index n \<noteq> - 1" "applied n < node_commit n"
  shows "unapplied n = log_range (LogEntryInMemory n) (applied n + 1) (node_commit n) @ unapplied (commitProcedure n)"
proof -
  have le: "node_commit n \<le> top_index n" using wf_NodeD(5) [OF assms(1)] .
  then have "node_commit n \<noteq> - 1" using assms(2) by (metis word_order.extremum_uniqueI)
  with assms(3) have "applied n + 1 \<le> node_commit n + 1" by (intro word_succ_mono) simp_all
  from log_range_split [OF this le assms(2)] assms(3) show ?thesis by (simp add: unapplied_def)
qed

lemma apply_term_bound:
  assumes "contiguous lm" "1 \<le> i" "i \<le> j" "j \<le> maximumIndex lm" "prevTerm sm \<le> t"
    and "\<forall>e \<in> set (log_range lm i j). le_Term e \<le> t" "UpdateStateFromLogMemory_DLock sm lm i j = (r, sm')"
  shows "prevTerm sm' \<le> t"
proof -
  have "le_Term e \<le> t" if "i \<le> k" "k \<le> j" "FetchLogEntry lm k = Inr e" for k e
    using log_range_members [OF assms(1,2,4) that] assms(6) by blast
  from update_loop_term [OF this assms(3,5), of lm] assms(5,7) show ?thesis
    by (auto simp: UpdateStateFromLogMemory_DLock_def split: option.splits if_splits) (metis snd_conv)?
qed

lemma apply_table:
  assumes inv: "log_inv s L0 n" and lt: "applied n < node_commit n"
  defines "seg \<equiv> log_range (LogEntryInMemory n) (applied n + 1) (node_commit n)"
  shows "abs_locks (StateMapDLock (commitProcedure n)) = updated seg (abs_locks (StateMapDLock n))"
    "prevIndex (StateMapDLock (commitProcedure n)) = node_commit n"
    "prevTerm (StateMapDLock (commitProcedure n)) \<le> node_term n"
proof -
  let ?sm = "StateMapDLock n" and ?lm = "LogEntryInMemory n"
  have i: "wf_Node n" "top_index n \<noteq> - 1" "prevIndex ?sm = applied n" "prevTerm ?sm \<le> node_term n"
      "\<forall>e \<in> set (unapplied n). le_Term e = node_term n"
    using inv by (simp_all add: log_inv_def)
  note wf = wf_NodeD [OF i(1)]
  note split = unapplied_split [OF i(1,2) lt, folded seg_def]
  have terms: "\<forall>e \<in> set seg. le_Term e = node_term n" using i(5) unfolding split by simp
  then have "map le_Term seg = replicate (length seg) (node_term n)" by (simp add: map_replicate_const [symmetric] cong: map_cong)
  then have sorted: "sorted (prevTerm ?sm # map le_Term seg)" using i(4) terms by (auto simp: sorted_replicate)
  have "fair seg (abs_locks ?sm)" using log_inv_table(2) [OF inv] unfolding split by simp
  then have replay: "lock_replay seg (abs_locks ?sm) = Some (updated seg (abs_locks ?sm))" by (rule fair_replay)
  obtain sm' where sm': "UpdateStateFromLogMemory_DLock ?sm ?lm (applied n + 1) (node_commit n) = (None, sm')"
      "abs_locks sm' = updated seg (abs_locks ?sm)" "prevIndex sm' = node_commit n"
    using UpdateStateFromLogMemory_DLock_refines [OF wf(1,2) _ wf(5,3)] lt sorted replay i(3) by (auto simp: seg_def)
  have "1 \<le> applied n + 1" using word_less_succ [OF lt] by (metis not_less word_ge_1 word_zero_le)
  from apply_term_bound [OF wf(2) this word_succ_le [OF lt] wf(5) i(4) _ sm'(1)] terms
  have "prevTerm sm' \<le> node_term n" by (simp add: seg_def)
  with sm' lt show "abs_locks (StateMapDLock (commitProcedure n)) = updated seg (abs_locks ?sm)"
    "prevIndex (StateMapDLock (commitProcedure n)) = node_commit n"
    "prevTerm (StateMapDLock (commitProcedure n)) \<le> node_term n"
    by (simp_all add: commitProcedure_DLock)
qed

lemma apply_log_inv:
  assumes "log_inv s L0 n"
  shows "log_inv s L0 (commitProcedure n)"
proof (cases "applied n < node_commit n")
  case True
  let ?lm = "LogEntryInMemory n" and ?m = "commitProcedure n"
  have i: "wf_Node n" "top_index n \<noteq> - 1" "s \<le> applied n" "\<forall>e \<in> set (unapplied n). le_Term e = node_term n"
    using assms by (simp_all add: log_inv_def)
  note split = unapplied_split [OF i(1,2) True]
  have "node_commit n \<le> top_index n" using wf_NodeD(5) [OF i(1)] .
  have "applied n \<noteq> - 1" using True by (metis not_less word_order.extremum)
  then have "log_range ?lm (s + 1) (node_commit n) =
      log_range ?lm (s + 1) (applied n) @ log_range ?lm (applied n + 1) (node_commit n)"
    using True word_succ_mono [OF i(3)] by (intro log_range_append)
  then have "abs_locks (StateMapDLock ?m) = updated (log_range ?lm (s + 1) (node_commit n)) L0"
    using apply_table(1) [OF assms True] assms by (simp add: log_inv_def)
  then show ?thesis
    using assms True apply_table(2,3) [OF assms True] i(3,4) wf_commitProcedure [OF i(1)]
    unfolding log_inv_def split by (auto simp: less_imp_le)
next
  case False
  then show ?thesis using assms by (simp add: commitProcedure_def Let_def)
qed

lemma apply_count_inv:
  assumes "log_inv s L0 n" "count_inv n di name"
  shows "count_inv (commitProcedure n) di name"
proof (cases "applied n < node_commit n")
  case True
  let ?seg = "log_range (LogEntryInMemory n) (applied n + 1) (node_commit n)" and ?L = "abs_locks (StateMapDLock n)"
  have "wf_Node n" "top_index n \<noteq> - 1" using assms(1) by (simp_all add: log_inv_def)
  note split = unapplied_split [OF this True]
  have "fair ?seg ?L" using log_inv_table(2) [OF assms(1)] unfolding split by simp
  then have "base_nonce (abs_locks (StateMapDLock (commitProcedure n))) name = base_nonce ?L name + of_nat (updates_of name ?seg)"
    unfolding apply_table(1) [OF assms(1) True] by (rule fair_nonces)
  with assms(2) show ?thesis unfolding count_inv_def split by (auto simp: ac_simps)
next
  case False
  then show ?thesis using assms by (simp add: commitProcedure_def Let_def)
qed

lemma apply_inv: "leader_inv s L0 n di \<Longrightarrow> leader_inv s L0 (commitProcedure n) di"
  unfolding leader_inv_def using apply_log_inv apply_count_inv by blast

subsection \<open>Appending an entry\<close>

lemma append_log_inv:
  assumes inv: "log_inv s L0 n" and e: "wf_LogEntry e" "le_Index e = top_index n + 1" "le_Term e = node_term n"
    and room: "top_index n + 1 \<noteq> - 1"
    and ok: "\<And>li. entry_LockInfo e = Some li \<Longrightarrow> fair_update (updated (unapplied n) (abs_locks (StateMapDLock n))) li"
    and n': "LogEntryInMemory n' = put_entry (LogEntryInMemory n) e" "StateMapDLock n' = StateMapDLock n"
      "node_term n' = node_term n" "applied n' = applied n" "node_commit n' = node_commit n"
  shows "log_inv s L0 n'" "unapplied n' = unapplied n @ [e]"
proof -
  let ?lm = "LogEntryInMemory n"
  have i: "wf_Node n" "top_index n \<noteq> - 1" "s \<le> applied n" using inv by (simp_all add: log_inv_def)
  note wf = wf_NodeD [OF i(1)]
  have lt: "top_index n < top_index n + 1" by (rule word_less_plus_1 [OF i(2)])
  have top: "top_index n' = top_index n + 1" using lt by (simp add: n' e(2) max_def)
  have "applied n \<le> top_index n" using wf(4,5) by simp
  then have le: "applied n + 1 \<le> top_index n + 1" by (rule word_succ_mono [OF _ i(2)])
  have "s + 1 \<le> top_index n + 1" using i(3) \<open>applied n \<le> top_index n\<close> by (intro word_succ_mono [OF _ i(2)]) simp
  note range = log_range_put [OF i(2) e(2)]
  show un: "unapplied n' = unapplied n @ [e]" unfolding unapplied_def top unfolding n' by (rule range [OF le])
  have full: "log_range (LogEntryInMemory n') (s + 1) (top_index n') = log_range ?lm (s + 1) (top_index n) @ [e]"
    unfolding top unfolding n' by (rule range [OF \<open>s + 1 \<le> top_index n + 1\<close>])
  have "log_range (put_entry ?lm e) (s + 1) (applied n) = log_range ?lm (s + 1) (applied n)"
    using \<open>applied n \<le> top_index n\<close> lt e(2) by (intro log_range_cong) (auto simp: put_entry_def)
  moreover have "wf_Node n'"
    using i(1) wf wf_put_entry [OF wf(1) e(1)] contiguous_append [OF wf(1,2) e(1,2) lt] lt top
    by (auto simp: wf_Node_def n')
  moreover have "fair (log_range ?lm (s + 1) (top_index n) @ [e]) L0"
    using inv ok log_inv_table(1) [OF inv] by (auto simp: log_inv_def split: option.split)
  ultimately show "log_inv s L0 n'"
    using inv room e(3) unfolding log_inv_def un full unfolding top by (simp add: n')
qed

lemma grant_inv:
  assumes inv: "leader_inv s L0 n di" and room: "top_index n + 1 \<noteq> - 1"
    and e: "next_entry n e li" "li_LockName li = name" "li_LockNonce li = last_nonce di name + 1"
    and free: "updates_of name (unapplied n) = 0" "last_nonce di name \<noteq> - 1"
      "\<And>ds. abs_locks (StateMapDLock n) name = Some ds \<Longrightarrow> li_NewOwner li \<noteq> [] \<Longrightarrow> \<not> lease_runs (li_Timestamp li) ds"
    and di': "\<And>m. m \<noteq> name \<Longrightarrow> PendingAcquire di' m = PendingAcquire di m"
      "last_nonce di' name = last_nonce di name + 1" "wf_Interchange (node_with_entry n e) di'"
  shows "leader_inv s L0 (node_with_entry n e) di'"
proof -
  let ?L = "abs_locks (StateMapDLock n)" and ?n' = "node_with_entry n e"
  have log: "log_inv s L0 n" and count: "\<And>name. count_inv n di name" using inv by (simp_all add: leader_inv_def)
  have ne: "wf_LogEntry e" "le_Index e = top_index n + 1" "le_Term e = node_term n" "entry_LockInfo e = Some li"
    using e(1) by (simp_all add: next_entry_def)
  have base: "base_nonce ?L name = last_nonce di name" using count [of name] free(1) by (simp add: count_inv_def)
  have "updated (unapplied n) ?L name = ?L name" by (rule updated_other [OF free(1)])
  then have "fair_update (updated (unapplied n) ?L) li"
    using e(2,3) base free(3) by (auto simp: fair_update_def base_nonce_def split: option.split)
  then have app: "log_inv s L0 ?n'" "unapplied ?n' = unapplied n @ [e]"
    using append_log_inv [OF log ne(1-3) room, of ?n'] ne(4) by simp_all
  have "count_inv ?n' di' m" for m
  proof (cases "m = name")
    case True
    then show ?thesis using app(2) free(1,2) ne(4) e(2) di'(2) base by (simp add: count_inv_def)
  next
    case False
    then have "last_nonce di' m = last_nonce di m" using di'(1) by (simp add: last_nonce_def)
    then show ?thesis using count [of m] app(2) ne(4) e(2) False by (simp add: count_inv_def)
  qed
  with app(1) di'(3) show ?thesis by (auto simp: leader_inv_def queues_wf_def wf_Interchange_def)
qed

subsection \<open>The lock operations\<close>

text \<open>What the runs need of an operation beyond its outcome.\<close>

locale leased_operation = lock_operation +
  assumes waits_for_new_lock: "pre \<Longrightarrow> wf_Node n \<Longrightarrow> abs_locks (StateMapDLock (commitProcedure n)) name = None \<Longrightarrow>
      PendingAcquire di name \<noteq> None \<Longrightarrow> perform n di = (r, n', di') \<Longrightarrow> n' = commitProcedure n"
    and why_lease: "why li (Some ds) \<Longrightarrow> li_NewOwner li \<noteq> [] \<Longrightarrow> \<not> lease_runs (li_Timestamp li) ds"
begin

lemma perform_inv:
  assumes "pre" "leader_inv s L0 n di" "counters_ok di name" "top_index n + 1 \<noteq> - 1" "perform n di = (r, n', di')"
  shows "leader_inv s L0 n' di'"
proof -
  let ?m = "commitProcedure n"
  have m: "leader_inv s L0 ?m di" by (rule apply_inv [OF assms(2)])
  note wf = leader_wf_Interchange [OF m]
  have n: "wf_Node n" using assms(2) by (simp add: leader_inv_def log_inv_def)
  note out = perform_outcome [OF assms(1) n wf assms(3,5)]
  have count: "count_inv ?m di k" for k using m by (simp add: leader_inv_def)
  have frame: "\<And>k. k \<noteq> name \<Longrightarrow> PendingAcquire di' k = PendingAcquire di k" "wf_Interchange n' di'" using out by (simp_all add: outcome_def)
  from out consider (same) "n' = ?m" "last_nonce di' name = last_nonce di name"
    | (grant) e li where "n' = node_with_entry ?m e" "next_entry ?m e li" "li_LockName li = name"
        "li_LockNonce li = last_nonce di name + 1" "last_nonce di' name = last_nonce di name + 1"
        "\<forall>ds. abs_locks (StateMapDLock ?m) name = Some ds \<longrightarrow> li_LockNonce li = ds_LockNonce ds + 1"
        "why li (abs_locks (StateMapDLock ?m) name)"
    unfolding outcome_def by blast
  then show ?thesis
  proof cases
    case same
    then have "last_nonce di' k = last_nonce di k" for k using frame(1) [of k] by (cases "k = name") (simp_all add: last_nonce_def)
    then show ?thesis using m same(1) frame(2) by (auto simp: leader_inv_def count_inv_def queues_wf_def wf_Interchange_def)
  next
    case grant
    have other: "n' \<noteq> ?m"
      using grant(1,2) word_less_plus_1 [of "top_index n"] m
      by (metis commitProcedure_fields(1) leader_inv_def log_inv_def max.cobounded2 maximumIndex_put_entry next_entry_def
          node_with_entry_simps(1) not_le)
    have zero: "updates_of name (unapplied ?m) = 0"
    proof (cases "abs_locks (StateMapDLock ?m) name")
      case None
      then have "PendingAcquire di name = None" using waits_for_new_lock [OF assms(1) n None _ assms(5)] other by blast
      then show ?thesis using count [of name] None by (auto simp: count_inv_def last_nonce_def base_nonce_def le_Suc_eq)
    next
      case (Some ds)
      then show ?thesis using count [of name] grant(4,6) by (auto simp: count_inv_def base_nonce_def le_Suc_eq)
    qed
    have full: "last_nonce di name \<noteq> - 1" by (rule last_nonce_room [OF assms(3)])
    have lease: "\<not> lease_runs (li_Timestamp li) ds"
      if "abs_locks (StateMapDLock ?m) name = Some ds" "li_NewOwner li \<noteq> []" for ds
      using why_lease [of li ds] grant(7) that by simp
    have room: "top_index ?m + 1 \<noteq> - 1" using assms(4) by simp
    show ?thesis
      unfolding grant(1)
      by (rule grant_inv [OF m room grant(2-4) zero full lease frame(1) grant(5)]) (use frame(2) grant(1) in simp_all)
  qed
qed

text \<open>
  A lock with an entry in flight gets no other one, whether it has a committed state or this is its
  first entry.
\<close>

lemma nothing_second:
  assumes "pre" "wf_Node n" "wf_Interchange (commitProcedure n) di" "counters_ok di name"
    and "base_nonce (abs_locks (StateMapDLock (commitProcedure n))) name \<noteq> last_nonce di name"
  shows "fst (snd (perform n di)) = commitProcedure n"
proof -
  obtain r n' di' where p: "perform n di = (r, n', di')" by (metis prod_cases3)
  show ?thesis
  proof (cases "abs_locks (StateMapDLock (commitProcedure n)) name")
    case None
    with assms(5) have "PendingAcquire di name \<noteq> None" by (auto simp: base_nonce_def last_nonce_def split: option.splits)
    from waits_for_new_lock [OF assms(1,2) None this p] p show ?thesis by simp
  next
    case (Some ds)
    with one_uncommitted [OF assms(1-4) p Some] assms(5) p show ?thesis by (simp add: base_nonce_def)
  qed
qed

end

lemma AcquireDLock_waits:
  assumes "is_request name client command" "wf_Node n" "abs_locks (StateMapDLock (commitProcedure n)) name = None"
    and "PendingAcquire di name \<noteq> None" "AcquireDLock name ts command n di = (r, n', di')"
  shows "n' = commitProcedure n"
  using assms wf_NodeD(3) [OF wf_commitProcedure [OF assms(2)]]
  by (auto simp: AcquireDLock_def AcquireDLock_case1_def is_request_def QuerySpecificState_abs Let_def
      split: sum.splits prod.splits option.splits)

lemma Refresh_waits:
  assumes "wf_Node n" "abs_locks (StateMapDLock (commitProcedure n)) name = None"
    and "RefreshAcquirementBySequence name client sequence ts n di = (r, n', di')"
  shows "n' = commitProcedure n"
  using assms wf_NodeD(3) [OF wf_commitProcedure [OF assms(1)]]
  by (auto simp: RefreshAcquirementBySequence_def refreshSpecificDLock_def QuerySpecificState_abs Let_def
      split: sum.splits prod.splits option.splits)

lemma ReleaseDLock_waits:
  assumes "wf_Node n" "abs_locks (StateMapDLock (commitProcedure n)) name = None"
    and "ReleaseDLock name applicant ts n di = (r, n', di')"
  shows "n' = commitProcedure n"
  using assms wf_NodeD(3) [OF wf_commitProcedure [OF assms(1)]]
  by (auto simp: ReleaseDLock_def QuerySpecificState_abs Let_def split: option.splits if_splits)

interpretation acquire_run: leased_operation "AcquireDLock name ts command" name "why_served client ts"
  "is_request name client command" for name client ts command
  by unfold_locales (auto intro: AcquireDLock_waits simp: why_served_def)

interpretation refresh_run: leased_operation "RefreshAcquirementBySequence name client sequence ts" name
  "why_served client ts" True for name client sequence ts
  by unfold_locales (auto intro: Refresh_waits simp: why_served_def)

interpretation release_run: leased_operation "ReleaseDLock name applicant ts" name "why_released applicant ts" True
  for name applicant ts
  by unfold_locales (auto intro: ReleaseDLock_waits simp: why_released_def)

subsection \<open>The other steps of a leader\<close>

lemma kv_inv:
  assumes inv: "leader_inv s L0 n di" and e: "wf_LogEntry e" "le_Index e = top_index n + 1" "le_Term e = node_term n"
      "entry_LockInfo e = None"
    and room: "top_index n + 1 \<noteq> - 1"
    and n': "LogEntryInMemory n' = put_entry (LogEntryInMemory n) e" "StateMapDLock n' = StateMapDLock n"
      "node_term n' = node_term n" "applied n' = applied n" "node_commit n' = node_commit n"
  shows "leader_inv s L0 n' di"
proof -
  have log: "log_inv s L0 n" using inv by (simp add: leader_inv_def)
  have "log_inv s L0 n'" "unapplied n' = unapplied n @ [e]"
    using append_log_inv [OF log e(1-3) room _ n'] e(4) by simp_all
  then show ?thesis using inv e(4) n'(2) by (simp add: leader_inv_def count_inv_def)
qed

lemma PutStateKV_refused:
  assumes "\<not> (content \<noteq> None \<or> StateMap (StateMapKVStore n) key \<noteq> None)"
  shows "snd (PutStateKV_append key content response n) = Unlock n"
  using assms by (simp add: PutStateKV_append_def QuerySpecificState_KVStore_def)

lemma PutStateKV_inv:
  assumes "leader_inv s L0 n di" "valid_utf8 key" "content \<noteq> None \<or> StateMap (StateMapKVStore n) key \<noteq> None"
    and "top_index n + 1 \<noteq> - 1" "PutStateKV_append key content response n = (st, n')"
  shows "leader_inv s L0 n' di"
proof -
  obtain e where e: "NewLogEntry (node_term n) (top_index n + 1) (CommandKVStore (NewCommandKVStore key content)) = Inr e"
      "PutStateKV_append key content response n =
        (PutWait e, Unlock (upd_ctx TriggerAEChannel (n\<lparr>LogEntryInMemory := put_entry (LogEntryInMemory n) e\<rparr>)))"
    using PutStateKV_append_entry [OF assms(2,3)] by blast
  note form = NewLogEntry_KVStore [OF assms(2)]
  have "wf_command (CommandKVStore (NewCommandKVStore key content))" using assms(2) by simp
  then have wf: "wf_LogEntry e" by (rule NewLogEntry_wf [OF _ e(1)])
  have "entry_LockInfo e = None" using e(1) form by (auto simp: entry_LockInfo_def NewCommandFromRaw_def)
  then have ne: "wf_LogEntry e" "le_Index e = top_index n + 1" "le_Term e = node_term n" "entry_LockInfo e = None"
    using e(1) form wf by auto
  show ?thesis using kv_inv [OF assms(1) ne assms(4)] e(2) assms(5) by auto
qed

lemma ack_inv:
  assumes "leader_inv s L0 n di"
  shows "leader_inv s L0 (AppendEntries_success i nextIndexRecord entryLength n) di"
proof -
  let ?m = "AppendEntries_success i nextIndexRecord entryLength n"
  have wf: "wf_Node n" "top_index n \<noteq> - 1" using assms by (simp_all add: leader_inv_def log_inv_def)
  have f: "LogEntryInMemory ?m = LogEntryInMemory n" "StateMapDLock ?m = StateMapDLock n" "applied ?m = applied n" "node_term ?m = node_term n"
    by (simp_all add: AppendEntries_success_fields)
  have "wf_Node ?m" by (rule wf_AppendEntries_success(1) [OF wf])
  moreover have "unapplied ?m = unapplied n" by (simp add: unapplied_def f)
  ultimately have "log_inv s L0 ?m" "\<And>name. count_inv ?m di name = count_inv n di name"
    using assms by (simp_all add: leader_inv_def log_inv_def count_inv_def f)
  then show ?thesis using assms by (simp add: leader_inv_def)
qed

subsection \<open>The scan\<close>

lemma append_list_inv:
  assumes "log_inv s L0 n" "fair es (updated (unapplied n) (abs_locks (StateMapDLock n)))"
    and "\<forall>i < length es. wf_LogEntry (es ! i) \<and> le_Index (es ! i) = top_index n + of_nat i + 1 \<and> le_Term (es ! i) = node_term n"
    and "unat (top_index n) + length es + 1 < 2 ^ 64"
    and "LogEntryInMemory n' = foldl put_entry (LogEntryInMemory n) es" "StateMapDLock n' = StateMapDLock n"
      "node_term n' = node_term n" "applied n' = applied n" "node_commit n' = node_commit n"
  shows "log_inv s L0 n' \<and> unapplied n' = unapplied n @ es"
  using assms
proof (induction es arbitrary: n)
  case Nil
  then have "wf_Node n'" by (simp add: log_inv_def wf_Node_def)
  with Nil show ?case by (simp add: log_inv_def unapplied_def)
next
  case (Cons e es)
  let ?m = "n\<lparr>LogEntryInMemory := put_entry (LogEntryInMemory n) e\<rparr>"
  have e: "wf_LogEntry e" "le_Index e = top_index n + 1" "le_Term e = node_term n" using Cons.prems(3) by force+
  have top: "unat (top_index n + 1) = unat (top_index n) + 1"
    using of_nat_word_inj [of "top_index n" 1] Cons.prems(4) by simp
  moreover have "unat (- 1 :: u64) = 2 ^ 64 - 1" by (simp add: unsigned_minus_1_eq_mask mask_eq_exp_minus_1)
  ultimately have "unat (top_index n + 1) \<noteq> unat (- 1 :: u64)" using Cons.prems(4) by simp
  then have room: "top_index n + 1 \<noteq> - 1" by (metis (no_types))
  have max: "top_index ?m = top_index n + 1" using e(2) top by (simp add: max_def word_le_nat_alt)
  have m: "log_inv s L0 ?m" "unapplied ?m = unapplied n @ [e]"
    using append_log_inv [OF Cons.prems(1) e room, of ?m] Cons.prems(2) by (auto split: option.splits)
  have "log_inv s L0 n' \<and> unapplied n' = unapplied ?m @ es"
  proof (rule Cons.IH [OF m(1)])
    show "fair es (updated (unapplied ?m) (abs_locks (StateMapDLock ?m)))" using Cons.prems(2) m(2) by (auto split: option.splits)
    show "\<forall>i < length es. wf_LogEntry (es ! i) \<and> le_Index (es ! i) = top_index ?m + of_nat i + 1 \<and> le_Term (es ! i) = node_term ?m"
      unfolding max using Cons.prems(3) by (auto simp: ac_simps)
    show "unat (top_index ?m) + length es + 1 < 2 ^ 64" unfolding max top using Cons.prems(4) by simp
  qed (use Cons.prems(5-9) in simp_all)
  with m(2) show ?case by simp
qed


lemma release_fair:
  assumes "release_entries n ts k names es" "distinct names"
    and "\<forall>name \<in> set names. T name = abs_locks (StateMapDLock n) name \<and> abs_locks (StateMapDLock n) name \<noteq> None"
  shows "fair es T" "updates_of name es = (if name \<in> set names then 1 else 0)"
proof -
  show "fair es T"
    using assms
  proof (induction names arbitrary: k es T)
    case (Cons x names)
    then obtain e es' where es: "es = e # es'" "entry_LockInfo e = Some (release_info n ts x)" "release_entries n ts (Suc k) names es'"
      by (auto split: list.splits)
    have "fair es' (lock_update (release_info n ts x) T)"
      using Cons.prems(2,3) by (intro Cons.IH [OF es(3)]) (auto simp: lock_update_def release_info_def)
    moreover obtain ds where "T x = Some ds" "abs_locks (StateMapDLock n) x = Some ds" using Cons.prems(3) by auto
    ultimately show ?case using es(1,2) by (simp add: fair_update_def base_nonce_def release_info_def)
  qed simp
  show "updates_of name es = (if name \<in> set names then 1 else 0)"
    using assms(1,2)
    by (induction names arbitrary: k es) (auto simp: release_info_def split: list.splits)
qed

definition seen_inv :: "Node \<Rightarrow> DlockInterchange \<Rightarrow> bytes \<Rightarrow> bool" where
  "seen_inv n di name \<longleftrightarrow>
     updates_of name (unapplied n) \<le> 1 \<and>
     seen_nonce n di name = base_nonce (abs_locks (StateMapDLock n)) name + of_nat (updates_of name (unapplied n)) \<and>
     (updates_of name (unapplied n) = 1 \<longrightarrow> base_nonce (abs_locks (StateMapDLock n)) name \<noteq> - 1)"

lemma count_seen: 
  assumes "count_inv n di name"
  shows "seen_inv n di name"
proof (cases "PendingAcquire di name")
  case None
  have "updates_of name (unapplied n) = 0 \<or> updates_of name (unapplied n) = 1" using assms by (auto simp: count_inv_def)
  with assms None show ?thesis 
    by (auto simp: count_inv_def seen_inv_def seen_nonce_def last_nonce_def base_nonce_def eq_neg_iff_add_eq_0 split: option.splits)
next
  case (Some a)
  with assms show ?thesis by (simp add: count_inv_def seen_inv_def seen_nonce_def last_nonce_def)
qed

lemma release_only_applied:
  assumes "seen_inv n di name" "must_release n di ts name"
  shows "updates_of name (unapplied n) = 0"
proof -
  obtain ds where ds: "abs_locks (StateMapDLock n) name = Some ds" using assms(2) by (auto simp: must_release_def split: option.splits)
  have "seen_nonce n di name \<le> base_nonce (abs_locks (StateMapDLock n)) name"
    using assms(2) ds by (auto simp: must_release_def seen_nonce_def base_nonce_def split: option.splits)
  moreover have "updates_of name (unapplied n) = 0 \<or> updates_of name (unapplied n) = 1" using assms(1) by (auto simp: seen_inv_def)
  ultimately show ?thesis using assms(1) word_less_plus_1 [of "base_nonce (abs_locks (StateMapDLock n)) name"] by (auto simp: seen_inv_def)
qed

lemma scan_inv:
  assumes log: "log_inv s L0 n" and seen: "\<And>name. seen_inv n di name" and wf: "wf_Interchange n di"
    and order: "enumerates order n" and room: "unat (top_index n) + length order + 1 < 2 ^ 64"
      "\<forall>name ds. abs_locks (StateMapDLock n) name = Some ds \<longrightarrow> ds_LockNonce ds \<noteq> - 1"
    and r: "scanDLockStateMap order ts n di = (r, n', di')"
  shows "leader_inv s L0 n' di'"
proof -
  let ?L = "abs_locks (StateMapDLock n)" and ?names = "filter (must_release n di ts) order"
  have n: "wf_Node n" using log by (simp add: log_inv_def)
  note sm = wf_NodeD(3) [OF n]
  obtain es where n': "n' = (if length es \<noteq> 0 then upd_ctx TriggerAEChannel (n\<lparr>LogEntryInMemory := foldl put_entry (LogEntryInMemory n) es\<rparr>)
              else n\<lparr>LogEntryInMemory := foldl put_entry (LogEntryInMemory n) es\<rparr>)"
      and es: "release_entries n ts 0 ?names es"
    by (rule scan_phases [OF sm wf order, of ts]) (use r in auto)
  have dist: "distinct ?names" using order by (simp add: enumerates_def)
  have names: "name \<in> set ?names \<longleftrightarrow> must_release n di ts name" for name
    using order dom_abs_locks [OF sm] by (auto simp: enumerates_def must_release_def domIff split: option.splits)
  have same: "\<forall>name \<in> set ?names. updated (unapplied n) ?L name = ?L name \<and> ?L name \<noteq> None"
  proof
    fix name assume "name \<in> set ?names"
    then have m: "must_release n di ts name" by (simp add: names)
    have "updated (unapplied n) ?L name = ?L name" by (rule updated_other [OF release_only_applied [OF seen m]])
    with m show "updated (unapplied n) ?L name = ?L name \<and> ?L name \<noteq> None"
      by (auto simp: must_release_def split: option.splits)
  qed
  note fair = release_fair [OF es dist same]
  have "length es \<le> length order" using release_entries_nth(1) [OF es] by simp
  then have app: "log_inv s L0 n' \<and> unapplied n' = unapplied n @ es"
    using release_entries_nth(2) [OF es] room(1) by (intro append_list_inv [OF log fair(1)]) (auto simp: n')
  have "count_inv n' di' name" for name
  proof -
    have "last_nonce di' name = seen_nonce n di name + (if must_release n di ts name then 1 else 0)"
      by (rule scan_nonces [OF sm wf order r])
    moreover have "updates_of name (unapplied n') = updates_of name (unapplied n) + (if must_release n di ts name then 1 else 0)"
      using app fair(2) [of name] names [of name] by simp
    moreover have "StateMapDLock n' = StateMapDLock n" by (simp add: n')
    moreover have "base_nonce ?L name \<noteq> - 1" if "must_release n di ts name"
      using that room(2) by (auto simp: must_release_def base_nonce_def split: option.splits)
    ultimately show ?thesis using seen [of name] release_only_applied [OF seen, of ts name]
      by (cases "must_release n di ts name") (simp_all add: count_inv_def seen_inv_def)
  qed
  moreover have "wf_Interchange n' di'" using scanDLockStateMap_spec [OF n wf order _ room(2), of ts] room(1) r by auto
  ultimately show ?thesis using app by (auto simp: leader_inv_def queues_wf_def wf_Interchange_def)
qed

subsection \<open>Runs of a leader\<close>

lemma leader_inv_cong:
  assumes "LogEntryInMemory n' = LogEntryInMemory n" "StateMapDLock n' = StateMapDLock n" "node_term n' = node_term n"
    "applied n' = applied n" "node_commit n' = node_commit n"
  shows "leader_inv s L0 n' di \<longleftrightarrow> leader_inv s L0 n di"
  using assms by (simp add: leader_inv_def log_inv_def count_inv_def unapplied_def wf_Node_def)

lemma leader_inv_simps [simp]:
  "leader_inv s L0 (Lock n) di \<longleftrightarrow> leader_inv s L0 n di" "leader_inv s L0 (Unlock n) di \<longleftrightarrow> leader_inv s L0 n di"
  "leader_inv s L0 (n\<lparr>DlockInterchangeInstance := x\<rparr>) di \<longleftrightarrow> leader_inv s L0 n di"
  "leader_inv s L0 (upd_ctx (CommitChan_update (\<lambda>_. b)) n) di \<longleftrightarrow> leader_inv s L0 n di"
  by (rule leader_inv_cong; simp)+

definition leader_ok :: "u64 \<Rightarrow> locks \<Rightarrow> Node \<Rightarrow> bool" where
  "leader_ok s L0 n \<longleftrightarrow> (\<exists>di. DlockInterchangeInstance n = Some di \<and> leader_inv s L0 n di)"

text \<open>What a handler needs of the counters of a leader for a lock.\<close>

definition has_room :: "bytes \<Rightarrow> Node \<Rightarrow> bool" where
  "has_room name n \<longleftrightarrow> top_index n + 1 \<noteq> - 1 \<and>
     (case DlockInterchangeInstance n of None \<Rightarrow> False | Some di \<Rightarrow> counters_ok di name)"

inductive leader_step :: "Node \<Rightarrow> Node \<Rightarrow> bool" where
  acquire: "leader_step n n'"
    if "node_state n = Leader" "has_room (acq_LockName request) n"
      "valid_utf8 (acq_LockName request)" "valid_utf8 (acq_ClientID request)"
      "AcquireDLockService r ts request n = (reply, n')"
| release: "leader_step n n'"
    if "node_state n = Leader" "has_room name n" "ReleaseDLock_begin r ts name client n = (result, n')"
| release_tick: "leader_step n n'"
    if "has_room name n" "ReleaseDLock_tick ts name client n = (result, n')"
| put: "leader_step n n'"
    if "node_state n = Leader" "top_index n + 1 \<noteq> - 1" "valid_utf8 key" "PutStateKV_begin r key content n = (result, n')"
| scan: "leader_step n (n'\<lparr>DlockInterchangeInstance := Some di'\<rparr>)"
    if "DlockInterchangeInstance n = Some di" "enumerates order (commitProcedure n)"
      "unat (top_index n) + length order + 1 < 2 ^ 64"
      "\<forall>name ds. abs_locks (StateMapDLock (commitProcedure n)) name = Some ds \<longrightarrow> ds_LockNonce ds \<noteq> - 1"
      "ReleaseExpiredDLockPeriodically_tick order now (LeaderTerm di) n di = (go_on, n', di')"
| answer: "leader_step n (AppendEntries_response now i startCurrentTerm nextIndexRecord entryLength response n)"
    if "aer_Term response \<le> startCurrentTerm"
| commit: "leader_step n (CommitToStateMap_round n)"

inductive_cases leader_stepE: "leader_step n n'"

lemma with_interchange_inv:
  assumes "DlockInterchangeInstance n = Some di" "with_interchange f n = (r, n')"
    and "\<And>r m di'. f n di = (r, m, di') \<Longrightarrow> leader_inv s L0 m di'"
  shows "leader_ok s L0 n'"
  using assms by (auto simp: with_interchange_def leader_ok_def split: prod.splits)

lemma leader_ok_Unlock [simp]: "leader_ok s L0 (Unlock n) \<longleftrightarrow> leader_ok s L0 n"
  by (simp add: leader_ok_def)

lemma leader_okD:
  assumes "leader_ok s L0 n" "has_room name n"
  obtains di where "DlockInterchangeInstance n = Some di" "leader_inv s L0 (Lock n) di" "counters_ok di name"
    "top_index (Lock n) + 1 \<noteq> - 1"
  using assms by (auto simp: leader_ok_def has_room_def)

lemma acquire_service_inv:
  assumes "leader_ok s L0 n" "has_room (acq_LockName request) n" "node_state n = Leader"
    and "valid_utf8 (acq_LockName request)" "valid_utf8 (acq_ClientID request)"
    and "AcquireDLockService r ts request n = (reply, n')"
  shows "leader_ok s L0 n'"
proof -
  obtain di where di: "DlockInterchangeInstance (Lock n) = Some di" "leader_inv s L0 (Lock n) di" "counters_ok di (acq_LockName request)"
      "top_index (Lock n) + 1 \<noteq> - 1"
    using leader_okD [OF assms(1,2)] by auto
  let ?response = "\<lparr>acr_Pending = True, acr_Sequence = 0, acr_CurrentLeader = [], acr_Nonce = 0\<rparr>"
  have refresh: "leader_ok s L0 m"
    if "with_interchange (RefreshAcquirementBySequence (acq_LockName request) (acq_ClientID request) (acq_Sequence request) ts) (Lock n) = (x, m)" for x m
    by (rule with_interchange_inv [OF di(1) that]) (rule refresh_run.perform_inv [OF TrueI di(2-4)])
  have new: "leader_ok s L0 m"
    if "with_interchange (AcquireDLock (acq_LockName request) ts
          (NewCommandDLock 0 (acq_LockName request) (acq_ClientID request) ts (acq_Expire request))) (Lock n) = (x, m)" for x m
    by (rule with_interchange_inv [OF di(1) that]) (rule acquire_run.perform_inv [OF is_request_new [OF assms(4,5)] di(2-4)])
  have "leader_ok s L0 (snd (AcquireDLock_refresh ts request ?response (Lock n)))"
    using refresh by (simp add: AcquireDLock_refresh_def Let_def split: sum.split prod.split)
  moreover have "leader_ok s L0 (snd (AcquireDLock_new ts request ?response (Lock n)))"
    using new by (simp add: AcquireDLock_new_def Let_def split: sum.split prod.split)
  ultimately show ?thesis using assms(3,6)
    by (auto simp: AcquireDLockService_def Let_def split: if_splits prod.splits)
qed

lemma release_op_inv:
  assumes "leader_ok s L0 n" "has_room name n" "with_interchange (ReleaseDLock name client ts) (Lock n) = (r, n')"
  shows "leader_ok s L0 n'"
proof -
  obtain di where di: "DlockInterchangeInstance (Lock n) = Some di" "leader_inv s L0 (Lock n) di" "counters_ok di name"
      "top_index (Lock n) + 1 \<noteq> - 1"
    using leader_okD [OF assms(1,2)] by auto
  show ?thesis by (rule with_interchange_inv [OF di(1) assms(3)]) (rule release_run.perform_inv [OF TrueI di(2-4)])
qed

lemma release_service_inv:
  assumes "leader_ok s L0 n" "has_room name n"
  shows "node_state n = Leader \<Longrightarrow> ReleaseDLock_begin r ts name client n = (result, n') \<Longrightarrow> leader_ok s L0 n'"
    "ReleaseDLock_tick ts name client n = (result', n'') \<Longrightarrow> leader_ok s L0 n''"
  using release_op_inv [OF assms]
  by (auto simp: ReleaseDLock_begin_def ReleaseDLock_tick_def Let_def split: sum.splits prod.splits if_splits)

lemma put_service_inv:
  assumes "leader_ok s L0 n" "node_state n = Leader" "top_index n + 1 \<noteq> - 1" "valid_utf8 key" "PutStateKV_begin r key content n = (result, n')"
  shows "leader_ok s L0 n'"
proof -
  let ?response = "\<lparr>put_Committed = False, put_CurrentLeader = []\<rparr>"
  obtain di where di: "DlockInterchangeInstance n = Some di" "leader_inv s L0 n di" using assms(1) by (auto simp: leader_ok_def)
  have r: "PutStateKV_append key content ?response (Lock n) = (result, n')"
    using assms(2,5) by (simp add: PutStateKV_begin_def)
  show ?thesis
  proof (cases "content \<noteq> None \<or> StateMap (StateMapKVStore n) key \<noteq> None")
    case True
    have "leader_inv s L0 n' di" using PutStateKV_inv [OF _ assms(4) _ _ r] di(2) assms(3) True by simp
    moreover have "DlockInterchangeInstance n' = Some di"
      using PutStateKV_append_entry [OF assms(4), of content "Lock n" ?response] True r di(1) by fastforce
    ultimately show ?thesis by (auto simp: leader_ok_def)
  next
    case False
    then have "n' = Unlock (Lock n)" using PutStateKV_refused [of content "Lock n" key ?response] r by simp
    with di show ?thesis by (simp add: leader_ok_def)
  qed
qed

lemma answer_inv:
  assumes "leader_inv s L0 n di" "aer_Term response \<le> startCurrentTerm"
  shows "leader_inv s L0 (AppendEntries_response now i startCurrentTerm nextIndexRecord entryLength response n) di"
    "DlockInterchangeInstance (AppendEntries_response now i startCurrentTerm nextIndexRecord entryLength response n) = DlockInterchangeInstance n"
proof -
  have c: "leader_inv s L0 (AppendEntries_conflict i response n) di" "DlockInterchangeInstance (AppendEntries_conflict i response n) = DlockInterchangeInstance n"
    using assms(1) leader_inv_cong [of "AppendEntries_conflict i response n" n]
    by (simp_all add: AppendEntries_conflict_def Let_def upd_peer_def split: sum.split)
  have a: "DlockInterchangeInstance (AppendEntries_success i nextIndexRecord entryLength n) = DlockInterchangeInstance n"
    by (simp add: AppendEntries_success_def Let_def acknowledge_def upd_peer_def)
  show "leader_inv s L0 (AppendEntries_response now i startCurrentTerm nextIndexRecord entryLength response n) di"
    "DlockInterchangeInstance (AppendEntries_response now i startCurrentTerm nextIndexRecord entryLength response n) = DlockInterchangeInstance n"
    using assms c ack_inv [OF assms(1)] a by (auto simp: AppendEntries_response_def)
qed

lemma scan_tick_inv:
  assumes "leader_inv s L0 n di" "enumerates order (commitProcedure n)" "unat (top_index n) + length order + 1 < 2 ^ 64"
    and "\<forall>name ds. abs_locks (StateMapDLock (commitProcedure n)) name = Some ds \<longrightarrow> ds_LockNonce ds \<noteq> - 1"
    and "ReleaseExpiredDLockPeriodically_tick order now term n di = (go_on, n', di')"
  shows "leader_inv s L0 n' di'"
proof -
  have m: "leader_inv s L0 (commitProcedure n) di" by (rule apply_inv [OF assms(1)])
  then have "log_inv s L0 (commitProcedure n)" "seen_inv (commitProcedure n) di name" for name
    using count_seen by (simp_all add: leader_inv_def)
  from scan_inv [OF this leader_wf_Interchange [OF m] assms(2) _ assms(4)] assms(1,3,5) show ?thesis
    by (auto simp: ReleaseExpiredDLockPeriodically_tick_def split: if_splits prod.splits option.splits)
qed

lemma leader_step_ok:
  assumes "leader_step n n'" "leader_ok s L0 n"
  shows "leader_ok s L0 n'"
  using assms
proof cases
  case acquire
  with assms(2) show ?thesis using acquire_service_inv by blast
next
  case release
  with assms(2) show ?thesis using release_service_inv(1) by blast
next
  case release_tick
  with assms(2) show ?thesis using release_service_inv(2) by blast
next
  case put
  with assms(2) show ?thesis using put_service_inv by blast
next
  case (scan di order now go_on m di')
  with assms(2) have "leader_inv s L0 m di'" using scan_tick_inv [OF _ scan(3-6)] by (auto simp: leader_ok_def)
  with scan(1) show ?thesis by (auto simp: leader_ok_def)
next
  case answer
  with assms(2) show ?thesis using answer_inv by (auto simp: leader_ok_def)
next
  case commit
  with assms(2) show ?thesis using apply_inv by (auto simp: leader_ok_def CommitToStateMap_round_def)
qed


text \<open>
  A leader that starts with nothing but committed entries in its log, and whose lock table takes them
  all, starts in the invariant: the table it starts from is that of its whole log.
\<close>

definition starts_clean :: "bytes list \<Rightarrow> Node \<Rightarrow> bool" where
  "starts_clean order n \<longleftrightarrow>
     wf_Node n \<and> node_commit n = top_index n \<and>
     prevIndex (StateMapDLock (commitProcedure n)) = top_index n \<and>
     prevTerm (StateMapDLock (commitProcedure n)) \<le> node_term n \<and>
     enumerates order (commitProcedure n) \<and> unat (top_index n) + length order + 1 < 2 ^ 64 \<and>
     (\<forall>name ds. abs_locks (StateMapDLock (commitProcedure n)) name = Some ds \<longrightarrow> ds_LockNonce ds \<noteq> - 1)"

lemma BecomeLeader_ok:
  assumes "starts_clean order n"
  shows "leader_ok (top_index n) (abs_locks (StateMapDLock (commitProcedure n))) (BecomeLeader order now n)"
proof -
  define m where "m = commitProcedure (upd_ctx (\<lambda>nc. nc\<lparr>NodeState := Leader\<rparr>) n)"
  let ?di = "NewDlockInterchange (upd_ctx (\<lambda>nc. nc\<lparr>NodeState := Leader\<rparr>) n)" and ?L = "abs_locks (StateMapDLock (commitProcedure n))"
  have a: "wf_Node n" "node_commit n = top_index n" "prevIndex (StateMapDLock (commitProcedure n)) = top_index n"
      "prevTerm (StateMapDLock (commitProcedure n)) \<le> node_term n"
      "enumerates order (commitProcedure n)" "unat (top_index n) + length order + 1 < 2 ^ 64"
      "\<forall>name ds. abs_locks (StateMapDLock (commitProcedure n)) name = Some ds \<longrightarrow> ds_LockNonce ds \<noteq> - 1"
    using assms by (simp_all add: starts_clean_def)
  have top: "top_index n \<noteq> - 1" using a(6) by (auto simp: unsigned_minus_1_eq_mask mask_eq_exp_minus_1)
  have c: "StateMapDLock m = StateMapDLock (commitProcedure n)" by (simp add: m_def commitProcedure_DLock)
  have f: "LogEntryInMemory m = LogEntryInMemory n" "node_term m = node_term n" by (simp_all add: m_def)
  have app: "applied m = top_index n" using wf_NodeD(4) [OF a(1)] a(2) by (simp add: m_def)
  have wf: "wf_Node m" unfolding m_def by (intro wf_intros a(1)) simp_all
  have un: "unapplied m = []" using log_range_empty [OF word_less_plus_1 [OF top]] by (simp add: unapplied_def f app)
  have log: "log_inv (top_index n) ?L m"
    using a(3,4) wf top un log_range_empty [OF word_less_plus_1 [OF top]] by (simp add: log_inv_def f app c)
  have seen: "seen_inv m ?di name" for name
    by (simp add: seen_inv_def un updates_of_def seen_nonce_def NewDlockInterchange_def base_nonce_def)
  have di: "wf_Interchange m ?di" by (simp add: wf_Interchange_def NewDlockInterchange_def)
  have order: "enumerates order m" using a(5) by (simp add: enumerates_def c)
  obtain r n' di' where s: "scanDLockStateMap order now m ?di = (r, n', di')" by (metis prod_cases3)
  have "leader_inv (top_index n) ?L n' di'" by (rule scan_inv [OF log seen di order _ _ s]) (use a(6,7) f(1) c in simp_all)
  moreover have "BecomeLeader order now n = go HeartBeat ((go (ReleaseExpiredDLockPeriodically (LeaderTerm di')) (n'\<lparr>DlockInterchangeInstance := Some di'\<rparr>))
      \<lparr>PeerList := map (\<lambda>p. p\<lparr>NextIndex := maximumIndex (LogEntryInMemory n') + 1\<rparr>) (PeerList n')\<rparr>)"
    using s by (simp add: BecomeLeader_def Let_def InitFromDLockStateMap_def MaximumIndex_def m_def)
  ultimately show ?thesis using leader_inv_cong [of "BecomeLeader order now n" n'] by (simp add: leader_ok_def)
qed

lemma leader_run_ok: "leader_step\<^sup>*\<^sup>* n n' \<Longrightarrow> leader_ok s L0 n \<Longrightarrow> leader_ok s L0 n'"
  by (induction rule: rtranclp_induct) (auto intro: leader_step_ok)

text \<open>A log that is fair is accepted entry by entry, each with the next nonce, and no lease is cut short.\<close>

lemma leader_ok_entry:
  assumes "leader_ok s L0 n" "s < j" "j \<le> top_index n" "logInMemory (LogEntryInMemory n) j = Some e" "entry_LockInfo e = Some li"
  shows "\<exists>L. lock_replay (log_range (LogEntryInMemory n) (s + 1) (j - 1)) L0 = Some L \<and> fair_update L li"
proof -
  let ?lm = "LogEntryInMemory n"
  have f: "fair (log_range ?lm (s + 1) (top_index n)) L0" and top: "top_index n \<noteq> - 1"
    using assms(1) by (auto simp: leader_ok_def leader_inv_def log_inv_def)
  define k where "k = j - 1"
  have j: "j = k + 1" by (simp add: k_def)
  have "k \<noteq> - 1" using assms(2) by (auto simp: j)
  have "s \<le> k" using assms(2) inc_le [of k s] unfolding j by (meson not_le)
  have "k < j" using word_less_plus_1 [OF \<open>k \<noteq> - 1\<close>] by (simp add: j)
  have "j \<noteq> - 1" using assms(3) top by (metis word_order.extremum_uniqueI)
  have "log_range ?lm (s + 1) (top_index n) = log_range ?lm (s + 1) k @ log_range ?lm j (top_index n)"
    unfolding j using word_succ_mono [OF \<open>s \<le> k\<close> \<open>k \<noteq> - 1\<close>] \<open>k < j\<close> assms(3) top by (intro log_range_split) simp_all
  moreover have "log_range ?lm j (top_index n) = log_range ?lm j j @ log_range ?lm (j + 1) (top_index n)"
    using word_less_plus_1 [OF \<open>j \<noteq> - 1\<close>] assms(3) top by (intro log_range_split) simp_all
  ultimately have "log_range ?lm (s + 1) (top_index n) = log_range ?lm (s + 1) k @ e # log_range ?lm (j + 1) (top_index n)"
    using assms(4) by (simp add: log_range_last)
  then have "fair (log_range ?lm (s + 1) k) L0" "fair_update (updated (log_range ?lm (s + 1) k) L0) li"
    using f assms(5) by simp_all
  then show ?thesis unfolding k_def using fair_replay by blast
qed

end
