(* ===== verification/Scenario.thy ===== *)
theory Scenario
  imports Client_API Lock_Runs
begin

section \<open>A small cluster\<close>

text \<open>
  Three nodes, one lock, two committed updates of it: concrete values at which the hypotheses of
  the theorems hold. A node is given by its role, term and vote; its log has two entries, the
  first of them applied.
\<close>

definition ex_lock :: bytes where "ex_lock = ''lock''"
definition ex_alice :: bytes where "ex_alice = ''alice''"
definition ex_bob :: bytes where "ex_bob = ''bob''"

lemma ex_utf8 [simp]: "valid_utf8 ex_lock" "valid_utf8 ex_alice" "valid_utf8 ex_bob"
  by (simp_all add: ex_lock_def ex_alice_def ex_bob_def valid_utf8_Cons_ascii)

lemma ex_names [simp]:
  "ex_lock \<noteq> []" "ex_alice \<noteq> []" "ex_bob \<noteq> []" "ex_alice \<noteq> ex_bob" "ex_bob \<noteq> ex_alice"
  by (simp_all add: ex_lock_def ex_alice_def ex_bob_def)

definition ex_info :: "u32 \<Rightarrow> bytes \<Rightarrow> i64 \<Rightarrow> i64 \<Rightarrow> LockInfo" where
  "ex_info nonce owner ts ex =
     \<lparr>li_LockNonce = nonce, li_LockName = ex_lock, li_NewOwner = owner, li_Timestamp = ts, li_Expire = ex\<rparr>"

lemma valid_ex_info [simp]: "valid_utf8 owner \<Longrightarrow> valid_LockInfo (ex_info nonce owner ts ex)"
  by (simp add: ex_info_def valid_LockInfo_def)

definition ex_entry :: "u64 \<Rightarrow> u64 \<Rightarrow> LockInfo \<Rightarrow> LogEntry" where
  "ex_entry t i li =
     \<lparr>le_Entry = \<lparr>e_Term = t, e_Index = i, e_CommandName = ''DLock'', e_CommandContent = marshal_LockInfo li\<rparr>,
      le_fastIndex = ''DLock:'' @ li_LockName li\<rparr>"

lemma ex_entry_simps [simp]: "le_Term (ex_entry t i li) = t" "le_Index (ex_entry t i li) = i"
  by (simp_all add: ex_entry_def)

lemma ex_entry_facts [simp]:
  assumes "valid_LockInfo li"
  shows "wf_LogEntry (ex_entry t i li)" "entry_LockInfo (ex_entry t i li) = Some li"
  using lock_codec.unmarshal_marshal [OF assms]
  by (simp_all add: wf_LogEntry_def NewLogEntryList_def ex_entry_def NewCommandFromRaw_def GetFastIndex_def
      GetFastIndex_DLock_def GetAsDLockInfo_def SetCommandContent_def SetCommandName_def entry_LockInfo_def)

definition ex_info1 :: LockInfo where "ex_info1 = ex_info 1 ex_alice 100 50"
definition ex_info2 :: LockInfo where "ex_info2 = ex_info 2 ex_bob 200 50"

definition ex_log1 :: LogMemory where
  "ex_log1 = put_entry NewLogMemory (ex_entry 1 1 ex_info1)"

definition ex_log :: LogMemory where
  "ex_log = put_entry ex_log1 (ex_entry 2 2 ex_info2)"

lemma ex_infos [simp]: "valid_LockInfo ex_info1" "valid_LockInfo ex_info2"
  by (simp_all add: ex_info1_def ex_info2_def)

lemma ex_log_fields [simp]:
  "maximumIndex ex_log1 = 1" "logInMemory ex_log1 = [1 \<mapsto> ex_entry 1 1 ex_info1]"
  "maximumIndex ex_log = 2" "logInMemory ex_log = [1 \<mapsto> ex_entry 1 1 ex_info1, 2 \<mapsto> ex_entry 2 2 ex_info2]"
  by (simp_all add: ex_log_def ex_log1_def put_entry_def NewLogMemory_def)

lemma ex_log_wf [simp]: "wf_LogMemory ex_log1" "contiguous ex_log1" "wf_LogMemory ex_log" "contiguous ex_log"
proof -
  have l1: "wf_LogMemory ex_log1" "contiguous ex_log1"
    unfolding ex_log1_def
    by (intro wf_put_entry contiguous_append wf_NewLogMemory; simp add: NewLogMemory_def)+
  moreover have "wf_LogMemory ex_log" "contiguous ex_log"
    unfolding ex_log_def using l1 by (auto intro!: wf_put_entry contiguous_append)
  ultimately show "wf_LogMemory ex_log1" "contiguous ex_log1" "wf_LogMemory ex_log" "contiguous ex_log" .
qed

definition ex_locks :: StateMapMemory where
  "ex_locks = \<lparr>keyword = ''DLock'', StateMap = [ex_lock \<mapsto> marshal_DlockState (state_of_info ex_info1)],
     prevIndex = 1, prevTerm = 1\<rparr>"

definition ex_kv :: StateMapMemory where
  "ex_kv = \<lparr>keyword = ''KVStore'', StateMap = Map.empty, prevIndex = 1, prevTerm = 1\<rparr>"

lemma ex_locks_abs [simp]: "abs_locks ex_locks = [ex_lock \<mapsto> state_of_info ex_info1]"
proof
  fix name
  show "abs_locks ex_locks name = [ex_lock \<mapsto> state_of_info ex_info1] name"
    by (simp add: abs_locks_def ex_locks_def unmarshal_state_of_info)
qed

lemma ex_locks_wf [simp]: "wf_LockMap ex_locks"
  using unmarshal_state_of_info [OF ex_infos(1)]
  by (simp add: wf_LockMap_def ex_locks_def state_of_info_def NewDlockState_def ex_info1_def ex_info_def)

lemma ex_locks_position [simp]: "prevIndex ex_locks = 1" "prevTerm ex_locks = 1" "prevIndex ex_kv = 1"
  by (simp_all add: ex_locks_def ex_kv_def)

definition ex_params :: Parameters where
  "ex_params = \<lparr>HeartBeatInterval = 50, AppendEntriesTimeout = 150, MinWaitTimeCandidate = 150,
     MaxWaitTimeCandidate = 300, MaxLogUnitsRecover = 200, LogBackupInterval = 1000, PollingInterval = 20,
     StateChangeTimeout = 2000, AcquirementExpire = 500\<rparr>"

definition ex_config :: "u32 \<Rightarrow> u32 list \<Rightarrow> NodeConfig" where
  "ex_config self peers = \<lparr>SelfId = self, PeerIdSlice = Some peers, SelfAddress = ''a'', SelfCliAddress = ''b'',
     PeerAddressSlice = Some (map (\<lambda>_. ''c'') peers), PeerCliAddressSlice = Some (map (\<lambda>_. ''d'') peers),
     Params = ex_params, LogPath = ''var/'', LogLevelString = ''Info'', EntryStoragePath = ''db''\<rparr>"

definition ex_peers :: "u32 list \<Rightarrow> PeerNode list" where
  "ex_peers = map (\<lambda>i. NewPeerNode i ''c'' 2 1)"

definition ex_node :: "u32 \<Rightarrow> u32 list \<Rightarrow> NodeStateTag \<Rightarrow> u64 \<Rightarrow> u32 \<Rightarrow> Node" where
  "ex_node self peers st t vote =
     \<lparr>NodeConfigInstance = ex_config self peers,
      NodeContextInstance = NewNodeContext t 1 1 0 st 0 False False False vote 0
                              (Some \<lparr>f_bytes = [], f_room = None\<rparr>),
      StateMapKVStore = ex_kv, StateMapDLock = ex_locks, LogEntryInMemory = ex_log, PeerList = ex_peers peers,
      DlockInterchangeInstance = None, mutex = False, goroutines = []\<rparr>"

lemma ex_node_simps [simp]:
  "NodeConfigInstance (ex_node self peers st t vote) = ex_config self peers"
  "node_term (ex_node self peers st t vote) = t" "node_state (ex_node self peers st t vote) = st"
  "node_commit (ex_node self peers st t vote) = 1"
  "LastAppliedIndex (NodeContextInstance (ex_node self peers st t vote)) = 1"
  "LastBackupIndex (NodeContextInstance (ex_node self peers st t vote)) = 0"
  "VotedPeer (NodeContextInstance (ex_node self peers st t vote)) = vote"
  "LogEntryInMemory (ex_node self peers st t vote) = ex_log"
  "StateMapDLock (ex_node self peers st t vote) = ex_locks"
  "StateMapKVStore (ex_node self peers st t vote) = ex_kv"
  "PeerList (ex_node self peers st t vote) = ex_peers peers"
  "SelfId (ex_config self peers) = self" "PeerId (ex_config self peers) = peers"
  "Params (ex_config self peers) = ex_params"
  by (simp_all add: ex_node_def ex_config_def NewNodeContext_def slice_def)

lemma ex_node_wf [simp]: "wf_Node (ex_node self peers st t vote)"
  by (simp add: wf_Node_def)

lemma ex_node_commit [simp]: "commitProcedure (ex_node self peers st t vote) = ex_node self peers st t vote"
  by (simp add: commitProcedure_def)

lemma ex_node_peers [simp]: "distinct (self # peers) \<Longrightarrow> wf_Peers (ex_node self peers st t vote)"
  by (simp add: wf_Peers_def ex_peers_def NewPeerNode_def comp_def)

text \<open>The interchange of a leader after the first update, with nobody waiting.\<close>

definition ex_interchange :: DlockInterchange where
  "ex_interchange = \<lparr>LeaderTerm = 2, PendingAcquire = [ex_lock \<mapsto> NewDlockVolatileAcquirement ex_lock 1]\<rparr>"

text \<open>The same with an entry of nonce 2 that is not committed yet.\<close>

definition ex_waiting :: DlockInterchange where
  "ex_waiting = \<lparr>LeaderTerm = 2, PendingAcquire = [ex_lock \<mapsto> NewDlockVolatileAcquirement ex_lock 2]\<rparr>"

lemma ex_acquirement [simp]:
  "va_LockName (NewDlockVolatileAcquirement name k) = name"
  "LastAppendedNonce (NewDlockVolatileAcquirement name k) = k"
  "lastAssignedAcquirement (NewDlockVolatileAcquirement name k) = 0"
  by (simp_all add: NewDlockVolatileAcquirement_def)

lemma ex_interchange_wf [simp]:
  "wf_Interchange (ex_node self peers st t vote) ex_interchange" "counters_ok ex_interchange ex_lock"
  "last_nonce ex_interchange ex_lock = 1"
  "wf_Interchange (ex_node self peers st t vote) ex_waiting" "counters_ok ex_waiting ex_lock"
  "last_nonce ex_waiting ex_lock = 2"
  by (auto simp: wf_Interchange_def ex_interchange_def ex_waiting_def wf_Acquirement_new counters_ok_def last_nonce_def
      state_of_info_def NewDlockState_def ex_info1_def ex_info_def)

text \<open>A second client asks for the lock after the first lease has run out.\<close>

definition ex_command :: Command where "ex_command = NewCommandDLock 0 ex_lock ex_bob 0 50"

lemma ex_state1: "state_of_info ex_info1 = \<lparr>ds_Owner = ex_alice, ds_LockNonce = 1, ds_LockName = ex_lock, ds_Timestamp = 100, ds_Expire = 50\<rparr>"
  by (simp add: state_of_info_def NewDlockState_def ex_info1_def ex_info_def)

lemma ex_request: "is_request ex_lock ex_bob ex_command"
  unfolding ex_command_def by (rule is_request_new) simp_all

lemma node_with_entry_other: "next_entry n e li \<Longrightarrow> maximumIndex (LogEntryInMemory n) \<noteq> - 1 \<Longrightarrow> node_with_entry n e \<noteq> n"
  using word_less_plus_1 [of "maximumIndex (LogEntryInMemory n)"]
  by (metis maximumIndex_put_entry max.cobounded2 next_entry_def node_with_entry_simps(1) not_le)

lemma ex_acquire:
  "\<exists>r n' di'. AcquireDLock ex_lock 200 ex_command (ex_node 1 [2, 3] Leader 2 1) ex_interchange = (r, n', di') \<and>
     n' \<noteq> ex_node 1 [2, 3] Leader 2 1"
proof -
  have "i64_less (100 + 50) 200" by (simp add: i64_less_def)
  with AcquireDLock_free [of "ex_node 1 [2, 3] Leader 2 1" ex_lock "state_of_info ex_info1" ex_interchange
      "NewDlockVolatileAcquirement ex_lock 1" 200 ex_bob, OF _ _ _ _ _ _ ex_request]
  obtain r e li di' where "AcquireDLock ex_lock 200 ex_command (ex_node 1 [2, 3] Leader 2 1) ex_interchange =
      (r, node_with_entry (ex_node 1 [2, 3] Leader 2 1) e, di')" "next_entry (ex_node 1 [2, 3] Leader 2 1) e li"
    by (fastforce simp: ex_state1 ex_interchange_def NewDlockVolatileAcquirement_def)
  with node_with_entry_other show ?thesis by fastforce
qed

text \<open>The three nodes as a cluster, and a run in which the first one is elected.\<close>

definition ex_cluster :: Cluster where
  "ex_cluster = \<lparr>members = {1, 2, 3},
     node_of = (\<lambda>i. if i = 1 then ex_node 1 [2, 3] Follower 2 0 else if i = 2 then ex_node 2 [1, 3] Follower 2 0
                     else ex_node 3 [1, 2] Follower 2 0),
     election_of = (\<lambda>_ _. None), vote_requests = {}, vote_answers = {}, append_requests = {}, leaders = {}\<rparr>"

lemma ex_cluster_fresh: "fresh_cluster ex_cluster"
  by (auto simp: fresh_cluster_def ex_cluster_def inv_members_def cluster_members_def)

lemma ex_election_start:
  "\<exists>n el. RunElectionDetectorModule_tick 1000 100 2 (ex_node 1 [2, 3] Follower 2 0) = (False, n, Some el) \<and>
     collectedVote el = 1 \<and> \<not> voteMap el 2 \<and> savedCurrentTerm el = 3 \<and> node_term n = 3 \<and> node_state n = Candidate \<and>
     NodeConfigInstance n = ex_config 1 [2, 3] \<and> LogEntryInMemory n = ex_log"
proof -
  obtain n el where s: "StartCandidateVoteModule 1000 (ex_node 1 [2, 3] Follower 2 0) = (n, el)" by fastforce
  have "collectedVote el = 1" "\<not> voteMap el 2"
    using s by (auto simp: StartCandidateVoteModule_def Let_def)
  moreover have "ElectionRestartTime (NodeContextInstance (ex_node 1 [2, 3] Follower 2 0)) = 0"
    by (simp add: ex_node_def NewNodeContext_def)
  ultimately show ?thesis
    using s StartCandidateVoteModule_fields [OF s]
    by (simp add: RunElectionDetectorModule_tick_def i64_le_def)
qed

lemma ex_election:
  "\<exists>c. cluster_run ex_cluster c \<and> (1, 3) \<in> leaders c \<and> members c = {1, 2, 3} \<and>
     node_state (node_of c 1) = Leader \<and> node_term (node_of c 1) = 3"
proof -
  obtain n1 el where t: "RunElectionDetectorModule_tick 1000 100 2 (ex_node 1 [2, 3] Follower 2 0) = (False, n1, Some el)"
      and el: "collectedVote el = 1" "\<not> voteMap el 2" "savedCurrentTerm el = 3"
      and n1: "node_term n1 = 3" "node_state n1 = Candidate" "NodeConfigInstance n1 = ex_config 1 [2, 3]" "LogEntryInMemory n1 = ex_log"
    using ex_election_start by blast
  let ?q = "\<lparr>cvq_Term = 3, cvq_NodeId = 1, cvq_PrevEntryIndex = 2, cvq_PrevEntryTerm = 2\<rparr> :: CandidateVotesRequest"
  let ?r = "\<lparr>cvr_Term = 3, cvr_NodeId = 2, cvr_Accepted = True\<rparr> :: CandidateVotesResponse"
  define c1 where "c1 = (set_node 1 n1 ex_cluster)\<lparr>election_of := (election_of ex_cluster)(1 := (election_of ex_cluster 1)(3 \<mapsto> el))\<rparr>"
  define c2 where "c2 = c1\<lparr>vote_requests := insert ?q (vote_requests c1)\<rparr>"
  obtain n2 where a: "CandidateVotesService 1000 ?q (ex_node 2 [1, 3] Follower 2 0) = (Inr ?r, n2)"
    using CandidateVotesService_newer [of "ex_node 2 [1, 3] Follower 2 0" ?q 1000] by simp
  define c3 where "c3 = (set_node 2 n2 c2)\<lparr>vote_answers := insert (1, 3, 2, ?r) (vote_answers c2)\<rparr>"
  obtain el' where v: "CandidateVote_response [] 1000 2 ?r n1 el = (BecomeLeader [] 1000 n1, el')"
    using el n1 by (simp add: CandidateVote_response_def)
  define c4 where "c4 = add_leader 1 ((set_node 1 (BecomeLeader [] 1000 n1) c3)
     \<lparr>election_of := (election_of c3)(1 := (election_of c3 1)(3 \<mapsto> el'))\<rparr>)"
  have "cluster_step ex_cluster c1"
    using cluster_step.timeout [of 1 ex_cluster 1000 100 2 False n1 el] t el(3) by (simp add: c1_def ex_cluster_def)
  moreover have "CandidateVote_request 3 n1 = Some ?q"
    using n1 by (simp add: CandidateVote_request_def MaximumIndex_def FetchLogEntry_def Let_def)
  then have "cluster_step c1 c2"
    using cluster_step.ask_vote [of 1 c1 3 el ?q] by (simp add: c2_def c1_def ex_cluster_def)
  moreover have "cluster_step c2 c3"
    using cluster_step.answer_vote [of ?q c2 2 1000 ?r n2] a n1(3) by (simp add: c3_def c2_def c1_def ex_cluster_def)
  moreover have "cluster_step c3 c4"
    using cluster_step.count_vote [of 1 3 2 ?r c3 el "[]" 1000 "BecomeLeader [] 1000 n1" el'] v
    by (simp add: c4_def c3_def c2_def c1_def)
  ultimately have "cluster_run ex_cluster c4" by (meson cluster_run.intros)
  moreover have "(1, 3) \<in> leaders c4" "members c4 = {1, 2, 3}" "node_state (node_of c4 1) = Leader" "node_term (node_of c4 1) = 3"
    using n1(1) by (simp_all add: c4_def add_leader_def BecomeLeader_election c3_def c2_def c1_def ex_cluster_def)
  ultimately show ?thesis by blast
qed

text \<open>A follower that has only the first entry, and the request with which the leader sends it the second.\<close>

definition ex_follower :: Node where
  "ex_follower = (ex_node 2 [1, 3] Follower 2 0)\<lparr>LogEntryInMemory := ex_log1\<rparr>"

lemma ex_follower_simps [simp]:
  "LogEntryInMemory ex_follower = ex_log1" "node_term ex_follower = 2" "node_state ex_follower = Follower"
  "node_commit ex_follower = 1" "wf_Node ex_follower"
  by (simp_all add: ex_follower_def wf_Node_def)

definition ex_append :: AppendEntriesRequest where
  "ex_append = \<lparr>aeq_Term = 2, aeq_NodeId = 1, aeq_PrevEntryIndex = 1, aeq_PrevEntryTerm = 1,
     aeq_CommitEntryIndex = 1, aeq_EntryList = [le_Entry (ex_entry 2 2 ex_info2)]\<rparr>"

lemma ex_append_request: "AppendEntries_request 0 (ex_node 1 [2, 3] Leader 2 1) = Some (ex_append, 2, 1)"
proof -
  have "fill_loop ex_log 2 2 = Inr [le_Entry (ex_entry 2 2 ex_info2)]"
    using fill_loop_range [of ex_log 2 2] by (simp add: log_range_last)
  then have "entry_list ex_log 1 1 = Some [le_Entry (ex_entry 2 2 ex_info2)]" by (simp add: entry_list_def)
  then show ?thesis
    by (simp add: AppendEntries_request_def ex_append_def ex_peers_def NewPeerNode_def Let_def MaximumIndex_def Uint64Min_def
        ex_params_def FetchLogEntry_def)
qed

lemma ex_append_accepted:
  "\<exists>resp n'. AppendEntriesService 0 ex_append ex_follower = (Inr resp, n') \<and> aer_Success resp"
proof -
  have "prev_matches ex_append ex_follower = Inr True"
    by (simp add: prev_matches_def ex_append_def MaximumIndex_def FetchLogEntry_def Let_def)
  moreover have "decode_entries (aeq_EntryList ex_append) = Inr [ex_entry 2 2 ex_info2]"
    using decode_wf [of "[ex_entry 2 2 ex_info2]"] by (simp add: ex_append_def)
  moreover have "node_term ex_follower \<le> aeq_Term ex_append" by (simp add: ex_append_def)
  ultimately show ?thesis
    using InsertValidEntryList_Some [of ex_log1 "[ex_entry 2 2 ex_info2]"]
    by (simp add: AppendEntriesService_current accept_entries_def finish_def Let_def)
qed

text \<open>A request without entries whose commit index is behind the first entry of the follower's own.\<close>

definition ex_stale :: AppendEntriesRequest where
  "ex_stale = \<lparr>aeq_Term = 3, aeq_NodeId = 1, aeq_PrevEntryIndex = 1, aeq_PrevEntryTerm = 1,
     aeq_CommitEntryIndex = 2, aeq_EntryList = []\<rparr>"

lemma ex_stale_accepted:
  "\<exists>resp n'. AppendEntriesService 0 ex_stale (ex_node 2 [1, 3] Follower 2 0) = (Inr resp, n') \<and> aer_Success resp"
proof -
  have "prev_matches ex_stale (ex_node 2 [1, 3] Follower 2 0) = Inr True"
    by (simp add: prev_matches_def ex_stale_def MaximumIndex_def FetchLogEntry_def Let_def)
  moreover have "aeq_EntryList ex_stale = []" "aeq_Term ex_stale = 3" by (simp_all add: ex_stale_def)
  ultimately show ?thesis
    using InsertValidEntryList_Some [of ex_log "[]"]
    by (simp add: AppendEntriesService_current accept_entries_def finish_def Let_def)
qed

text \<open>The interchange with one client waiting for the lock.\<close>

definition ex_queue :: DlockVolatileAcquirement where
  "ex_queue = (NewDlockVolatileAcquirement ex_lock 1)\<lparr>lastAssignedAcquirement := 1,
     PendingAcquirement := [1 \<mapsto> NewDlockAcquirementInfo ex_bob 150 500 ex_command]\<rparr>"

definition ex_queued :: DlockInterchange where
  "ex_queued = \<lparr>LeaderTerm = 2, PendingAcquire = [ex_lock \<mapsto> ex_queue]\<rparr>"

lemma ex_queue_pending [simp]: "pending ex_queue = [(1, NewDlockAcquirementInfo ex_bob 150 500 ex_command)]"
  by (simp add: pending_def ex_queue_def NewDlockVolatileAcquirement_def)

lemma ex_queue_fields [simp]:
  "va_LockName ex_queue = ex_lock" "LastAppendedNonce ex_queue = 1" "lastAssignedAcquirement ex_queue = 1"
  "lastProcessedAcquirement ex_queue = 0" "PendingAcquirement ex_queue = [1 \<mapsto> NewDlockAcquirementInfo ex_bob 150 500 ex_command]"
  by (simp_all add: ex_queue_def NewDlockVolatileAcquirement_def)

lemma ex_command_info: "wf_info ex_lock (NewDlockAcquirementInfo ex_bob ts ex ex_command)"
  using ex_request by (auto simp: is_request_def wf_info_def NewDlockAcquirementInfo_def split: sum.splits)

lemma ex_queue_wf [simp]: "wf_Acquirement ex_queue"
proof -
  have "k = 1" if "0 < k" "k \<le> (1 :: u32)" for k
    using that by (simp add: word_gt_0 word_le_nat_alt) (metis unat_1 unat_eq_zero le_Suc_eq le_zero_eq One_nat_def word_unat_eq_iff)
  then show ?thesis using ex_command_info by (auto simp: wf_Acquirement_def)
qed

lemma ex_queued_wf [simp]:
  "wf_Interchange (ex_node self peers st t vote) ex_queued" "counters_ok ex_queued ex_lock" "last_nonce ex_queued ex_lock = 1"
  by (auto simp: wf_Interchange_def ex_queued_def counters_ok_def last_nonce_def ex_state1)

lemma ex_refresh:
  "\<exists>e li di'. RefreshAcquirementBySequence ex_lock ex_bob 1 200 (ex_node 1 [2, 3] Leader 2 1) ex_queued =
      (Inr (True, 2), node_with_entry (ex_node 1 [2, 3] Leader 2 1) e, di') \<and>
    next_entry (ex_node 1 [2, 3] Leader 2 1) e li"
proof -
  let ?info = "NewDlockAcquirementInfo ex_bob 150 500 ex_command"
  have alive: "\<not> acq_expired 200 ?info" "\<not> acq_expired 200 (?info\<lparr>LastRefreshedTimestamp := 200\<rparr>)"
    by (simp_all add: acq_expired_def NewDlockAcquirementInfo_def i64_less_def)
  have "Acquirer ?info = ex_bob" by (simp add: NewDlockAcquirementInfo_def)
  moreover have "\<not> lease_runs 200 (state_of_info ex_info1)" by (simp add: lease_runs_def ex_state1 i64_less_def)
  moreover have "dropWhile (\<lambda>p. acq_expired 200 (snd p)) (pending ex_queue) = [(1, ?info)]" using alive by simp
  ultimately show ?thesis
    using RefreshAcquirementBySequence_head [of "ex_node 1 [2, 3] Leader 2 1" ex_lock "state_of_info ex_info1" ex_queued ex_queue
        200 1 ?info "[]" ex_bob] alive(2)
    by (fastforce simp: ex_queued_def ex_state1)
qed

lemma ex_release:
  "\<exists>r e li di'. ReleaseDLock ex_lock ex_alice 120 (ex_node 1 [2, 3] Leader 2 1) ex_interchange =
      (r, node_with_entry (ex_node 1 [2, 3] Leader 2 1) e, di') \<and> next_entry (ex_node 1 [2, 3] Leader 2 1) e li"
  using ReleaseDLock_owner [of "ex_node 1 [2, 3] Leader 2 1" ex_lock "state_of_info ex_info1" ex_alice ex_interchange]
  by (fastforce simp: ex_interchange_def ex_state1)

lemma ex_locks_dom [simp]: "dom (StateMap ex_locks) = {ex_lock}"
  by (simp add: ex_locks_def)

lemma ex_scan_room:
  "enumerates [ex_lock] (ex_node self peers st t vote)" "last_nonce ex_interchange name \<noteq> - 1"
  "abs_locks (StateMapDLock (ex_node self peers st t vote)) name = Some ds \<Longrightarrow> ds_LockNonce ds \<noteq> - 1"
  by (auto simp: enumerates_def last_nonce_def ex_interchange_def NewDlockVolatileAcquirement_def ex_state1 split: if_splits)

lemma ex_command_decoded: "GetAsDLockInfo ex_command = Inr (ex_info 0 ex_bob 0 50)" "wf_command (CommandDLock ex_command)"
  using GetAsDLockInfo_NewCommandDLock [of ex_lock ex_bob 0 0 50] by (simp_all add: ex_command_def ex_info_def)

text \<open>The first node as a leader with an interchange.\<close>

definition ex_leader :: "DlockInterchange \<Rightarrow> Node" where
  "ex_leader di = (ex_node 1 [2, 3] Leader 2 1)\<lparr>DlockInterchangeInstance := Some di\<rparr>"

lemma ex_leader_simps [simp]:
  "NodeConfigInstance (ex_leader di) = ex_config 1 [2, 3]" "node_term (ex_leader di) = 2" "node_state (ex_leader di) = Leader"
  "node_commit (ex_leader di) = 1" "LogEntryInMemory (ex_leader di) = ex_log" "StateMapDLock (ex_leader di) = ex_locks"
  "StateMapKVStore (ex_leader di) = ex_kv" "DlockInterchangeInstance (ex_leader di) = Some di"
  "wf_Node (ex_leader di)"
  by (simp_all add: ex_leader_def wf_Node_def)

lemma ex_leader_commit [simp]: "commitProcedure (ex_leader di) = ex_leader di"
  by (simp add: ex_leader_def commitProcedure_def)

lemma ex_leader_interchange [simp]:
  "wf_Interchange (ex_leader di) di' \<longleftrightarrow> wf_Interchange (ex_node 1 [2, 3] Leader 2 1) di'"
  by (simp add: wf_Interchange_def)

definition ex_acquire_request :: ClientAcquireDLockRequest where
  "ex_acquire_request = \<lparr>acq_LockName = ex_lock, acq_ClientID = ex_bob, acq_Expire = 50, acq_Sequence = 0\<rparr>"

lemma ex_acquire_service:
  "\<exists>response n'. AcquireDLockService 0 200 ex_acquire_request (ex_leader ex_interchange) = ((Some response, None), n') \<and>
     \<not> acr_Pending response"
proof -
  let ?n = "Lock (ex_leader ex_interchange)" and ?c = "NewCommandDLock 0 ex_lock ex_bob 200 50"
  have c: "commitProcedure ?n = ?n" by (simp add: commitProcedure_Lock)
  have "i64_less (100 + 50) 200" by (simp add: i64_less_def)
  then obtain e di' where "AcquireDLock ex_lock 200 ?c ?n ex_interchange = (Inr (0, 2), node_with_entry ?n e, di')"
    using AcquireDLock_free [of ?n ex_lock "state_of_info ex_info1" ex_interchange "NewDlockVolatileAcquirement ex_lock 1" 200 ex_bob ?c]
      is_request_new [of ex_lock ex_bob 0 200 50] c
    by (fastforce simp: ex_state1 ex_interchange_def NewDlockVolatileAcquirement_def)
  then show ?thesis
    by (simp add: AcquireDLockService_def AcquireDLock_new_def with_interchange_def ex_acquire_request_def Let_def)
qed

lemma ex_put:
  "\<exists>e m. PutStateKVService 0 ex_lock (Some ex_bob) (ex_leader ex_interchange) [Tick m] =
     (Some (Some \<lparr>put_Committed = True, put_CurrentLeader = []\<rparr>, None),
      Unlock (upd_ctx TriggerAEChannel ((Lock (ex_leader ex_interchange))\<lparr>LogEntryInMemory := put_entry ex_log e\<rparr>)))"
proof -
  obtain e where e: "NewLogEntry 2 3 (CommandKVStore (NewCommandKVStore ex_lock (Some ex_bob))) = Inr e"
      "PutStateKV_append ex_lock (Some ex_bob) \<lparr>put_Committed = False, put_CurrentLeader = []\<rparr> (Lock (ex_leader ex_interchange)) =
        (PutWait e, Unlock (upd_ctx TriggerAEChannel ((Lock (ex_leader ex_interchange))\<lparr>LogEntryInMemory := put_entry ex_log e\<rparr>)))"
    using PutStateKV_append_entry [of ex_lock "Some ex_bob" "Lock (ex_leader ex_interchange)"
        "\<lparr>put_Committed = False, put_CurrentLeader = []\<rparr>"] by auto
  have "le_Index e = 3" using NewLogEntry_fields [OF e(1)] by simp
  then obtain m where "PutStateKV_tick e m = Some (Some \<lparr>put_Committed = True, put_CurrentLeader = []\<rparr>, None)"
    by (intro that [of "upd_ctx (\<lambda>nc. nc\<lparr>CommitIndex := 3\<rparr>) ((ex_leader ex_interchange)\<lparr>LogEntryInMemory := put_entry ex_log e\<rparr>)"])
       (simp add: PutStateKV_tick_def FetchLogEntry_def put_entry_def)
  then show ?thesis
    using e(2) by (intro exI [of _ e] exI [of _ m]) (simp add: PutStateKVService_def PutStateKV_begin_def Let_def)
qed

text \<open>The client that waits in the queue refreshes its request in time.\<close>

definition ex_refresh_request :: ClientAcquireDLockRequest where
  "ex_refresh_request = \<lparr>acq_LockName = ex_lock, acq_ClientID = ex_bob, acq_Expire = 50, acq_Sequence = 1\<rparr>"

lemma ex_refresh_service:
  "\<exists>response n'. AcquireDLockService 0 200 ex_refresh_request (ex_leader ex_queued) = ((Some response, None), n') \<and>
     \<not> acr_Pending response \<and> acr_Nonce response = 2"
proof -
  let ?n = "Lock (ex_leader ex_queued)" and ?info = "NewDlockAcquirementInfo ex_bob 150 500 ex_command"
  have c: "commitProcedure ?n = ?n" by (simp add: commitProcedure_Lock)
  have alive: "\<not> acq_expired 200 ?info" "\<not> acq_expired 200 (?info\<lparr>LastRefreshedTimestamp := 200\<rparr>)"
    by (simp_all add: acq_expired_def NewDlockAcquirementInfo_def i64_less_def)
  have "Acquirer ?info = ex_bob" by (simp add: NewDlockAcquirementInfo_def)
  moreover have "\<not> lease_runs 200 (state_of_info ex_info1)" by (simp add: lease_runs_def ex_state1 i64_less_def)
  moreover have "dropWhile (\<lambda>p. acq_expired 200 (snd p)) (pending ex_queue) = [(1, ?info)]" using alive by simp
  ultimately obtain e di' where "RefreshAcquirementBySequence ex_lock ex_bob 1 200 ?n ex_queued = (Inr (True, 2), node_with_entry ?n e, di')"
    using RefreshAcquirementBySequence_head [of ?n ex_lock "state_of_info ex_info1" ex_queued ex_queue 200 1 ?info "[]" ex_bob] alive(2) c
    by (fastforce simp: ex_queued_def ex_state1)
  then show ?thesis
    by (simp add: AcquireDLockService_def AcquireDLock_refresh_def with_interchange_def ex_refresh_request_def Let_def)
qed

text \<open>
  A leader that has appended the first entry for the lock and not committed it yet: the owner has to
  wait with its release until the next tick, which sees the same log with the entry committed.
\<close>

definition ex_no_locks :: StateMapMemory where
  "ex_no_locks = \<lparr>keyword = ''DLock'', StateMap = Map.empty, prevIndex = 0, prevTerm = 0\<rparr>"

definition ex_early_leader :: Node where
  "ex_early_leader = upd_ctx (\<lambda>nc. nc\<lparr>CommitIndex := 0, LastAppliedIndex := 0\<rparr>) ((ex_leader ex_interchange)\<lparr>StateMapDLock := ex_no_locks\<rparr>)"

lemma ex_no_locks_simps [simp]: "wf_LockMap ex_no_locks" "abs_locks ex_no_locks = Map.empty"
  by (auto simp: wf_LockMap_def abs_locks_def ex_no_locks_def)

lemma ex_early_leader_simps [simp]:
  "node_state ex_early_leader = Leader" "DlockInterchangeInstance ex_early_leader = Some ex_interchange"
  "StateMapDLock ex_early_leader = ex_no_locks" "LogEntryInMemory ex_early_leader = ex_log"
  "wf_Node ex_early_leader" "commitProcedure ex_early_leader = ex_early_leader"
  by (simp_all add: ex_early_leader_def wf_Node_def commitProcedure_def)

lemma ex_release_waits: "\<exists>m. ReleaseDLock_begin 0 110 ex_lock ex_alice ex_early_leader = (None, m)"
proof -
  have c: "commitProcedure (Lock ex_early_leader) = Lock ex_early_leader" by (simp add: commitProcedure_Lock)
  have "ReleaseDLock ex_lock ex_alice 110 (Lock ex_early_leader) ex_interchange = (Inr (TriggerReleaseLater, 0), Lock ex_early_leader, ex_interchange)"
    by (simp add: ReleaseDLock_def Let_def c QuerySpecificState_abs) (simp add: ex_interchange_def)
  then show ?thesis
    by (simp add: ReleaseDLock_begin_def with_interchange_def ReleaseDLock_result_def Let_def)
qed

lemma ex_release_tick:
  "\<exists>response n'. ReleaseDLock_tick 120 ex_lock ex_alice (ex_leader ex_interchange) = (Some (Some response, None), n') \<and>
     rel_Released response \<and> rel_Nonce response = 2"
proof -
  let ?n = "Lock (ex_leader ex_interchange)"
  have c: "commitProcedure ?n = ?n" by (simp add: commitProcedure_Lock)
  then obtain e di' where "ReleaseDLock ex_lock ex_alice 120 ?n ex_interchange = (Inr (TriggerReleaseSuccess, 2), node_with_entry ?n e, di')"
    using ReleaseDLock_owner [of ?n ex_lock "state_of_info ex_info1" ex_alice ex_interchange "NewDlockVolatileAcquirement ex_lock 1" 120]
    by (fastforce simp: ex_state1 ex_interchange_def)
  then show ?thesis by (simp add: ReleaseDLock_tick_def with_interchange_def ReleaseDLock_result_def Let_def)
qed

lemma ex_release_service:
  "\<exists>response n'. ReleaseDLockService 0 110 ex_lock ex_alice ex_early_leader [ReleaseTick 120 (ex_leader ex_interchange)] =
     (Some (Some response, None), n') \<and> rel_Released response \<and> rel_Nonce response = 2"
  using ex_release_tick ex_release_waits by (auto simp: ReleaseDLockService_def)

text \<open>A lock without a committed state whose first entry is in flight.\<close>

definition ex_new_lock :: bytes where "ex_new_lock = ''new''"

definition ex_first :: DlockInterchange where
  "ex_first = \<lparr>LeaderTerm = 2, PendingAcquire = [ex_new_lock \<mapsto> NewDlockVolatileAcquirement ex_new_lock 1]\<rparr>"

lemma ex_new_lock_simps [simp]: "valid_utf8 ex_new_lock" "ex_new_lock \<noteq> ex_lock"
  by (simp_all add: ex_new_lock_def ex_lock_def valid_utf8_Cons_ascii)

lemma ex_first_wf [simp]:
  "wf_Interchange (ex_node self peers st t vote) ex_first" "counters_ok ex_first ex_new_lock" "last_nonce ex_first ex_new_lock = 1"
  by (auto simp: wf_Interchange_def ex_first_def wf_Acquirement_new counters_ok_def last_nonce_def)

text \<open>A network whose connections are always ready.\<close>

definition ex_grpc :: "bytes grpc" where
  "ex_grpc = \<lparr>grpc_Dial = Inr, grpc_GetState = (\<lambda>_. Ready), grpc_Close = (\<lambda>_. None)\<rparr>"

text \<open>A client, an answer that grants the lock and a query that finds it.\<close>

definition ex_client :: "bytes DLockRaftClientAPI" where
  "ex_client = NewDLockRaftClientAPI [ex_bob] ''ksuid''"

definition ex_granted :: ClientAcquireDLockResponse where
  "ex_granted = \<lparr>acr_Pending = False, acr_Sequence = 0, acr_CurrentLeader = [], acr_Nonce = 2\<rparr>"

definition ex_held :: ClientQueryDLockResponse where
  "ex_held = \<lparr>qdr_Owner = ex_bob, qdr_Nonce = 2, qdr_Timestamp = 200, qdr_Expire = 50, qdr_PendingNum = 0\<rparr>"

lemma ex_send: "SendGrpc ex_grpc service request gc = (r, gc') \<Longrightarrow> \<exists>c. cs_conn gc' = Some c \<and> r = service c (cs_timeout gc) request"
  by (auto simp: SendGrpc_def conn_send_def conn_available_def conn_reconnect_def conn_start_def ex_grpc_def split: option.splits)

lemma ex_via:
  assumes "CliSrvHandler drc address \<noteq> None"
  shows "\<exists>drc'. via_handler address (SendGrpc ex_grpc (\<lambda>_ _ _. answer) request) drc = (answer, drc') \<and>
    CliSrvHandler drc' address \<noteq> None"
proof -
  obtain gc where gc: "CliSrvHandler drc address = Some gc" using assms by blast
  obtain r gc' where s: "SendGrpc ex_grpc (\<lambda>_ _ _. answer) request gc = (r, gc')" by fastforce
  from ex_send [OF s] gc s show ?thesis by (auto simp: via_handler_def)
qed

text \<open>An answer that puts the client into the queue, with the number 1.\<close>

definition ex_pending :: ClientAcquireDLockResponse where
  "ex_pending = \<lparr>acr_Pending = True, acr_Sequence = 1, acr_CurrentLeader = [], acr_Nonce = 0\<rparr>"

lemma ex_client_acquire:
  "\<exists>drc'. Client_AcquireDLock ''addr'' ex_lock 50 None [((ex_grpc, \<lambda>_ _ _. Inr ex_pending), 0)]
     [RefreshTick (ex_grpc, \<lambda>_ _ _. Inr ex_granted), QueryTick (ex_grpc, \<lambda>_ _ _. Inr ex_held)] ex_client = Some (True, drc')"
proof -
  let ?d = "preprocessConnections ''addr'' (Some 2500) ex_client" and ?q = "acquire_request ex_lock (ClientId ex_client) 50"
  obtain d1 where d1: "via_handler ''addr'' (SendGrpc ex_grpc (\<lambda>_ _ _. Inr ex_pending) ?q) ?d = (Inr ex_pending, d1)"
      "CliSrvHandler d1 ''addr'' \<noteq> None"
    using ex_via [OF preprocess_handler [of "''addr''" "Some 2500" ex_client], where answer = "Inr ex_pending"] by metis
  obtain d2 where d2: "via_handler ''addr'' (SendGrpc ex_grpc (\<lambda>_ _ _. Inr ex_granted) (?q\<lparr>acq_Sequence := 1\<rparr>)) d1 = (Inr ex_granted, d2)"
      "CliSrvHandler d2 ''addr'' \<noteq> None"
    using ex_via [OF d1(2), where answer = "Inr ex_granted"] by metis
  obtain d3 where d3: "via_handler ''addr'' (SendGrpc ex_grpc (\<lambda>_ _ _. Inr ex_held) ex_lock) d2 = (Inr ex_held, d3)"
    using ex_via [OF d2(2), where answer = "Inr ex_held"] by metis
  have "\<not> i64_less 50 0" by (simp add: i64_less_def)
  with d1(1) d2(1) d3 show ?thesis
    by (simp add: send_defs Let_def default_timeout_def ex_pending_def ex_granted_def ex_held_def acquire_request_def)
qed

text \<open>The request in the queue has expired long after it was made.\<close>

lemma ex_expired: "acq_expired 1000 (NewDlockAcquirementInfo ex_bob 150 500 ex_command)"
  by (simp add: acq_expired_def NewDlockAcquirementInfo_def i64_less_def)

text \<open>A query that finds the lock with the first client.\<close>

definition ex_others :: ClientQueryDLockResponse where
  "ex_others = \<lparr>qdr_Owner = ex_alice, qdr_Nonce = 1, qdr_Timestamp = 100, qdr_Expire = 50, qdr_PendingNum = 0\<rparr>"

lemma ex_query: "fst (QueryDLockService ex_lock (ex_leader ex_interchange)) = (Some ex_others, None)"
  by (simp add: QueryDLockService_def Let_def QuerySpecificState_abs ex_state1 ex_others_def QueryDLockAcquirementInfo_def)
     (simp add: ex_interchange_def NewDlockVolatileAcquirement_def)

text \<open>A follower that knows the leader and has different addresses for its peers.\<close>

definition ex_informed :: Node where
  "ex_informed = upd_ctx (\<lambda>nc. nc\<lparr>HopToCurrentLeaderId := 3\<rparr>)
     ((ex_node 2 [1, 3] Follower 2 0)\<lparr>NodeConfigInstance := (ex_config 2 [1, 3])\<lparr>PeerCliAddressSlice := Some [''d1'', ''d3'']\<rparr>\<rparr>)"

lemma ex_informed_simps [simp]:
  "wf_Config (NodeConfigInstance ex_informed)" "PeerId (NodeConfigInstance ex_informed) = [1, 3]"
  "PeerCliAddress (NodeConfigInstance ex_informed) = [''d1'', ''d3'']" "HopToCurrentLeaderId (NodeContextInstance ex_informed) = 3"
  by (simp_all add: ex_informed_def wf_Config_def ex_config_def slice_def parameter_fields_def ex_params_def)

text \<open>A codec of entries that knows the two entries of the example.\<close>

definition ex_pb :: pb where
  "ex_pb = \<lparr>pb_marshal = (\<lambda>e. Inr (if e_Index e = 1 then ''1'' else ''2'')),
     pb_unmarshal = (\<lambda>s. Inr (if s = ''1'' then le_Entry (ex_entry 1 1 ex_info1) else le_Entry (ex_entry 2 2 ex_info2)))\<rparr>"

lemma ex_pb_roundtrip: "\<forall>i e. logInMemory ex_log i = Some e \<longrightarrow> pb_roundtrip ex_pb (le_Entry e)"
  by (auto simp: pb_roundtrip_def ex_pb_def ex_entry_def split: if_splits)

text \<open>The example node before its first backup.\<close>

lemma ex_node_disk: "disk_ok ex_pb (ex_node 1 [2, 3] Leader 2 1)"
  by (simp add: disk_ok_def log_upto_def log_range_def ex_node_def NewNodeContext_def)

lemma ex_maps:
  "NewStateMapMemoryDLock ''DLock'' = Inr \<lparr>keyword = ''DLock'', StateMap = Map.empty, prevIndex = 0, prevTerm = 0\<rparr>"
  "NewStateMapMemoryKVStore ''KVStore'' = Inr \<lparr>keyword = ''KVStore'', StateMap = Map.empty, prevIndex = 0, prevTerm = 0\<rparr>"
  by (simp_all add: NewStateMapMemoryDLock_def NewStateMapMemoryKVStore_def has_prefix_def)

lemma ex_maps_replayed:
  "UpdateStateFromLogMemory_DLock \<lparr>keyword = ''DLock'', StateMap = Map.empty, prevIndex = 0, prevTerm = 0\<rparr> ex_log 1 1 = (None, ex_locks)"
  "UpdateStateFromLogMemory_KVStore \<lparr>keyword = ''KVStore'', StateMap = Map.empty, prevIndex = 0, prevTerm = 0\<rparr> ex_log 1 1 = (None, ex_kv)"
proof -
  let ?e = "ex_entry 1 1 ex_info1" and ?dl = "\<lparr>keyword = ''DLock'', StateMap = Map.empty, prevIndex = 0, prevTerm = 0\<rparr> :: StateMapMemory"
    and ?kv = "\<lparr>keyword = ''KVStore'', StateMap = Map.empty, prevIndex = 0, prevTerm = 0\<rparr> :: StateMapMemory"
  have f: "FetchLogEntry ex_log 1 = Inr ?e" by (simp add: FetchLogEntry_def)
  have name: "li_LockName ex_info1 = ex_lock" by (simp add: ex_info1_def ex_info_def)
  have "UpdateStateFromLogEntry_DLock ?dl (Some ?e) = (None, ex_locks)"
    using UpdateStateFromLogEntry_DLock_wf [OF wf_LockMap_new [OF ex_maps(1)] ex_entry_facts(1) [OF ex_infos(1)], of 1 1]
    by (simp add: apply_LockInfo_def QuerySpecificState_DLock_def write_LockInfo_def advance_def ex_locks_def state_of_info_def Let_def
        name)
  then show "UpdateStateFromLogMemory_DLock ?dl ex_log 1 1 = (None, ex_locks)"
    using f by (simp add: UpdateStateFromLogMemory_DLock_def range_refused_def update_loop.simps)
  have "UpdateStateFromLogEntry_KVStore ?kv (Some ?e) = (Some InMemoryStateMapKeywordError, ex_kv)"
    by (simp add: UpdateStateFromLogEntry_KVStore_def has_prefix_def advance_def ex_kv_def) (simp add: ex_entry_def)
  then show "UpdateStateFromLogMemory_KVStore ?kv ex_log 1 1 = (None, ex_kv)"
    using f by (simp add: UpdateStateFromLogMemory_KVStore_def range_refused_def update_loop.simps tolerated_KVStore_def)
qed

text \<open>A log whose second entry skips a nonce.\<close>

definition ex_gap_log :: LogMemory where
  "ex_gap_log = put_entry ex_log1 (ex_entry 2 2 (ex_info 3 ex_bob 200 50))"

lemma ex_gap_log_simps [simp]:
  "maximumIndex ex_gap_log = 2" "logInMemory ex_gap_log 2 = Some (ex_entry 2 2 (ex_info 3 ex_bob 200 50))"
  "wf_LogMemory ex_gap_log" "contiguous ex_gap_log"
  unfolding ex_gap_log_def by (auto intro!: wf_put_entry contiguous_append) (simp_all add: put_entry_def)

subsection \<open>A run of a leader\<close>

text \<open>A candidate with one committed entry in its log, which gives the lock to the first client.\<close>

definition ex_candidate :: Node where
  "ex_candidate = (ex_node 1 [2, 3] Candidate 3 1)\<lparr>LogEntryInMemory := ex_log1\<rparr>"

lemma ex_candidate_simps [simp]:
  "NodeContextInstance ex_candidate = NodeContextInstance (ex_node 1 [2, 3] Candidate 3 1)"
  "StateMapDLock ex_candidate = ex_locks" "LogEntryInMemory ex_candidate = ex_log1"
  "commitProcedure ex_candidate = ex_candidate" "wf_Node ex_candidate"
  by (simp_all add: ex_candidate_def commitProcedure_def wf_Node_def)

lemma ex_candidate_clean: "starts_clean [ex_lock] ex_candidate"
  using ex_scan_room(1,3) [of 1 "[2, 3]" Candidate 3 1]
  by (auto simp: starts_clean_def enumerates_def)

lemma ex_abandon [simp]: "AbandonExpiredAcquirement (NewDlockVolatileAcquirement name k) ts = (None, NewDlockVolatileAcquirement name k)"
  by (simp add: AbandonExpiredAcquirement_def NewDlockVolatileAcquirement_def abandon_loop.simps)

text \<open>It becomes leader while the lease of the first client runs.\<close>

definition ex_new_leader :: Node where
  "ex_new_leader = BecomeLeader [ex_lock] 120 ex_candidate"

lemma ex_new_leader_simps [simp]:
  "node_state ex_new_leader = Leader" "LogEntryInMemory ex_new_leader = ex_log1" "StateMapDLock ex_new_leader = ex_locks"
  "DlockInterchangeInstance ex_new_leader = Some \<lparr>LeaderTerm = 3, PendingAcquire = [ex_lock \<mapsto> NewDlockVolatileAcquirement ex_lock 1]\<rparr>"
  "commitProcedure ex_new_leader = ex_new_leader" "wf_Node ex_new_leader"
proof -
  let ?n = "upd_ctx (\<lambda>nc. nc\<lparr>NodeState := Leader\<rparr>) ex_candidate"
  have c: "commitProcedure ?n = ?n" by (simp add: commitProcedure_def)
  have q: "QuerySpecificState_DLock ex_locks ex_lock = Inr (state_of_info ex_info1)" by (simp add: QuerySpecificState_abs)
  have s: "scanDLockStateMap [ex_lock] 120 ?n (NewDlockInterchange ?n) =
      (None, ?n, \<lparr>LeaderTerm = 3, PendingAcquire = [ex_lock \<mapsto> NewDlockVolatileAcquirement ex_lock 1]\<rparr>)"
    by (simp add: scanDLockStateMap_def NewDlockInterchange_def Let_def q ex_state1 i64_less_def put_acq_def)
  have e: "ex_new_leader = go HeartBeat ((go (ReleaseExpiredDLockPeriodically 3) (?n\<lparr>DlockInterchangeInstance :=
        Some \<lparr>LeaderTerm = 3, PendingAcquire = [ex_lock \<mapsto> NewDlockVolatileAcquirement ex_lock 1]\<rparr>\<rparr>))
      \<lparr>PeerList := map (\<lambda>p. p\<lparr>NextIndex := 2\<rparr>) (PeerList ?n)\<rparr>)"
    unfolding ex_new_leader_def BecomeLeader_def InitFromDLockStateMap_def Let_def c s by (simp add: MaximumIndex_def)
  show "node_state ex_new_leader = Leader" "LogEntryInMemory ex_new_leader = ex_log1" "StateMapDLock ex_new_leader = ex_locks"
    "DlockInterchangeInstance ex_new_leader = Some \<lparr>LeaderTerm = 3, PendingAcquire = [ex_lock \<mapsto> NewDlockVolatileAcquirement ex_lock 1]\<rparr>"
    "commitProcedure ex_new_leader = ex_new_leader" "wf_Node ex_new_leader"
    by (simp_all add: e commitProcedure_def wf_Node_def)
qed

text \<open>The second client asks for the lock when the lease has run out.\<close>

lemma ex_run:
  "\<exists>n' e li. leader_step\<^sup>*\<^sup>* (BecomeLeader [ex_lock] 120 ex_candidate) n' \<and> top_index n' = 2 \<and>
     logInMemory (LogEntryInMemory n') 2 = Some e \<and> logInMemory (LogEntryInMemory n') 1 = Some (ex_entry 1 1 ex_info1) \<and>
     entry_LockInfo e = Some li \<and> li_LockName li = ex_lock \<and> li_NewOwner li = ex_bob"
proof -
  let ?q = "\<lparr>acq_LockName = ex_lock, acq_ClientID = ex_bob, acq_Expire = 50, acq_Sequence = 0\<rparr> :: ClientAcquireDLockRequest"
  let ?di = "\<lparr>LeaderTerm = 3, PendingAcquire = [ex_lock \<mapsto> NewDlockVolatileAcquirement ex_lock 1]\<rparr>"
  let ?m = "Lock ex_new_leader"
  have m: "commitProcedure ?m = ?m" by (simp add: commitProcedure_Lock)
  have req: "is_request ex_lock ex_bob (NewCommandDLock 0 ex_lock ex_bob 200 50)" by (rule is_request_new) simp_all
  have "i64_less (100 + 50) 200" by (simp add: i64_less_def)
  with AcquireDLock_free [of ?m ex_lock "state_of_info ex_info1" ?di "NewDlockVolatileAcquirement ex_lock 1" 200 ex_bob, OF _ _ _ _ _ _ req]
  obtain e li r di' where a: "AcquireDLock ex_lock 200 (NewCommandDLock 0 ex_lock ex_bob 200 50) ?m ?di = (r, node_with_entry ?m e, di')"
      "next_entry ?m e li" "li_LockName li = ex_lock" "li_NewOwner li = ex_bob"
    unfolding m by (fastforce simp: ex_state1 NewDlockVolatileAcquirement_def)
  define n' where "n' = snd (AcquireDLockService 0 200 ?q ex_new_leader)"
  have log: "LogEntryInMemory n' = put_entry ex_log1 e"
    using a(1) by (auto simp: n'_def AcquireDLockService_def AcquireDLock_new_def with_interchange_def Let_def split: sum.split prod.split)
  have "leader_step ex_new_leader n'"
    by (rule leader_step.acquire [of _ ?q 0 200 "fst (AcquireDLockService 0 200 ?q ex_new_leader)"])
       (simp_all add: n'_def has_room_def counters_ok_def)
  moreover have "le_Index e = 2" "entry_LockInfo e = Some li" using a(2) by (simp_all add: next_entry_def)
  ultimately show ?thesis using a(3,4)
    by (intro exI [of _ n'] exI [of _ e] exI [of _ li]) (simp add: log put_entry_def ex_new_leader_def)
qed

text \<open>Where a message is logged from.\<close>

definition ex_env :: log_env where
  "ex_env = \<lparr>caller_file = ''node.go'', caller_line = 1, clock = id, stack_trace = [], flag_text = (\<lambda>_. [])\<rparr>"

end
