(* ===== verification/Spec2Isabelle.thy ===== *)
theory Spec2Isabelle
  imports Scenario
begin

text \<open>
  A verification library of a lock service that is replicated with Raft and written in Go.

  \<^bold>\<open>The program.\<close> A cluster of nodes keeps a log of commands, a key-value store and a table of
  locks with leases. The nodes elect a leader and replicate its log
  (\<^verbatim>\<open>src/node/node.go\<close>, \<^verbatim>\<open>src/node/p2p_server.go\<close>); every node applies the committed entries to its
  state maps (\<^verbatim>\<open>src/storage\<close>). Clients call the leader (\<^verbatim>\<open>src/node/clisrv_server.go\<close>) through a library
  that follows redirections and polls (\<^verbatim>\<open>src/dlock_api\<close>). A lock is granted by an entry with the
  next nonce of the lock; requests for a lock that is held wait in a queue of the leader
  (\<^verbatim>\<open>src/node/dlock_interchange.go\<close>, \<^verbatim>\<open>src/node/dlock_acquirement.go\<close>).

  \<^bold>\<open>The theories\<close>, each importing the ones before it that it needs:
  \<^item> \<^verbatim>\<open>DLock_Prelude\<close>: widths of integers, errors of the program as one datatype (\<open>go_error\<close>, with
    panics as values), slices, the collections of lemmas, words as counters.
  \<^item> \<^verbatim>\<open>Go_Json\<close>, \<^verbatim>\<open>Go_Json_Value\<close>: \<^verbatim>\<open>encoding/json\<close> as far as the program uses it, byte by byte:
    strings with their escapes and UTF-8, numbers, base 64, objects; the parser and its round trip.
    The locale \<open>json_codec\<close> states what the components rely on.
  \<^item> \<^verbatim>\<open>Commands\<close> (\<^verbatim>\<open>command.go\<close>, \<^verbatim>\<open>command_impl.go\<close>), \<^verbatim>\<open>Log_Entry\<close> (\<^verbatim>\<open>log_entry.go\<close>), \<^verbatim>\<open>Log_Memory\<close>
    (\<^verbatim>\<open>log_memory.go\<close>), \<^verbatim>\<open>State_Map\<close> (\<^verbatim>\<open>statemap_memory.go\<close>, \<^verbatim>\<open>statemap_memory_impl.go\<close>): the storage. The log
    is a map with its highest index, as in the code; \<open>contiguous\<close> says that it has no gap. The
    locale \<open>indexed_log\<close> is the contract of the log, \<open>entry_applier\<close> and \<open>strict_applier\<close> that of
    the two state maps. The abstract lock table is \<open>locks\<close> with \<open>lock_replay\<close>; \<open>abs_locks\<close> relates
    the stored map to it.
  \<^item> \<^verbatim>\<open>Acquirement\<close> (\<^verbatim>\<open>dlock_acquirement.go\<close>): the queue of one lock; \<open>pending\<close> is its abstraction to a
    list, the locale \<open>expiring_queue\<close> its contract.
  \<^item> \<^verbatim>\<open>Logger\<close> (\<^verbatim>\<open>utils/logging.go\<close>): levels, format templates and their parser, a partial function because its
    loop may run forever, the rendering of messages and the methods of a logger.
  \<^item> \<^verbatim>\<open>Node_Config\<close> (\<^verbatim>\<open>node_config.go\<close>, \<^verbatim>\<open>utils/util.go\<close>), \<^verbatim>\<open>Node_State\<close> (\<^verbatim>\<open>node_context.go\<close>, \<^verbatim>\<open>peer.go\<close>, the
    record, start, recovery, commit and backup of \<^verbatim>\<open>node.go\<close>).
  \<^item> \<^verbatim>\<open>Interchange\<close> (\<^verbatim>\<open>dlock_interchange.go\<close>): what a leader does for the locks. The locale
    \<open>lock_operation\<close> is the contract that acquire, refresh and release share.
  \<^item> \<^verbatim>\<open>Raft_Node\<close> (elections and replication in \<^verbatim>\<open>node.go\<close>), \<^verbatim>\<open>P2P_Server\<close> (\<^verbatim>\<open>p2p_server.go\<close>). The locale
    \<open>majority\<close> has the intersection of quorums; \<open>log_position\<close> is the linear order in which logs are compared.
  \<^item> \<^verbatim>\<open>Raft_Cluster\<close>: the nodes and the messages between them as a step relation, its invariant and
    the run. It composes the handlers of the two theories before it.
  \<^item> \<^verbatim>\<open>Cli_Server\<close> (\<^verbatim>\<open>clisrv_server.go\<close>), \<^verbatim>\<open>Grpc_Clients\<close> (\<^verbatim>\<open>p2p_client.go\<close>, \<^verbatim>\<open>clisrv_client.go\<close>), \<^verbatim>\<open>Client_API\<close>
    (\<^verbatim>\<open>dlock_api/dlock_raft_client_API.go\<close>).
  \<^item> \<^verbatim>\<open>Lock_Runs\<close>: a leader over time. The handlers for clients, the periodic scan, the answers of
    followers and the commit goroutine are the rules of \<open>leader_step\<close>; its invariant \<open>leader_ok\<close> says
    that the part of the log appended since the election is \<open>fair\<close>. The locale \<open>leased_operation\<close>
    extends \<open>lock_operation\<close> by what the invariant needs of the three operations.
  \<^item> \<^verbatim>\<open>Scenario\<close>: a cluster of three nodes, a log, a queue, a client and a codec, at which the
    theorems are applied.

  \<^bold>\<open>How the code is represented.\<close> Structs are records with the fields of the source, machine integers
  are words of their width, so that additions wrap around as in Go; \<^verbatim>\<open>int64\<close> comparisons are the
  signed ones (\<open>i64_less\<close>). A method that changes its receiver returns the new record; an error is a
  value, and a panic (nil dereference, index out of range, \<^verbatim>\<open>rand.Intn(0)\<close>) is the error \<open>GoPanic\<close>. A
  goroutine is the list of the blocks it does while it holds the mutex of the node: each block is one
  definition, and between two blocks anything may happen. \<^verbatim>\<open>go\<close> statements are recorded in the field
  \<open>goroutines\<close>. The clock, random numbers, the order in which Go iterates over a map, the answers of
  peers and the events of tickers and timers are arguments. Parameters stand for code outside the
  repository: the protobuf codec of an entry (\<open>pb\<close>, with \<open>pb_roundtrip\<close> as the hypothesis that it decodes
  what it encoded), the YAML parser, the gRPC library (\<open>grpc\<close>) and the identifier generator.

  \<^bold>\<open>What is proved.\<close> Mutual exclusion: whatever a leader that was elected with a committed log does during its
  time, every entry it appends for a lock follows the one before it, and gives the lock away only when the
  lease has run out. Elections: at most one leader per term in every run, elected by a majority.
  Replication: what requests contain, what followers store, agreement after an accepted request,
  commits only by majority. State: applying the log implements the abstract replay, replicas agree,
  nonces count updates. Locks: leases are respected, only owners release, one entry in flight per
  lock, queues are in order and serve their head, the scan releases what is due. Services and
  library: what their answers mean, when they end, when they give the mutex back. Persistence: files
  and commands are read back as written, a restart recovers the committed state. Logger: what a
  template prints, and when its parser returns. The last section
  states behaviour that differs from what Raft or a comment of the source asks for.

  \<^bold>\<open>Bounds.\<close> The loops of the code over word indexes stop at their last index; the model tests for it
  before it adds one, so it ends where a Go loop with an upper bound of \<open>2 ^ 64 - 1\<close> would not; theorems
  whose statement depends on it assume that the log is not full. Loops that wait are total over the
  list of their events; that they end is stated with the timer among the events. JSON parsing is
  bounded by the length of its input.

  \<^bold>\<open>Not modelled.\<close> The generated protobuf code (its messages are records of the model), the calls of the
  logger inside the handlers, \<^verbatim>\<open>fmt.Sprintf\<close> beyond the formats of the logger. Runs of the cluster leave out
  what breaks the property: restarts (the vote is not stored), late vote answers of a term between that of
  their election and that of the node (\<open>stale_answer_lowers_term\<close>), late append answers of a term newer than
  that of the request and not newer than that of the node (one of the same term makes the node forget its
  vote), and the wrap-around of the term. Runs of a leader
  start with a log in which everything is committed: the code reads the nonces of a new leader from the
  committed table only, so an uncommitted entry for a lock at the election would be missed.
\<close>

section \<open>Mutual exclusion\<close>

text \<open>
  C1. Mutual exclusion over the time of a leader that was elected with nothing but committed entries
  in its log, all of them taken by its lock table. From then on the services for acquiring, refreshing and releasing locks and for
  storing and deleting values, the periodic scan, the answers of the followers that do not make it
  step down and the commit goroutine run in any order and number, as long as no counter is at its
  limit. Every entry for a lock that the log has gained since the election is accepted by a replay
  of the entries before it, carries the next nonce of the lock, and when it gives the lock to a
  client, the lease of the entry before it has run out at its time stamp: no two clients hold a lock
  at the same time, and no replica ever refuses an entry of the leader. A leader elected with an
  uncommitted entry for a lock in its log is outside the theorem: it would not count that entry.
\<close>

theorem mutual_exclusion:
  assumes "starts_clean order n" "leader_step\<^sup>*\<^sup>* (BecomeLeader order now n) n'"
    and "maximumIndex (LogEntryInMemory n) < j" "j \<le> maximumIndex (LogEntryInMemory n')"
    and "logInMemory (LogEntryInMemory n') j = Some e" "entry_LockInfo e = Some li"
  shows "\<exists>L. lock_replay (log_range (LogEntryInMemory n') (maximumIndex (LogEntryInMemory n) + 1) (j - 1))
        (abs_locks (StateMapDLock (commitProcedure n))) = Some L \<and>
    (case L (li_LockName li) of
       None \<Rightarrow> li_LockNonce li = 1
     | Some ds \<Rightarrow> li_LockNonce li = ds_LockNonce ds + 1 \<and>
         (li_NewOwner li \<noteq> [] \<longrightarrow> \<not> lease_runs (li_Timestamp li) ds))"
proof -
  have "leader_ok (maximumIndex (LogEntryInMemory n)) (abs_locks (StateMapDLock (commitProcedure n))) n'"
    by (rule leader_run_ok [OF assms(2) BecomeLeader_ok [OF assms(1)]])
  from leader_ok_entry [OF this assms(3-6)] show ?thesis
    by (auto simp: fair_update_def base_nonce_def split: option.splits)
qed

theorem mutual_exclusion_witness:
  "\<exists>n' e li. leader_step\<^sup>*\<^sup>* (BecomeLeader [ex_lock] 120 ex_candidate) n' \<and>
     logInMemory (LogEntryInMemory n') 2 = Some e \<and> entry_LockInfo e = Some li \<and> li_NewOwner li = ex_bob \<and>
     li_LockNonce li = 2 \<and> \<not> lease_runs (li_Timestamp li) (state_of_info ex_info1)"
proof -
  obtain n' e li where r: "leader_step\<^sup>*\<^sup>* (BecomeLeader [ex_lock] 120 ex_candidate) n'" "maximumIndex (LogEntryInMemory n') = 2"
      "logInMemory (LogEntryInMemory n') 2 = Some e" "entry_LockInfo e = Some li" "li_LockName li = ex_lock" "li_NewOwner li = ex_bob"
    using ex_run by blast
  have "log_range (LogEntryInMemory n') 2 1 = []" by (simp add: log_range_empty)
  with mutual_exclusion [OF ex_candidate_clean r(1) _ _ r(3,4)] r(2,5,6)
  have "li_LockNonce li = 2 \<and> \<not> lease_runs (li_Timestamp li) (state_of_info ex_info1)"
    by (auto simp: ex_state1)
  with r show ?thesis by blast
qed

section \<open>Elections\<close>

text \<open>
  C2. At most one leader per term. In every run of a cluster that starts with followers, two
  nodes that have ever been leader in the same term are the same node. A run interleaves the
  election timeouts, the vote requests, their answers and their counting, the append requests and
  their answers, and any operation that leaves role, term and vote alone, with messages lost,
  delayed and repeated. Four things do not happen in a run: a late answer to a vote request with a
  term newer than its election but older than the term of the node; a late answer to an append
  request with a term newer than that of the request but not newer than the term of the node (one of
  the same term makes a leader step down and forget its vote); the restart of a node, whose vote is
  not stored; and the wrap-around of the term.
\<close>

theorem election_safety:
  assumes "fresh_cluster c0" "cluster_run c0 c" "(i, t) \<in> leaders c" "(k, t) \<in> leaders c"
  shows "i = k"
  using one_leader inv_run inv_fresh assms by blast

theorem election_safety_witness:
  "\<exists>c. cluster_run ex_cluster c \<and> {k. (k, 3) \<in> leaders c} = {1}"
proof -
  obtain c where "cluster_run ex_cluster c" "(1, 3) \<in> leaders c" using ex_election by blast
  with election_safety [OF ex_cluster_fresh] show ?thesis by blast
qed

text \<open>
  C3. A leader was elected by a majority: in every run, a node in the state Leader has a set of
  members, more than half of the cluster, each of which is the node itself or accepted its request
  in its term; and it granted its own vote of that term to nobody else.
\<close>

theorem leader_has_majority:
  assumes "fresh_cluster c0" "cluster_run c0 c" "i \<in> members c" "node_state (node_of c i) = Leader"
  shows "\<exists>Q \<subseteq> members c. card (members c) < 2 * card Q \<and>
    (\<forall>j \<in> Q. j = i \<or> granted c i (node_term (node_of c i)) j) \<and> (\<forall>k. \<not> granted c k (node_term (node_of c i)) i)"
proof -
  have "inv_cluster c" by (rule inv_run [OF assms(2) inv_fresh [OF assms(1)]])
  then have inv: "inv_leaders c" "inv_members c" by (simp_all add: inv_cluster_def)
  have m: "cluster_members (NodeConfigInstance (node_of c i)) = members c" using inv(2) assms(3) by (simp add: inv_members_def)
  have "(i, node_term (node_of c i)) \<in> leaders c" using inv(1) assms(3,4) by (simp add: inv_leaders_def)
  then have "elected c i (node_term (node_of c i))" using inv(1) by (simp add: inv_leaders_def)
  then show ?thesis unfolding elected_def cluster.quorum_def unfolding m by (elim conjE exE) (intro exI conjI)
qed

theorem leader_has_majority_witness:
  "\<exists>c Q. cluster_run ex_cluster c \<and> Q \<subseteq> {1, 2, 3} \<and> 3 < 2 * card Q \<and> Q - {1} \<subseteq> {j. granted c 1 3 j}"
proof -
  obtain c where c: "cluster_run ex_cluster c" "members c = {1, 2, 3}" "node_state (node_of c 1) = Leader" "node_term (node_of c 1) = 3"
    using ex_election by blast
  have "card {1, 2, 3 :: u32} = 3" by simp
  with leader_has_majority [OF ex_cluster_fresh c(1), of 1] c(2-4)
  obtain Q where "Q \<subseteq> {1, 2, 3}" "3 < 2 * card Q" "\<forall>j \<in> Q. j = 1 \<or> granted c 1 3 j" by fastforce
  with c(1) show ?thesis by blast
qed

text \<open>
  C4. A node votes once per term: the vote handler never lowers the term, never replaces a vote
  given in the same term, records the vote it grants in the term of the request, and touches
  neither the log nor the commit index. When a living, well-formed node accepts: always for a newer
  term, and in its own term exactly if it has not voted for another candidate and its log does not
  reach further than that of the candidate.
\<close>

theorem votes_once_per_term:
  assumes "CandidateVotesService now request n = (r, n')"
  shows "node_term n \<le> node_term n' \<and>
    (node_term n' = node_term n \<longrightarrow> VotedPeer (NodeContextInstance n) \<noteq> 0 \<longrightarrow>
       VotedPeer (NodeContextInstance n') = VotedPeer (NodeContextInstance n)) \<and>
    (\<forall>resp. r = Inr resp \<longrightarrow> cvr_Term resp = node_term n' \<and>
       (cvr_Accepted resp \<longrightarrow> node_term n' = cvq_Term request \<and> VotedPeer (NodeContextInstance n') = cvq_NodeId request)) \<and>
    (wf_Node n \<and> node_state n \<noteq> Dead \<longrightarrow>
       (\<exists>resp. r = Inr resp \<and>
          (cvr_Accepted resp \<longleftrightarrow> node_term n < cvq_Term request \<or>
             cvq_Term request = node_term n \<and> VotedPeer (NodeContextInstance n) \<in> {0, cvq_NodeId request} \<and>
             last_position (LogEntryInMemory n) \<le> Position (cvq_PrevEntryTerm request) (cvq_PrevEntryIndex request)))) \<and>
    LogEntryInMemory n' = LogEntryInMemory n \<and> node_commit n' = node_commit n"
proof -
  have "\<exists>resp. r = Inr resp \<and> (cvr_Accepted resp \<longleftrightarrow> node_term n < cvq_Term request \<or>
      cvq_Term request = node_term n \<and> VotedPeer (NodeContextInstance n) \<in> {0, cvq_NodeId request} \<and>
      last_position (LogEntryInMemory n) \<le> Position (cvq_PrevEntryTerm request) (cvq_PrevEntryIndex request))"
    if "wf_Node n" "node_state n \<noteq> Dead"
    using CandidateVotesService_decision [OF that, of now request] assms by (auto simp: may_vote_def)
  with CandidateVotesService_outcome [OF assms] show ?thesis by (auto simp: vote_outcome_def vote_kept_def)
qed

theorem votes_once_per_term_witness:
  "\<exists>resp n'. CandidateVotesService 0 \<lparr>cvq_Term = 2, cvq_NodeId = 1, cvq_PrevEntryIndex = 2, cvq_PrevEntryTerm = 2\<rparr>
      (ex_node 2 [1, 3] Follower 2 0) = (Inr resp, n') \<and> cvr_Accepted resp \<and>
    VotedPeer (NodeContextInstance n') = 1 \<and> node_term n' = 2"
proof -
  let ?q = "\<lparr>cvq_Term = 2, cvq_NodeId = 1, cvq_PrevEntryIndex = 2, cvq_PrevEntryTerm = 2\<rparr> :: CandidateVotesRequest"
  obtain r n' where r: "CandidateVotesService 0 ?q (ex_node 2 [1, 3] Follower 2 0) = (r, n')" by fastforce
  have "last_position ex_log = Position 2 2" by (simp add: last_position_def)
  with votes_once_per_term [OF r] r show ?thesis by auto
qed

section \<open>Replication of the log\<close>

text \<open>
  C5. A leader commits only what a majority stores: after a successful answer of a peer the commit
  index has not gone back and does not pass the end of the log; if it moved, the leader
  and the peers whose match index reaches it are more than half of the cluster, and for no higher
  index of the log they are.
\<close>

theorem commit_by_majority:
  assumes "wf_Node n" "maximumIndex (LogEntryInMemory n) \<noteq> - 1" "n' = AppendEntries_success i nextIndexRecord entryLength n"
  shows "node_commit n \<le> node_commit n' \<and> node_commit n' \<le> maximumIndex (LogEntryInMemory n') \<and>
    (node_commit n < node_commit n' \<longrightarrow>
       length (PeerId (NodeConfigInstance n')) + 1 < 2 * (1 + length (filter (\<lambda>p. node_commit n' \<le> MatchIndex p) (PeerList n')))) \<and>
    (\<forall>m. node_commit n' < m \<longrightarrow> m \<le> maximumIndex (LogEntryInMemory n') \<longrightarrow>
       2 * (1 + length (filter (\<lambda>p. m \<le> MatchIndex p) (PeerList n'))) \<le> length (PeerId (NodeConfigInstance n')) + 1)"
proof -
  define n2 where "n2 = acknowledge i (nextIndexRecord + entryLength) n"
  have "majority_matches n' m = majority_matches n2 m" for m
    by (simp add: assms(3) n2_def majority_matches_def matchedPeers_def AppendEntries_success_fields
        quiet_AppendEntries_success [unfolded quiet_def])
  moreover have "commit_choice n2 (node_commit n + 1) (node_commit n) (node_commit n')"
    unfolding assms(3) n2_def by (rule AppendEntries_success_commit [OF assms(1,2)])
  moreover have "LogEntryInMemory n2 = LogEntryInMemory n" "LogEntryInMemory n' = LogEntryInMemory n"
    by (simp_all add: n2_def assms(3) AppendEntries_success_fields)
  ultimately have eq: "majority_matches n' = majority_matches n2" and log: "LogEntryInMemory n' = LogEntryInMemory n"
      and choice: "commit_choice n2 (node_commit n + 1) (node_commit n) (node_commit n')" and n2: "LogEntryInMemory n2 = LogEntryInMemory n"
    by blast+
  note mono = commit_choice_mono [OF choice, unfolded n2, OF wf_NodeD(5) [OF assms(1)] assms(2)]
  have above: "node_commit n + 1 \<le> m" if "node_commit n < m" for m using that by (rule inc_le)
  have "node_commit n < node_commit n' \<longrightarrow> majority_matches n' (node_commit n')"
    using choice unfolding commit_choice_def eq by (auto split: if_splits)
  moreover have "\<not> majority_matches n' m" if m: "node_commit n' < m" "m \<le> maximumIndex (LogEntryInMemory n)" for m
  proof
    assume mm: "majority_matches n' m"
    have "node_commit n + 1 \<le> m" by (rule above) (use m(1) mono(1) in simp)
    then have "m \<le> node_commit n'" using choice mm m(2) unfolding commit_choice_def eq n2 by (metis (full_types))
    with m(1) show False by simp
  qed
  ultimately show ?thesis using mono log by (auto simp: majority_matches_def matchedPeers_def not_less)
qed

theorem commit_by_majority_witness:
  "node_commit (ex_node 1 [2, 3] Leader 2 1) = 1 \<and>
   (let n' = AppendEntries_success 0 2 1 (ex_node 1 [2, 3] Leader 2 1) in node_commit n' = 2 \<and> majority_matches n' 2)"
proof -
  let ?n' = "AppendEntries_success 0 2 1 (ex_node 1 [2, 3] Leader 2 1)"
  have m: "majority_matches ?n' 2"
    by (simp add: majority_matches_def matchedPeers_def AppendEntries_success_fields acknowledge_def upd_peer_def ex_peers_def
        NewPeerNode_def quiet_AppendEntries_success [unfolded quiet_def])
  from commit_by_majority [of "ex_node 1 [2, 3] Leader 2 1" ?n' 0 2 1]
  have "node_commit ?n' \<le> 2" "\<forall>m. node_commit ?n' < m \<longrightarrow> m \<le> 2 \<longrightarrow> \<not> majority_matches ?n' m"
    by (simp_all add: AppendEntries_success_fields majority_matches_def matchedPeers_def not_less)
  with m have "node_commit ?n' = 2" by (metis order_le_less)
  with m show ?thesis by simp
qed

text \<open>
  C6. What an accepted append request leaves behind: every entry of the request is in the log of
  the follower at its index, nothing before the first and nothing behind the last is touched, the
  log reaches at least to the last entry, and the node stays well-formed: its log has no gap and
  its commit index stays inside it.
\<close>

theorem append_stores_entries:
  assumes "wf_Node n" "maximumIndex (LogEntryInMemory n) \<noteq> - 1"
    and "AppendEntriesService now request n = (Inr resp, n')" "aer_Success resp"
    and "numbered (aeq_PrevEntryIndex request + 1) (aeq_EntryList request)"
      "unat (aeq_PrevEntryIndex request) + 1 + length (aeq_EntryList request) < 2 ^ 64"
  shows "wf_Node n' \<and>
    (\<forall>k < length (aeq_EntryList request).
       \<exists>e. logInMemory (LogEntryInMemory n') (aeq_PrevEntryIndex request + 1 + of_nat k) = Some e \<and>
           le_Entry e = aeq_EntryList request ! k) \<and>
    (\<forall>j. unat j \<le> unat (aeq_PrevEntryIndex request) \<or>
         unat (aeq_PrevEntryIndex request) + length (aeq_EntryList request) < unat j \<longrightarrow>
       logInMemory (LogEntryInMemory n') j = logInMemory (LogEntryInMemory n) j) \<and>
    aeq_PrevEntryIndex request + of_nat (length (aeq_EntryList request)) \<le> maximumIndex (LogEntryInMemory n')"
  using AppendEntriesService_log [OF assms] by blast

theorem append_stores_entries_witness:
  "\<exists>resp n'. AppendEntriesService 0 ex_append ex_follower = (Inr resp, n') \<and> wf_Node n' \<and>
     (\<exists>e. logInMemory (LogEntryInMemory n') 2 = Some e \<and> le_Entry e = le_Entry (ex_entry 2 2 ex_info2))"
proof -
  obtain resp n' where r: "AppendEntriesService 0 ex_append ex_follower = (Inr resp, n')" "aer_Success resp"
    using ex_append_accepted by blast
  have "numbered (aeq_PrevEntryIndex ex_append + 1) (aeq_EntryList ex_append)"
    by (simp add: numbered_def ex_append_def ex_entry_def)
  from append_stores_entries [OF _ _ r this] r(1) show ?thesis
    by (force simp: ex_append_def)
qed

text \<open>
  C7. Replication transfers the log: when a follower accepts the request a leader makes for it, and
  the two agreed on everything before the first new entry, they agree on everything up to the
  last one.
\<close>

theorem append_transfers_log:
  assumes "node_state l = Leader" "wf_Node l" "maximumIndex (LogEntryInMemory l) \<noteq> - 1"
      "1 \<le> NextIndex (PeerList l ! i)" "NextIndex (PeerList l ! i) \<le> maximumIndex (LogEntryInMemory l) + 1"
    and "AppendEntries_request i l = Some (request, nextIndexRecord, entryLength)"
    and "wf_Node n" "maximumIndex (LogEntryInMemory n) \<noteq> - 1"
    and "AppendEntriesService now request n = (Inr resp, n')" "aer_Success resp"
    and "\<forall>j. j < nextIndexRecord \<longrightarrow> logInMemory (LogEntryInMemory n) j = logInMemory (LogEntryInMemory l) j"
    and "j \<le> nextIndexRecord - 1 + entryLength"
  shows "logInMemory (LogEntryInMemory n') j = logInMemory (LogEntryInMemory l) j"
  by (rule AppendEntries_transfer [OF assms])

theorem append_transfers_log_witness:
  "\<exists>resp n'. AppendEntriesService 0 ex_append ex_follower = (Inr resp, n') \<and>
     logInMemory (LogEntryInMemory n') 2 = Some (ex_entry 2 2 ex_info2)"
proof -
  obtain resp n' where r: "AppendEntriesService 0 ex_append ex_follower = (Inr resp, n')" "aer_Success resp"
    using ex_append_accepted by blast
  have "\<forall>j. j < 2 \<longrightarrow> logInMemory (LogEntryInMemory ex_follower) j = logInMemory (LogEntryInMemory (ex_node 1 [2, 3] Leader 2 1)) j"
    by simp
  from append_transfers_log [OF _ _ _ _ _ ex_append_request _ _ r this, of 2] r(1) show ?thesis
    by (simp add: ex_peers_def NewPeerNode_def)
qed

section \<open>The replicated state\<close>

text \<open>
  C8. Applying the committed entries (\<^verbatim>\<open>commitProcedure\<close>) implements the abstract lock
  table: if the state map is where the node believes it is, the table it represents afterwards is
  the one obtained by replaying the newly committed part of the log, entry by entry, on the table
  before; the map and the node then stand at the commit index.
\<close>

theorem commit_refines_replay:
  assumes "wf_Node n" "LastAppliedIndex (NodeContextInstance n) < node_commit n"
    and "prevIndex (StateMapDLock n) = LastAppliedIndex (NodeContextInstance n)"
    and "sorted (prevTerm (StateMapDLock n) #
           map le_Term (log_range (LogEntryInMemory n) (LastAppliedIndex (NodeContextInstance n) + 1) (node_commit n)))"
    and "lock_replay (log_range (LogEntryInMemory n) (LastAppliedIndex (NodeContextInstance n) + 1) (node_commit n))
           (abs_locks (StateMapDLock n)) = Some L"
  shows "abs_locks (StateMapDLock (commitProcedure n)) = L \<and>
    prevIndex (StateMapDLock (commitProcedure n)) = node_commit n \<and>
    LastAppliedIndex (NodeContextInstance (commitProcedure n)) = node_commit n \<and> wf_Node (commitProcedure n)"
  using UpdateStateFromLogMemory_DLock_refines [of "LogEntryInMemory n" "StateMapDLock n" "node_commit n"]
    wf_NodeD [OF assms(1)] assms wf_commitProcedure [OF assms(1)]
  by (auto simp: commitProcedure_DLock)

theorem commit_refines_replay_witness:
  "let n = upd_ctx (\<lambda>nc. nc\<lparr>CommitIndex := 2\<rparr>) (ex_node 1 [2, 3] Leader 2 1)
   in abs_locks (StateMapDLock (commitProcedure n)) = [ex_lock \<mapsto> state_of_info ex_info2]"
proof -
  let ?n = "upd_ctx (\<lambda>nc. nc\<lparr>CommitIndex := 2\<rparr>) (ex_node 1 [2, 3] Leader 2 1)"
  have r: "log_range ex_log 2 2 = [ex_entry 2 2 ex_info2]" by (simp add: log_range_last)
  have "lock_replay (log_range ex_log 2 2) [ex_lock \<mapsto> state_of_info ex_info1] = Some [ex_lock \<mapsto> state_of_info ex_info2]"
    unfolding r by (simp add: lock_accepts_def lock_update_def)
       (simp add: ex_info1_def ex_info2_def ex_info_def state_of_info_def NewDlockState_def)
  with commit_refines_replay [of ?n] r show ?thesis by (simp add: wf_Node_def)
qed

text \<open>
  C9. Replicas agree: two nodes whose logs hold the same entries up to an index reach the same
  lock map there, in however many pieces each of them applies its log.
\<close>

theorem replicas_agree:
  assumes "wf_LogMemory lm" "wf_LogMemory lm'"
    and "\<forall>i. prevIndex sm < i \<longrightarrow> i \<le> k \<longrightarrow> FetchLogEntry lm i = FetchLogEntry lm' i"
    and "sorted_wrt (<) (prevIndex sm # ks)" "ks \<noteq> []" "last ks = k" "k \<le> maximumIndex lm"
    and "sorted_wrt (<) (prevIndex sm # ks')" "ks' \<noteq> []" "last ks' = k" "k \<le> maximumIndex lm'"
  shows "replay_pieces lm ks sm = replay_pieces lm' ks' sm"
proof -
  have lt: "prevIndex sm < k" using assms(4-6) by (auto simp: last_in_set)
  have le: "prevIndex sm + 1 \<le> k" using lt by (rule word_succ_le)
  have "FetchLogEntry lm i = FetchLogEntry lm' i" if "prevIndex sm + 1 \<le> i" "i \<le> k" for i
    using assms(3) that lt by (metis order.strict_trans2 word_less_succ)
  then have "update_loop UpdateStateFromLogEntry_DLock tolerated_DLock lm (prevIndex sm + 1) k sm =
      update_loop UpdateStateFromLogEntry_DLock tolerated_DLock lm' (prevIndex sm + 1) k sm"
    using le by (intro loop_cong)
  then have "UpdateStateFromLogMemory_DLock sm lm (prevIndex sm + 1) k = UpdateStateFromLogMemory_DLock sm lm' (prevIndex sm + 1) k"
    using assms(7,11) by (auto simp: UpdateStateFromLogMemory_DLock_def range_refused_def)
  then show ?thesis
    using replay_pieces_whole [OF assms(1,4,5)] replay_pieces_whole [OF assms(2,8,9)] assms(6,7,10,11) by simp
qed

theorem replicas_agree_witness:
  "replay_pieces ex_log [1, 2] \<lparr>keyword = ''DLock'', StateMap = Map.empty, prevIndex = 0, prevTerm = 0\<rparr> =
   replay_pieces ex_log [2] \<lparr>keyword = ''DLock'', StateMap = Map.empty, prevIndex = 0, prevTerm = 0\<rparr>"
  by (rule replicas_agree [of ex_log ex_log _ 2]) simp_all

text \<open>
  C10. The nonce of a lock counts its updates: after a successful application of a part of the
  log, the nonce has grown by the number of entries for that lock, modulo \<open>2 ^ 32\<close>.
\<close>

theorem nonce_counts_updates:
  assumes "wf_LogMemory lm" "contiguous lm" "prevIndex sm < k" "k \<le> maximumIndex lm" "wf_LockMap sm"
    and "sorted (prevTerm sm # map le_Term (log_range lm (prevIndex sm + 1) k))"
    and "UpdateStateFromLogMemory_DLock sm lm (prevIndex sm + 1) k = (None, sm')"
    and "abs_locks sm name = Some ds"
  shows "\<exists>ds'. abs_locks sm' name = Some ds' \<and>
    ds_LockNonce ds' = ds_LockNonce ds + of_nat (updates_of name (log_range lm (prevIndex sm + 1) k))"
  using UpdateStateFromLogMemory_DLock_refines [OF assms(1-6)] assms(7,8) lock_replay_nonce
  by (fastforce split: option.splits)

theorem nonce_counts_updates_witness:
  "\<exists>sm'. UpdateStateFromLogMemory_DLock ex_locks ex_log 2 2 = (None, sm') \<and>
     (\<exists>ds'. abs_locks sm' ex_lock = Some ds' \<and> ds_LockNonce ds' = 2)"
proof -
  have r: "log_range ex_log 2 2 = [ex_entry 2 2 ex_info2]" by (simp add: log_range_last)
  have a: "lock_replay (log_range ex_log 2 2) [ex_lock \<mapsto> state_of_info ex_info1] \<noteq> None"
    unfolding r by (simp add: lock_accepts_def)
       (simp add: ex_info1_def ex_info2_def ex_info_def state_of_info_def NewDlockState_def)
  obtain sm' where sm': "UpdateStateFromLogMemory_DLock ex_locks ex_log 2 2 = (None, sm')"
    using UpdateStateFromLogMemory_DLock_refines [of ex_log ex_locks 2] r a by auto
  have u: "updates_of ex_lock [ex_entry 2 2 ex_info2] = 1" "ds_LockNonce (state_of_info ex_info1) = 1"
    by (simp_all add: ex_info1_def ex_info2_def ex_info_def state_of_info_def NewDlockState_def
        ex_entry_facts(2) [OF ex_infos(2), unfolded ex_info2_def ex_info_def])
  from nonce_counts_updates [of ex_log ex_locks 2 sm' ex_lock] sm' r u show ?thesis by simp
qed

text \<open>
  C11. A key-value entry does what it says: setting a key makes it map to the value, deleting it
  removes it, both at the next position of the state map; deleting an absent key is refused and
  changes nothing.
\<close>

theorem kv_entry_effect:
  assumes "valid_utf8 key" "keyword sm = ''KVStore''" "prevTerm sm \<le> t"
    and "NewLogEntry t (prevIndex sm + 1) (CommandKVStore (NewCommandKVStore key v)) = Inr e"
  shows "UpdateStateFromLogEntry_KVStore sm (Some e) =
    (if v = None \<and> StateMap sm key = None then (Some InMemoryStateMapDeleteNoKeyError, sm)
     else (None, sm\<lparr>StateMap := (StateMap sm)(key := v), prevIndex := prevIndex sm + 1, prevTerm := t\<rparr>))"
  by (rule UpdateStateFromLogEntry_KVStore_effect [OF assms])

theorem kv_entry_effect_witness:
  "\<exists>e. NewLogEntry 2 2 (CommandKVStore (NewCommandKVStore ex_lock (Some ex_bob))) = Inr e \<and>
     UpdateStateFromLogEntry_KVStore ex_kv (Some e) = (None, ex_kv\<lparr>StateMap := [ex_lock \<mapsto> ex_bob], prevIndex := 2, prevTerm := 2\<rparr>)"
proof -
  obtain e where e: "NewLogEntry 2 2 (CommandKVStore (NewCommandKVStore ex_lock (Some ex_bob))) = Inr e"
    using NewLogEntry_KVStore [of ex_lock] by simp
  with kv_entry_effect [of ex_lock ex_kv 2 "Some ex_bob" e] show ?thesis by (simp add: ex_kv_def)
qed

section \<open>The lock operations of a leader\<close>

text \<open>
  C12. A request to acquire a lock, or to refresh a waiting request, adds to the log only what the
  lock protocol allows: one entry, at the next index and in the current term, that names the
  requested lock and its client, and only if the committed lease of the lock, if there is one, has
  run out; its nonce follows the committed one.
\<close>

theorem acquire_respects_lease:
  assumes "wf_Node n" "wf_Interchange (commitProcedure n) di" "counters_ok di name"
    and "is_request name client command \<and> (\<exists>r. AcquireDLock name ts command n di = (r, n', di')) \<or>
      (\<exists>sequence r. RefreshAcquirementBySequence name client sequence ts n di = (r, n', di'))"
    and "n' \<noteq> commitProcedure n"
  shows "\<exists>e li. n' = node_with_entry (commitProcedure n) e \<and> next_entry (commitProcedure n) e li \<and>
    li_LockName li = name \<and> li_NewOwner li = client \<and> li_Timestamp li = ts \<and> li_LockNonce li = last_nonce di name + 1 \<and>
    (\<forall>ds. abs_locks (StateMapDLock (commitProcedure n)) name = Some ds \<longrightarrow>
       \<not> lease_runs ts ds \<and> li_LockNonce li = ds_LockNonce ds + 1)"
proof -
  have "outcome (why_served client ts) (commitProcedure n) di name n' di'"
    using assms(4) acquire_op.perform_outcome [OF _ assms(1-3)] refresh_op.perform_outcome [OF TrueI assms(1-3)] by blast
  with assms(5) show ?thesis by (fastforce simp: outcome_def why_served_def)
qed

theorem acquire_respects_lease_witness:
  "(\<exists>r n' di' e li. AcquireDLock ex_lock 200 ex_command (ex_node 1 [2, 3] Leader 2 1) ex_interchange = (r, n', di') \<and>
     n' = node_with_entry (ex_node 1 [2, 3] Leader 2 1) e \<and> entry_LockInfo e = Some li \<and> li_NewOwner li = ex_bob \<and> li_LockNonce li = 2) \<and>
   (\<exists>r n' di' e li. RefreshAcquirementBySequence ex_lock ex_bob 1 200 (ex_node 1 [2, 3] Leader 2 1) ex_queued = (r, n', di') \<and>
     n' = node_with_entry (ex_node 1 [2, 3] Leader 2 1) e \<and> entry_LockInfo e = Some li \<and> li_NewOwner li = ex_bob \<and> li_LockNonce li = 2) \<and>
   \<not> lease_runs 200 (state_of_info ex_info1)"
proof -
  let ?n = "ex_node 1 [2, 3] Leader 2 1"
  obtain r n1 d1 where a: "AcquireDLock ex_lock 200 ex_command ?n ex_interchange = (r, n1, d1)" "n1 \<noteq> ?n"
    using ex_acquire by blast
  obtain e li d2 where q: "RefreshAcquirementBySequence ex_lock ex_bob 1 200 ?n ex_queued = (Inr (True, 2), node_with_entry ?n e, d2)" "next_entry ?n e li"
    using ex_refresh by blast
  have "node_with_entry ?n e \<noteq> ?n" by (rule node_with_entry_other [OF q(2)]) simp
  then have "\<exists>e' li. node_with_entry ?n e = node_with_entry ?n e' \<and> next_entry ?n e' li \<and> li_NewOwner li = ex_bob \<and> li_LockNonce li = 2"
    using acquire_respects_lease [of ?n ex_queued ex_lock ex_bob ex_command 200 "node_with_entry ?n e" d2] q(1) by (fastforce simp: ex_state1)
  moreover have "\<exists>e li. n1 = node_with_entry ?n e \<and> next_entry ?n e li \<and> li_NewOwner li = ex_bob \<and> li_LockNonce li = 2 \<and>
      \<not> lease_runs 200 (state_of_info ex_info1)"
    using acquire_respects_lease [of ?n ex_interchange ex_lock ex_bob ex_command 200 n1 d1] ex_request a by (fastforce simp: ex_state1)
  ultimately show ?thesis using a(1) q(1) by (simp add: next_entry_def) metis
qed

text \<open>
  C13. Only the owner releases a lock: a release appends an entry only if the committed owner is
  the client that asks; the entry empties the owner and its nonce follows the committed one.
\<close>

theorem release_only_by_owner:
  assumes "wf_Node n" "wf_Interchange (commitProcedure n) di" "counters_ok di name"
    and "ReleaseDLock name applicant ts n di = (r, n', di')" "n' \<noteq> commitProcedure n"
  shows "\<exists>e li ds. abs_locks (StateMapDLock (commitProcedure n)) name = Some ds \<and> ds_Owner ds = applicant \<and>
    n' = node_with_entry (commitProcedure n) e \<and> next_entry (commitProcedure n) e li \<and>
    li_LockName li = name \<and> li_NewOwner li = [] \<and> li_Expire li = 0 \<and> li_LockNonce li = ds_LockNonce ds + 1"
  using release_op.perform_outcome [OF TrueI assms(1-4)] assms(5)
  by (fastforce simp: outcome_def why_released_def)

theorem release_only_by_owner_witness:
  "\<exists>r n' di' li e. ReleaseDLock ex_lock ex_alice 120 (ex_node 1 [2, 3] Leader 2 1) ex_interchange = (r, n', di') \<and>
     n' = node_with_entry (ex_node 1 [2, 3] Leader 2 1) e \<and> entry_LockInfo e = Some li \<and> li_NewOwner li = [] \<and> li_LockNonce li = 2"
proof -
  obtain r e li di' where r: "ReleaseDLock ex_lock ex_alice 120 (ex_node 1 [2, 3] Leader 2 1) ex_interchange =
      (r, node_with_entry (ex_node 1 [2, 3] Leader 2 1) e, di')" "next_entry (ex_node 1 [2, 3] Leader 2 1) e li"
    using ex_release by blast
  have "node_with_entry (ex_node 1 [2, 3] Leader 2 1) e \<noteq> ex_node 1 [2, 3] Leader 2 1"
    by (rule node_with_entry_other [OF r(2)]) simp
  with release_only_by_owner [OF _ _ _ r(1)] r(1) show ?thesis by (fastforce simp: next_entry_def ex_state1)
qed

text \<open>
  C14. At most one entry per lock is in flight: while the last appended nonce of a lock is not the
  committed one, none of the three operations appends another entry. This includes a new lock: it has no
  committed state, its committed nonce counts as 0, and while its first entry is in flight the
  others wait.
\<close>

theorem one_uncommitted_entry:
  assumes "wf_Node n" "wf_Interchange (commitProcedure n) di" "counters_ok di name" "is_request name client command"
    and "(case abs_locks (StateMapDLock (commitProcedure n)) name of None \<Rightarrow> 0 | Some ds \<Rightarrow> ds_LockNonce ds) \<noteq> last_nonce di name"
  shows "fst (snd (AcquireDLock name ts command n di)) = commitProcedure n \<and>
    fst (snd (RefreshAcquirementBySequence name client sequence ts n di)) = commitProcedure n \<and>
    fst (snd (ReleaseDLock name applicant ts n di)) = commitProcedure n"
proof -
  have "base_nonce (abs_locks (StateMapDLock (commitProcedure n))) name \<noteq> last_nonce di name"
    using assms(5) by (simp add: base_nonce_def)
  then show ?thesis
    using acquire_run.nothing_second [OF assms(4,1-3)] refresh_run.nothing_second [OF TrueI assms(1-3)]
      release_run.nothing_second [OF TrueI assms(1-3)]
    by blast
qed

theorem one_uncommitted_entry_witness:
  "fst (snd (AcquireDLock ex_new_lock 200 (NewCommandDLock 0 ex_new_lock ex_bob 200 50) (ex_node 1 [2, 3] Leader 2 1) ex_first)) =
     ex_node 1 [2, 3] Leader 2 1 \<and>
   fst (snd (ReleaseDLock ex_lock ex_alice 200 (ex_node 1 [2, 3] Leader 2 1) ex_waiting)) = ex_node 1 [2, 3] Leader 2 1"
proof
  have r: "is_request ex_new_lock ex_bob (NewCommandDLock 0 ex_new_lock ex_bob 200 50)" by (rule is_request_new) simp_all
  show "fst (snd (AcquireDLock ex_new_lock 200 (NewCommandDLock 0 ex_new_lock ex_bob 200 50) (ex_node 1 [2, 3] Leader 2 1) ex_first)) =
     ex_node 1 [2, 3] Leader 2 1"
    using one_uncommitted_entry [of "ex_node 1 [2, 3] Leader 2 1" ex_first ex_new_lock ex_bob, OF _ _ _ r] by simp
  show "fst (snd (ReleaseDLock ex_lock ex_alice 200 (ex_node 1 [2, 3] Leader 2 1) ex_waiting)) = ex_node 1 [2, 3] Leader 2 1"
    using one_uncommitted_entry [of "ex_node 1 [2, 3] Leader 2 1" ex_waiting ex_lock ex_bob, OF _ _ _ ex_request]
    by (simp add: ex_state1)
qed

text \<open>
  C15. The lock operations keep the invariants: after acquiring, refreshing or releasing, the node
  and the interchange are well-formed, and the committed state, the term and the commit index are
  those after applying the committed entries.
\<close>

theorem lock_operations_keep_invariants:
  assumes "wf_Node n" "wf_Interchange (commitProcedure n) di" "counters_ok di name" "maximumIndex (LogEntryInMemory n) \<noteq> - 1"
    and "is_request name client command"
    and "(r, n', di') \<in> {map_prod (map_sum id (\<lambda>_. ())) id (AcquireDLock name ts command n di),
       map_prod (map_sum id (\<lambda>_. ())) id (RefreshAcquirementBySequence name client sequence ts n di),
       map_prod (map_sum id (\<lambda>_. ())) id (ReleaseDLock name client ts n di)}"
  shows "wf_Node n' \<and> wf_Interchange n' di' \<and> StateMapDLock n' = StateMapDLock (commitProcedure n) \<and>
    node_term n' = node_term n \<and> node_commit n' = node_commit n"
proof -
  obtain r1 n1 d1 r2 n2 d2 r3 n3 d3 where e: "AcquireDLock name ts command n di = (r1, n1, d1)"
      "RefreshAcquirementBySequence name client sequence ts n di = (r2, n2, d2)" "ReleaseDLock name client ts n di = (r3, n3, d3)"
    by (metis prod_cases3)
  then have "(n', di') \<in> {(n1, d1), (n2, d2), (n3, d3)}" using assms(6) by auto
  then show ?thesis
    using acquire_op.well_formed_after [OF assms(5,1-3) e(1) assms(4)] refresh_op.well_formed_after [OF TrueI assms(1-3) e(2) assms(4)]
      release_op.well_formed_after [OF TrueI assms(1-3) e(3) assms(4)]
    by auto
qed

theorem lock_operations_keep_invariants_witness:
  "let (r, n', di') = ReleaseDLock ex_lock ex_bob 120 (ex_node 1 [2, 3] Leader 2 1) ex_interchange
   in wf_Node n' \<and> wf_Interchange n' di'"
proof -
  obtain r n' di' where r: "ReleaseDLock ex_lock ex_bob 120 (ex_node 1 [2, 3] Leader 2 1) ex_interchange = (r, n', di')" by (metis prod_cases3)
  from lock_operations_keep_invariants [of "ex_node 1 [2, 3] Leader 2 1" ex_interchange ex_lock ex_bob ex_command
      "map_sum id (\<lambda>_. ()) r" n' di' 120, OF _ _ _ _ ex_request] r
  show ?thesis by simp
qed

text \<open>
  C16. Acquiring a free lock succeeds at once: if the committed lease has run out, nobody waits
  and nothing is uncommitted, the answer is sequence 0 with the next nonce, and the entry that
  gives the lock to the client is in the log.
\<close>

theorem acquire_free_lock:
  assumes "wf_Node n" "abs_locks (StateMapDLock (commitProcedure n)) name = Some ds"
    and "PendingAcquire di name = Some a" "LastAppendedNonce a = ds_LockNonce ds"
      "lastProcessedAcquirement a = lastAssignedAcquirement a"
    and "i64_less (ds_Timestamp ds + ds_Expire ds) ts" "is_request name client command"
  shows "\<exists>e li. AcquireDLock name ts command n di =
      (Inr (0, ds_LockNonce ds + 1), node_with_entry (commitProcedure n) e,
       put_acq name (a\<lparr>LastAppendedNonce := LastAppendedNonce a + 1\<rparr>) di) \<and>
    next_entry (commitProcedure n) e li \<and> li_LockName li = name \<and> li_NewOwner li = client \<and>
    li_Timestamp li = ts \<and> li_LockNonce li = ds_LockNonce ds + 1"
  by (rule AcquireDLock_free [OF assms])

theorem acquire_free_lock_witness:
  "\<exists>e li. AcquireDLock ex_lock 200 ex_command (ex_node 1 [2, 3] Leader 2 1) ex_interchange =
      (Inr (0, 2), node_with_entry (ex_node 1 [2, 3] Leader 2 1) e,
       put_acq ex_lock ((NewDlockVolatileAcquirement ex_lock 1)\<lparr>LastAppendedNonce := 2\<rparr>) ex_interchange) \<and>
     next_entry (ex_node 1 [2, 3] Leader 2 1) e li \<and> li_NewOwner li = ex_bob"
proof -
  have "i64_less (100 + 50) 200" by (simp add: i64_less_def)
  with acquire_free_lock [of "ex_node 1 [2, 3] Leader 2 1" ex_lock "state_of_info ex_info1" ex_interchange
      "NewDlockVolatileAcquirement ex_lock 1" 200 ex_bob, OF _ _ _ _ _ _ ex_request]
  show ?thesis by (fastforce simp: ex_state1 ex_interchange_def NewDlockVolatileAcquirement_def)
qed

text \<open>
  C17. The client at the head of the queue gets the lock: its first refresh after the lease has run
  out and the last entry is committed appends the entry that gives it the lock, and returns the
  nonce of that entry.
\<close>

theorem head_of_queue_served:
  assumes "wf_Node n" "abs_locks (StateMapDLock (commitProcedure n)) name = Some ds"
    and "PendingAcquire di name = Some a" "wf_Acquirement a" "va_LockName a = name" "LastAppendedNonce a = ds_LockNonce ds"
    and "dropWhile (\<lambda>p. acq_expired ts (snd p)) (pending a) = (sequence, info) # rest" "Acquirer info = client"
      "\<not> acq_expired ts (info\<lparr>LastRefreshedTimestamp := ts\<rparr>)" "\<not> lease_runs ts ds"
  shows "\<exists>e li di'. RefreshAcquirementBySequence name client sequence ts n di =
      (Inr (True, ds_LockNonce ds + 1), node_with_entry (commitProcedure n) e, di') \<and>
    next_entry (commitProcedure n) e li \<and> li_LockName li = name \<and> li_NewOwner li = client \<and>
    li_Timestamp li = ts \<and> li_LockNonce li = ds_LockNonce ds + 1"
  by (rule RefreshAcquirementBySequence_head [OF assms])

theorem head_of_queue_served_witness:
  "\<exists>e li di'. RefreshAcquirementBySequence ex_lock ex_bob 1 200 (ex_node 1 [2, 3] Leader 2 1) ex_queued =
      (Inr (True, 2), node_with_entry (ex_node 1 [2, 3] Leader 2 1) e, di') \<and>
    next_entry (ex_node 1 [2, 3] Leader 2 1) e li \<and> li_NewOwner li = ex_bob"
proof -
  let ?info = "NewDlockAcquirementInfo ex_bob 150 500 ex_command"
  have alive: "\<not> acq_expired 200 ?info" "\<not> acq_expired 200 (?info\<lparr>LastRefreshedTimestamp := 200\<rparr>)"
    by (simp_all add: acq_expired_def NewDlockAcquirementInfo_def i64_less_def)
  have "Acquirer ?info = ex_bob" by (simp add: NewDlockAcquirementInfo_def)
  moreover have "\<not> lease_runs 200 (state_of_info ex_info1)" by (simp add: lease_runs_def ex_state1 i64_less_def)
  moreover have "dropWhile (\<lambda>p. acq_expired 200 (snd p)) (pending ex_queue) = [(1, ?info)]" using alive by simp
  ultimately show ?thesis
    using head_of_queue_served [of "ex_node 1 [2, 3] Leader 2 1" ex_lock "state_of_info ex_info1" ex_queued ex_queue
        200 1 ?info "[]" ex_bob] alive(2)
    by (fastforce simp: ex_queued_def ex_state1)
qed

text \<open>
  C18. The periodic scan releases exactly the locks that are due: for every lock whose lease has
  run out, that has an owner and no uncommitted entry, and for no other lock, it appends one
  entry, in the order of the scan, at the next index and in the current term; the entry empties
  the owner and its nonce follows the committed one. The scan does not fail and keeps the node and
  the interchange well-formed.
\<close>

theorem scan_releases_expired:
  assumes "wf_Node n" "wf_Interchange n di" "enumerates order n"
    and "unat (maximumIndex (LogEntryInMemory n)) + length order < 2 ^ 64"
      "\<forall>name ds. abs_locks (StateMapDLock n) name = Some ds \<longrightarrow> ds_LockNonce ds \<noteq> - 1"
  shows "\<exists>es n' di'. scanDLockStateMap order ts n di = (None, n', di') \<and>
    release_entries n ts 0 (filter (must_release n di ts) order) es \<and>
    LogEntryInMemory n' = foldl put_entry (LogEntryInMemory n) es \<and> wf_Node n' \<and> wf_Interchange n' di' \<and>
    (\<forall>name ds. abs_locks (StateMapDLock n) name = Some ds \<longrightarrow>
       (\<exists>a. PendingAcquire di' name = Some a \<and> (must_release n di ts name \<longrightarrow> LastAppendedNonce a = ds_LockNonce ds + 1)))"
  using scanDLockStateMap_spec [OF assms] by blast

theorem scan_releases_expired_witness:
  "\<exists>e n' di'. scanDLockStateMap [ex_lock] 200 (ex_node 1 [2, 3] Leader 2 1) ex_interchange = (None, n', di') \<and>
     LogEntryInMemory n' = put_entry ex_log e \<and> le_Index e = 3 \<and>
     entry_LockInfo e = Some \<lparr>li_LockNonce = 2, li_LockName = ex_lock, li_NewOwner = [], li_Timestamp = 200, li_Expire = 0\<rparr>"
proof -
  have "must_release (ex_node 1 [2, 3] Leader 2 1) ex_interchange 200 ex_lock"
    by (simp add: must_release_def ex_interchange_def ex_state1 i64_less_def)
  with scan_releases_expired [of "ex_node 1 [2, 3] Leader 2 1" ex_interchange "[ex_lock]" 200] ex_scan_room
  show ?thesis by (fastforce simp: release_info_def ex_state1 split: list.splits)
qed

text \<open>
  C19. A new leader is ready to serve the locks: it stays in its term, sends every peer the end of
  its log first, and its interchange belongs to the term, is well-formed and has a queue for every
  lock of the committed state.
\<close>

theorem leader_starts_ready:
  assumes "wf_Node n" "enumerates order (commitProcedure n)"
    and "unat (maximumIndex (LogEntryInMemory n)) + length order < 2 ^ 64"
      "\<forall>name ds. abs_locks (StateMapDLock (commitProcedure n)) name = Some ds \<longrightarrow> ds_LockNonce ds \<noteq> - 1"
    and "n' = BecomeLeader order now n"
  shows "node_state n' = Leader \<and> node_term n' = node_term n \<and>
    (\<forall>p \<in> set (PeerList n'). NextIndex p = maximumIndex (LogEntryInMemory n') + 1) \<and>
    (\<exists>di. DlockInterchangeInstance n' = Some di \<and> LeaderTerm di = node_term n \<and> wf_Interchange n' di \<and>
       (\<forall>name ds. abs_locks (StateMapDLock n') name = Some ds \<longrightarrow> PendingAcquire di name \<noteq> None))"
proof -
  define n1 where "n1 = upd_ctx (\<lambda>nc. nc\<lparr>NodeState := Leader\<rparr>) n"
  have c: "StateMapDLock (commitProcedure n1) = StateMapDLock (commitProcedure n)" by (simp add: n1_def commitProcedure_DLock)
  have "wf_Node (commitProcedure n1)" unfolding n1_def by (intro wf_intros assms(1)) simp_all
  moreover have "wf_Interchange (commitProcedure n1) (NewDlockInterchange n1)"
    by (simp add: wf_Interchange_def NewDlockInterchange_def)
  moreover have "enumerates order (commitProcedure n1)" using assms(2) c by (simp add: enumerates_def)
  ultimately obtain n2 di where s: "scanDLockStateMap order now (commitProcedure n1) (NewDlockInterchange n1) = (None, n2, di)"
      "StateMapDLock n2 = StateMapDLock (commitProcedure n1)" "wf_Interchange n2 di"
      "\<forall>name ds. abs_locks (StateMapDLock (commitProcedure n1)) name = Some ds \<longrightarrow> PendingAcquire di name \<noteq> None"
    using scanDLockStateMap_spec [of "commitProcedure n1" "NewDlockInterchange n1" order now] assms(3,4) c
    by (fastforce simp: n1_def)
  have "LeaderTerm di = node_term n" using scan_LeaderTerm [OF s(1)] by (simp add: NewDlockInterchange_def n1_def)
  moreover have "n' = go HeartBeat ((go (ReleaseExpiredDLockPeriodically (LeaderTerm di)) (n2\<lparr>DlockInterchangeInstance := Some di\<rparr>))
      \<lparr>PeerList := map (\<lambda>p. p\<lparr>NextIndex := maximumIndex (LogEntryInMemory n2) + 1\<rparr>) (PeerList n2)\<rparr>)"
    using s(1) by (simp add: assms(5) BecomeLeader_def Let_def InitFromDLockStateMap_def n1_def MaximumIndex_def)
  ultimately show ?thesis
    using s(2-4) BecomeLeader_election [of order now n] by (auto simp: wf_Interchange_def simp flip: assms(5))
qed

theorem leader_starts_ready_witness:
  "\<exists>di. DlockInterchangeInstance (BecomeLeader [ex_lock] 200 (ex_node 1 [2, 3] Candidate 3 1)) = Some di \<and> LeaderTerm di = 3 \<and>
     wf_Interchange (BecomeLeader [ex_lock] 200 (ex_node 1 [2, 3] Candidate 3 1)) di"
  using leader_starts_ready [of "ex_node 1 [2, 3] Candidate 3 1" "[ex_lock]" _ 200, OF _ _ _ _ refl] ex_scan_room
  by (auto simp: ex_state1)

section \<open>The queue of a lock\<close>

text \<open>
  C20. The queue of a lock serves in the order of arrival: whatever the times at which requests are
  taken from it, what is left is always a suffix of what was there, and as many calls as there are
  requests leave it empty.
\<close>

theorem queue_serves_in_order:
  assumes "wf_Acquirement dva"
  shows "let rest = pending (fold (\<lambda>ts q. snd (FetchFirstValidAcquirement q True ts)) tss dva) in
    (\<exists>k. rest = drop k (pending dva)) \<and> (length (pending dva) \<le> length tss \<longrightarrow> rest = [])"
  using acq_queue.serve_all_suffix [OF assms, of tss] acq_queue.served_within [OF assms, of tss]
  unfolding acq_queue.serve_def [abs_def] by (simp add: Let_def)

theorem queue_serves_in_order_witness:
  "pending (snd (FetchFirstValidAcquirement ex_queue True 200)) = []"
  using queue_serves_in_order [OF ex_queue_wf, of "[200]"] by (simp add: Let_def)

text \<open>
  C21. A client has one place in the queue of a lock: a new request first drops the expired ones at
  the head; if the client still waits it gets the sequence number it has, otherwise it is put at
  the end with the next number.
\<close>

theorem one_place_per_client:
  assumes "wf_Acquirement dva" "GetAsDLockInfo command = Inr li" "li_LockName li = va_LockName dva"
    and "wf_command (CommandDLock command)" "lastAssignedAcquirement dva + 1 \<noteq> - 1"
  shows "\<exists>dva'. wf_Acquirement dva' \<and>
    (let q = dropWhile (\<lambda>p. acq_expired ts (snd p)) (pending dva) in
     case find (\<lambda>p. Acquirer (snd p) = li_NewOwner li) q of
       Some p \<Rightarrow> InsertNewAcquirement dva command ts ex = (Inr (fst p), dva') \<and> pending dva' = q
     | None \<Rightarrow> InsertNewAcquirement dva command ts ex = (Inr (lastAssignedAcquirement dva + 1), dva') \<and>
         pending dva' = q @ [(lastAssignedAcquirement dva + 1, NewDlockAcquirementInfo (li_NewOwner li) ts ex command)])"
  using InsertNewAcquirement_spec [OF assms] by blast

theorem one_place_per_client_witness:
  "\<exists>dva'. InsertNewAcquirement ex_queue ex_command 200 500 = (Inr 1, dva') \<and>
     pending dva' = [(1, NewDlockAcquirementInfo ex_bob 150 500 ex_command)]"
proof -
  have "\<not> acq_expired 200 (NewDlockAcquirementInfo ex_bob 150 500 ex_command)"
    "Acquirer (NewDlockAcquirementInfo ex_bob 150 500 ex_command) = ex_bob"
    by (simp_all add: acq_expired_def NewDlockAcquirementInfo_def i64_less_def)
  with one_place_per_client [OF ex_queue_wf ex_command_decoded(1) _ ex_command_decoded(2), of 200 500]
  show ?thesis by (auto simp: ex_info_def Let_def)
qed

section \<open>The services for clients\<close>

text \<open>
  C22. When the acquire service answers a new request as not pending, or a refresh of a waiting
  request as not pending with a nonce, the entry that gives the lock to the client is in the log of
  the leader, with the nonce the client is told. (A refresh answered as not pending with nonce 0 says
  only that the sequence number is not in the queue.)
\<close>

theorem acquire_service_grants:
  assumes "DlockInterchangeInstance n = Some di"
    and "wf_Node n" "wf_Interchange (commitProcedure n) di" "counters_ok di (acq_LockName request)"
    and "valid_utf8 (acq_LockName request)" "valid_utf8 (acq_ClientID request)"
    and "AcquireDLockService r ts request n = ((Some response, None), n')" "\<not> acr_Pending response"
    and "acq_Sequence request = 0 \<or> acr_Nonce response \<noteq> 0"
  shows "\<exists>e li. LogEntryInMemory n' = put_entry (LogEntryInMemory n) e \<and> next_entry (commitProcedure n) e li \<and>
    li_LockName li = acq_LockName request \<and> li_NewOwner li = acq_ClientID request \<and> li_LockNonce li = acr_Nonce response"
  by (rule AcquireDLockService_grants [OF assms, unfolded grants_def])

theorem acquire_service_grants_witness:
  "(\<exists>response n' e li. AcquireDLockService 0 200 ex_acquire_request (ex_leader ex_interchange) = ((Some response, None), n') \<and>
      LogEntryInMemory n' = put_entry ex_log e \<and> entry_LockInfo e = Some li \<and> li_NewOwner li = ex_bob \<and>
      li_LockNonce li = acr_Nonce response) \<and>
   (\<exists>response n' e li. AcquireDLockService 0 200 ex_refresh_request (ex_leader ex_queued) = ((Some response, None), n') \<and>
      LogEntryInMemory n' = put_entry ex_log e \<and> entry_LockInfo e = Some li \<and> li_NewOwner li = ex_bob \<and> li_LockNonce li = 2)"
proof
  obtain response n' where r: "AcquireDLockService 0 200 ex_acquire_request (ex_leader ex_interchange) = ((Some response, None), n')"
      "\<not> acr_Pending response"
    using ex_acquire_service by blast
  from acquire_service_grants [of "ex_leader ex_interchange" ex_interchange ex_acquire_request, OF _ _ _ _ _ _ r] r(1)
  show "\<exists>response n' e li. AcquireDLockService 0 200 ex_acquire_request (ex_leader ex_interchange) = ((Some response, None), n') \<and>
      LogEntryInMemory n' = put_entry ex_log e \<and> entry_LockInfo e = Some li \<and> li_NewOwner li = ex_bob \<and>
      li_LockNonce li = acr_Nonce response"
    by (auto simp: ex_acquire_request_def next_entry_def)
next
  obtain response n' where r: "AcquireDLockService 0 200 ex_refresh_request (ex_leader ex_queued) = ((Some response, None), n')"
      "\<not> acr_Pending response" "acr_Nonce response = 2"
    using ex_refresh_service by blast
  from acquire_service_grants [of "ex_leader ex_queued" ex_queued ex_refresh_request, OF _ _ _ _ _ _ r(1,2)] r
  show "\<exists>response n' e li. AcquireDLockService 0 200 ex_refresh_request (ex_leader ex_queued) = ((Some response, None), n') \<and>
      LogEntryInMemory n' = put_entry ex_log e \<and> entry_LockInfo e = Some li \<and> li_NewOwner li = ex_bob \<and> li_LockNonce li = 2"
    by (auto simp: ex_refresh_request_def next_entry_def)
qed

text \<open>
  C23. What a committed answer of the put service means: the node was the leader and put the command
  at the end of its log, and at some later tick the commit index covered that index and the log had
  an entry of the same term there.
\<close>

theorem put_committed_meaning:
  assumes "valid_utf8 key" "PutStateKVService r key content n events = (Some (Some response, err), n')" "put_Committed response"
  shows "node_state n = Leader \<and> err = None \<and>
    (\<exists>e m e'. NewLogEntry (node_term n) (maximumIndex (LogEntryInMemory n) + 1) (CommandKVStore (NewCommandKVStore key content)) = Inr e \<and>
       LogEntryInMemory n' = put_entry (LogEntryInMemory n) e \<and> Tick m \<in> set events \<and> le_Index e \<le> node_commit m \<and>
       FetchLogEntry (LogEntryInMemory m) (le_Index e) = Inr e' \<and> le_Term e' = le_Term e)"
  using assms
  by (auto simp: PutStateKVService_def PutStateKV_begin_def PutStateKV_append_def Let_def InsertLogEntry_def MaximumIndex_def
      dest!: PutStateKV_wait_committed split: put_start.splits prod.splits sum.splits if_splits)

theorem put_committed_meaning_witness:
  "\<exists>m e. PutStateKVService 0 ex_lock (Some ex_bob) (ex_leader ex_interchange) [Tick m] =
       (Some (Some \<lparr>put_Committed = True, put_CurrentLeader = []\<rparr>, None),
        Unlock (upd_ctx TriggerAEChannel ((Lock (ex_leader ex_interchange))\<lparr>LogEntryInMemory := put_entry ex_log e\<rparr>))) \<and>
     (\<exists>e m' e'. NewLogEntry 2 3 (CommandKVStore (NewCommandKVStore ex_lock (Some ex_bob))) = Inr e \<and> m' = m \<and>
        le_Index e \<le> node_commit m \<and> FetchLogEntry (LogEntryInMemory m) (le_Index e) = Inr e' \<and> le_Term e' = le_Term e)"
proof -
  obtain e m where r: "PutStateKVService 0 ex_lock (Some ex_bob) (ex_leader ex_interchange) [Tick m] =
     (Some (Some \<lparr>put_Committed = True, put_CurrentLeader = []\<rparr>, None),
      Unlock (upd_ctx TriggerAEChannel ((Lock (ex_leader ex_interchange))\<lparr>LogEntryInMemory := put_entry ex_log e\<rparr>)))"
    using ex_put by blast
  from put_committed_meaning [OF _ r] r show ?thesis by simp metis
qed

text \<open>
  C24. When the release service answers, at once or after waiting, that the lock is released and
  returns no error, the release is in the log: at the first call or at a tick of the wait, the next
  entry of the log empties the owner of the lock, its nonce is the one the client is told, and the
  client was the committed owner.
\<close>

theorem release_service_releases:
  assumes "ReleaseDLockService r ts lockName clientId n events = (Some (Some response, None), n')" "rel_Released response"
    and "wf_Node n" "\<forall>t m. ReleaseTick t m \<in> set events \<longrightarrow> wf_Node m"
  shows "\<exists>m e li ds. (m = n \<or> (\<exists>t. ReleaseTick t m \<in> set events)) \<and>
    LogEntryInMemory n' = put_entry (LogEntryInMemory m) e \<and> next_entry (commitProcedure m) e li \<and>
    li_LockName li = lockName \<and> li_NewOwner li = [] \<and> li_LockNonce li = rel_Nonce response \<and>
    abs_locks (StateMapDLock (commitProcedure m)) lockName = Some ds \<and> ds_Owner ds = clientId"
  using ReleaseDLockService_releases [OF assms] unfolding releases_def by blast

theorem release_service_releases_witness:
  "\<exists>response n' e li. ReleaseDLockService 0 110 ex_lock ex_alice ex_early_leader [ReleaseTick 120 (ex_leader ex_interchange)] =
       (Some (Some response, None), n') \<and>
     LogEntryInMemory n' = put_entry ex_log e \<and> entry_LockInfo e = Some li \<and> li_NewOwner li = [] \<and> li_LockNonce li = 2"
proof -
  obtain response n' where r: "ReleaseDLockService 0 110 ex_lock ex_alice ex_early_leader [ReleaseTick 120 (ex_leader ex_interchange)] =
      (Some (Some response, None), n')" "rel_Released response" "rel_Nonce response = 2"
    using ex_release_service by blast
  from release_service_releases [OF r(1,2)] r(1,3) show ?thesis by (auto simp: next_entry_def)
qed



text \<open>
  C26. A node that does not lead sends the client to the leader it knows: with a configuration that
  passed the checks, the address is that of the peer whose identifier it has recorded, and a peer
  chosen by the random number when it knows none.
\<close>

theorem redirect_to_leader:
  assumes "wf_Config (NodeConfigInstance n)" "PeerId (NodeConfigInstance n) \<noteq> []"
    and "HopToCurrentLeaderId (NodeContextInstance n) \<in> insert 0 (set (PeerId (NodeConfigInstance n)))"
  shows "\<exists>k < length (PeerId (NodeConfigInstance n)). redirect r n = Inr (PeerCliAddress (NodeConfigInstance n) ! k) \<and>
    (HopToCurrentLeaderId (NodeContextInstance n) = 0 \<or>
     PeerId (NodeConfigInstance n) ! k = HopToCurrentLeaderId (NodeContextInstance n))"
proof (cases "HopToCurrentLeaderId (NodeContextInstance n) = 0")
  case True
  have "length (PeerCliAddress (NodeConfigInstance n)) = length (PeerId (NodeConfigInstance n))" using assms(1) by (simp add: wf_Config_def)
  with True redirect_unknown [OF assms(1,2) True, of r] show ?thesis by (metis in_set_conv_nth)
next
  case False
  with assms redirect_known [of n r] show ?thesis by auto
qed

theorem redirect_to_leader_witness:
  "redirect 5 ex_informed = Inr ''d3'' \<and> redirect 5 (ex_node 2 [1, 3] Follower 2 0) = Inr ''d''"
proof
  obtain k where "k < Suc (Suc 0)" "redirect 5 ex_informed = Inr ([''d1'', ''d3''] ! k)" "[1, 3 :: u32] ! k = 3"
    using redirect_to_leader [of ex_informed 5] by auto
  then show "redirect 5 ex_informed = Inr ''d3''" by (auto simp: less_Suc_eq)
next
  have "wf_Config (ex_config 2 [1, 3])" 
    by (simp add: wf_Config_def ex_config_def slice_def parameter_fields_def ex_params_def)
  moreover have "HopToCurrentLeaderId (NodeContextInstance (ex_node 2 [1, 3] Follower 2 0)) = 0" by (simp add: ex_node_def NewNodeContext_def)
  moreover have "PeerCliAddress (ex_config 2 [1, 3]) = [''d'', ''d'']" by (simp add: ex_config_def slice_def)
  ultimately show "redirect 5 (ex_node 2 [1, 3] Follower 2 0) = Inr ''d''"
    using redirect_to_leader [of "ex_node 2 [1, 3] Follower 2 0" 5] by (auto simp: less_Suc_eq)
qed

section \<open>The client library\<close>

text \<open>
  C27. What success of acquiring means to a client: a node that did not redirect it answered its
  request; the answer was not pending (or had no sequence number) and gave the nonce the client goes
  by, or it was pending and a refresh with its sequence number was later answered as not pending
  with that nonce; and a query found the lock at that nonce or a later one.
\<close>

theorem client_acquire_confirmed:
  assumes "Client_AcquireDLock address lockName expire tmo attempts events drc = Some (True, drc')"
  shows "\<exists>response nonce. answered (acquire_request lockName (ClientId drc) expire) attempts response \<and>
    told_nonce (acquire_request lockName (ClientId drc) expire) response events nonce \<and> confirmed lockName events nonce"
  by (rule Client_AcquireDLock_true [OF assms])

theorem client_acquire_confirmed_witness:
  "\<exists>nonce. nonce = 2 \<and>
     told_nonce (acquire_request ex_lock ex_bob 50) ex_pending
       [RefreshTick (ex_grpc, \<lambda>_ _ _. Inr ex_granted), QueryTick (ex_grpc, \<lambda>_ _ _. Inr ex_held)] nonce \<and>
     confirmed ex_lock [RefreshTick (ex_grpc, \<lambda>_ _ _. Inr ex_granted), QueryTick (ex_grpc, \<lambda>_ _ _. Inr ex_held)] nonce"
proof -
  let ?events = "[RefreshTick (ex_grpc, \<lambda>_ _ _. Inr ex_granted), QueryTick (ex_grpc, \<lambda>_ _ _. Inr ex_held)]"
  have id: "ClientId ex_client = ex_bob" by (simp add: ex_client_def NewDLockRaftClientAPI_def ex_bob_def)
  obtain drc' where "Client_AcquireDLock ''addr'' ex_lock 50 None [((ex_grpc, \<lambda>_ _ _. Inr ex_pending), 0)] ?events ex_client = Some (True, drc')"
    using ex_client_acquire by blast
  from client_acquire_confirmed [OF this] obtain response nonce where
      a: "answered (acquire_request ex_lock ex_bob 50) [((ex_grpc, \<lambda>_ _ _. Inr ex_pending), 0)] response"
        "told_nonce (acquire_request ex_lock ex_bob 50) response ?events nonce" "confirmed ex_lock ?events nonce"
    unfolding id by blast
  have "response = ex_pending" using a(1) by (auto simp: answered_def)
  moreover from this a(2) have "nonce = 2" by (auto simp: told_nonce_def ex_pending_def ex_granted_def)
  ultimately show ?thesis using a(2,3) by blast
qed



section \<open>Persistence\<close>

text \<open>
  C29. A backup followed by a restart recovers the committed state: when the file holds the log up to
  the last backup, a backup writes the rest of the committed entries, and a node started from that
  file has the committed part of the log, both state maps, and commit, applied and backup index at
  the old commit index; its term is that of the last committed entry and its vote is lost.
\<close>

theorem backup_then_restart:
  assumes "wf_Node n" "disk_ok pb n" "LastBackupIndex (NodeContextInstance n) \<le> node_commit n" "1 \<le> node_commit n"
    and "\<forall>i e. logInMemory (LogEntryInMemory n) i = Some e \<longrightarrow> pb_roundtrip pb (le_Entry e)"
    and "NewStateMapMemoryDLock ''DLock'' = Inr dl0" "NewStateMapMemoryKVStore ''KVStore'' = Inr kv0"
      "UpdateStateFromLogMemory_DLock dl0 (LogEntryInMemory n) 1 (node_commit n) = (None, StateMapDLock n)"
      "UpdateStateFromLogMemory_KVStore kv0 (LogEntryInMemory n) 1 (node_commit n) = (None, StateMapKVStore n)"
    and "wf_Config c" "PeerId c \<noteq> []"
  shows "\<exists>f n'. DiskLogEntry (NodeContextInstance (backupProcedure pb n)) = Some f \<and>
    NewNode pb (Inr c) None (Inr f) now = Inr n' \<and>
    LogEntryInMemory n' = prefix_log (LogEntryInMemory n) (node_commit n) \<and>
    StateMapDLock n' = StateMapDLock n \<and> StateMapKVStore n' = StateMapKVStore n \<and>
    node_commit n' = node_commit n \<and> LastAppliedIndex (NodeContextInstance n') = node_commit n \<and>
    LastBackupIndex (NodeContextInstance n') = node_commit n \<and> VotedPeer (NodeContextInstance n') = 0 \<and>
    (\<exists>e. logInMemory (LogEntryInMemory n) (node_commit n) = Some e \<and> node_term n' = le_Term e)"
proof -
  let ?b = "backupProcedure pb n"
  have fields: "LogEntryInMemory ?b = LogEntryInMemory n" "StateMapDLock ?b = StateMapDLock n" "StateMapKVStore ?b = StateMapKVStore n"
      "node_commit ?b = node_commit n" "LastAppliedIndex (NodeContextInstance ?b) = LastAppliedIndex (NodeContextInstance n)"
    by (auto simp: backupProcedure_def Let_def split: option.split sum.split prod.split)
  note b = backupProcedure_disk_ok [OF assms(1-3,5)]
  have wf: "wf_Node ?b" using assms(1) fields by (simp add: wf_Node_def)
  obtain f where f: "DiskLogEntry (NodeContextInstance ?b) = Some f" using b by (auto simp: disk_ok_def split: option.splits)
  have b': "disk_ok pb ?b" "LastBackupIndex (NodeContextInstance ?b) = node_commit n" using b by blast+
  from NewNode_restart [of ?b pb f "node_commit n", unfolded fields, OF wf b'(1) f b'(2) refl assms(4,5,6,8,7,9,10,11), of now] f
  show ?thesis by blast
qed

theorem backup_then_restart_witness:
  "\<exists>f n'. DiskLogEntry (NodeContextInstance (backupProcedure ex_pb (ex_node 1 [2, 3] Leader 2 1))) = Some f \<and>
     NewNode ex_pb (Inr (ex_config 1 [2, 3])) None (Inr f) 0 = Inr n' \<and> StateMapDLock n' = ex_locks \<and> node_commit n' = 1"
proof -
  have "wf_Config (ex_config 1 [2, 3])"
    by (simp add: wf_Config_def ex_config_def slice_def parameter_fields_def ex_params_def)
  with backup_then_restart [of "ex_node 1 [2, 3] Leader 2 1" ex_pb, OF _ ex_node_disk _ _ _ ex_maps]
    ex_maps_replayed ex_pb_roundtrip show ?thesis by fastforce
qed

text \<open>
  C30. A stored log is read back as it was: writing a well-formed log to an empty file and reloading
  the file into an empty log gives the same log, for an entry codec that decodes what it encoded.
\<close>

theorem log_roundtrip:
  assumes "wf_LogMemory lm" "contiguous lm" "1 \<le> maximumIndex lm"
    and "\<forall>i e. logInMemory lm i = Some e \<longrightarrow> pb_roundtrip pb (le_Entry e)"
  shows "\<exists>n w m. StoreLogMemory pb lm 1 (maximumIndex lm) \<lparr>f_bytes = [], f_room = None\<rparr> = (Inr n, w) \<and>
    LogReload pb NewLogMemory (f_bytes w) 0 = (Inr m, lm)"
  by (rule StoreLogMemory_LogReload [OF assms])

theorem log_roundtrip_witness:
  "\<exists>n w m. StoreLogMemory ex_pb ex_log 1 2 \<lparr>f_bytes = [], f_room = None\<rparr> = (Inr n, w) \<and>
     LogReload ex_pb NewLogMemory (f_bytes w) 0 = (Inr m, ex_log)"
  using log_roundtrip [of ex_log ex_pb] ex_pb_roundtrip by simp

text \<open>
  C31. Commands survive their encoding: what a lock command or a key-value command was made from is
  what decoding its JSON content gives back, for names that are valid UTF-8, and the command is rebuilt
  from its name and its content.
\<close>

theorem command_roundtrip:
  assumes "valid_utf8 name" "valid_utf8 owner"
  shows "GetAsDLockInfo (NewCommandDLock nonce name owner ts ex) =
      Inr \<lparr>li_LockNonce = nonce, li_LockName = name, li_NewOwner = owner, li_Timestamp = ts, li_Expire = ex\<rparr> \<and>
    GetAsKVStore (NewCommandKVStore name v) = Inr (Some \<lparr>kv_Key = name, kv_Value = v\<rparr>) \<and>
    wf_command (CommandDLock (NewCommandDLock nonce name owner ts ex)) \<and> wf_command (CommandKVStore (NewCommandKVStore name v))"
proof -
  have "GetAsKVStore (NewCommandKVStore name v) = Inr (Some \<lparr>kv_Key = name, kv_Value = v\<rparr>)"
    using unmarshal_marshal_KeyValue [of "\<lparr>kv_Key = name, kv_Value = v\<rparr>"] assms(1)
    by (simp add: GetAsKVStore_def NewCommandKVStore_def valid_KeyValue_def SetCommandContent_def SetCommandName_def)
  then show ?thesis using GetAsDLockInfo_NewCommandDLock [OF assms] by simp
qed

theorem command_roundtrip_witness:
  "GetAsDLockInfo (NewCommandDLock 7 ex_lock ex_bob 100 50) =
     Inr \<lparr>li_LockNonce = 7, li_LockName = ex_lock, li_NewOwner = ex_bob, li_Timestamp = 100, li_Expire = 50\<rparr>"
  using command_roundtrip [of ex_lock ex_bob] by simp

section \<open>Configuration\<close>

text \<open>
  C32. A configuration that is accepted is usable: no identifier is zero, every peer has an address
  for peers and one for clients, and every parameter has a value, its default if the file gives
  none.
\<close>

theorem config_accepted_usable:
  assumes "NewNodeConfigFromYaml yaml readFile = Inr c"
  shows "SelfId c \<noteq> 0 \<and> 0 \<notin> set (PeerId c) \<and> length (PeerAddress c) = length (PeerId c) \<and>
    length (PeerCliAddress c) = length (PeerId c) \<and>
    HeartBeatInterval (Params c) \<noteq> 0 \<and> AppendEntriesTimeout (Params c) \<noteq> 0 \<and> MinWaitTimeCandidate (Params c) \<noteq> 0 \<and>
    MaxWaitTimeCandidate (Params c) \<noteq> 0 \<and> MaxLogUnitsRecover (Params c) \<noteq> 0 \<and> LogBackupInterval (Params c) \<noteq> 0 \<and>
    PollingInterval (Params c) \<noteq> 0 \<and> StateChangeTimeout (Params c) \<noteq> 0 \<and> AcquirementExpire (Params c) \<noteq> 0"
  using NewNodeConfigFromYaml_wf [OF assms] by (simp add: wf_Config_def parameter_fields_def)

theorem config_accepted_usable_witness:
  "\<exists>c. NewNodeConfigFromYaml (\<lambda>_. Inr (Some ((ex_config 1 [2, 3])\<lparr>Params := ex_params\<lparr>HeartBeatInterval := 0\<rparr>\<rparr>))) (Inr []) = Inr c \<and>
     HeartBeatInterval (Params c) \<noteq> 0"
proof -
  obtain c where "NewNodeConfigFromYaml (\<lambda>_. Inr (Some ((ex_config 1 [2, 3])\<lparr>Params := ex_params\<lparr>HeartBeatInterval := 0\<rparr>\<rparr>))) (Inr []) = Inr c"
    by (simp add: NewNodeConfigFromYaml_def check_NodeConfig_def fill_NodeConfig_def ex_config_def slice_def structByReflect_defaults Let_def
        split: if_splits)
  with config_accepted_usable show ?thesis by blast
qed

text \<open>
  C33. Election timeouts are drawn from the configured range: if the minimum is below the maximum,
  the timeout is a number of milliseconds from the minimum, included, to the maximum, excluded; it
  does not overflow. If the two are equal the call panics.
\<close>

theorem election_timeout_range:
  shows "(MinWaitTimeCandidate (Params c) < MaxWaitTimeCandidate (Params c) \<longrightarrow>
      (\<exists>m. RandomElectionTimeout r c = Inr (word_of_int (m * 1000000)) \<and> uint (MinWaitTimeCandidate (Params c)) \<le> m \<and>
         m < uint (MaxWaitTimeCandidate (Params c)) \<and> sint (word_of_int (m * 1000000) :: i64) = m * 1000000)) \<and>
    (MinWaitTimeCandidate (Params c) = MaxWaitTimeCandidate (Params c) \<longrightarrow> RandomElectionTimeout r c = Inl (GoPanic InvalidIntn))"
proof -
  let ?min = "MinWaitTimeCandidate (Params c)" and ?max = "MaxWaitTimeCandidate (Params c)"
  have "\<exists>m. RandomElectionTimeout r c = Inr (word_of_int (m * 1000000)) \<and> uint ?min \<le> m \<and> m < uint ?max \<and>
      sint (word_of_int (m * 1000000) :: i64) = m * 1000000" if lt: "?min < ?max"
  proof -
    define b where "b = unat (?max - ?min)"
    have le: "?min \<le> ?max" using lt by simp
    then have "int b = int (unat ?max) - int (unat ?min)"
      unfolding b_def unat_sub [OF le] by (simp only: of_nat_diff word_le_nat_alt)
    then have b: "int b = uint ?max - uint ?min" by simp
    then have "b \<noteq> 0" using lt by (simp add: word_less_def)
    define m where "m = uint ?min + int (r mod b)"
    have "r mod b < b" using \<open>b \<noteq> 0\<close> by simp
    then have range: "uint ?min \<le> m" "m < uint ?max" using b by (simp_all add: m_def)
    have "uint ?max < 4294967296" using uint_bounded [of ?max] by simp
    moreover have "0 \<le> uint ?min" by (rule uint_ge_0)
    ultimately have "0 \<le> m" "m < 4294967296" using range by linarith+
    then have "0 \<le> m * 1000000" "m * 1000000 < 2 ^ 63" by simp_all
    then have "sint (word_of_int (m * 1000000) :: i64) = m * 1000000"
      by (subst signed_of_int) (simp add: signed_take_bit_int_eq_self)
    moreover have "RandomElectionTimeout r c = Inr (word_of_int (m * 1000000))"
      using \<open>b \<noteq> 0\<close> by (simp add: RandomElectionTimeout_def Let_def m_def flip: b_def)
    ultimately show ?thesis using range by blast
  qed
  then show ?thesis by (auto simp: RandomElectionTimeout_def Let_def)
qed

theorem election_timeout_range_witness:
  "\<exists>m. RandomElectionTimeout 7 (ex_config 1 [2, 3]) = Inr (word_of_int (m * 1000000)) \<and> 150 \<le> m \<and> m < 300"
  using election_timeout_range [of "ex_config 1 [2, 3]" 7] by (auto simp: ex_params_def)

section \<open>The logger\<close>

text \<open>
  C34. What a logger writes. After a template of texts and placeholders has been set, a message whose
  level passes the filter is written as one line in which every placeholder is replaced by its
  value, with the colors of the level if the logger is colored; a message below the level of the
  logger writes nothing. Both count. The line must not contain the mark by which the code recognizes
  superfluous arguments.
\<close>

theorem template_logged:
  assumes "\<forall>p \<in> set ps. good_piece p" "Field ''%{message}'' \<in> set ps" "logLevelString lvl = Inr level"
    and "mn_prefix (w_Minion (l_worker l)) = []" "mn_flag (w_Minion (l_worker l)) = 0" "f_room (mn_out (w_Minion (l_worker l))) = None"
  shows "\<exists>l'. Logger_SetFormat defaults (template ps) l = Some l' \<and>
    (let msg = concat (map (piece_text (log_info env lvl message (k + 1) l') level) ps)
     in LastIndex msg ''%!(EXTRA'' = None \<longrightarrow>
        (\<exists>l''. Logger_Log env lvl message (k, l') = Some (Returns, k + 1, l'') \<and>
           f_bytes (mn_out (w_Minion (l_worker l''))) = f_bytes (mn_out (w_Minion (l_worker l))) @
             (if i64_less (w_level (l_worker l)) lvl then [] else log_line lvl (w_Color (l_worker l)) msg)))"
proof -
  let ?w = "(l_worker l)\<lparr>w_format := concat (map piece_verb ps), w_timeFormat := fold piece_layout ps (snd defaults)\<rparr>"
  let ?l = "l\<lparr>l_worker := ?w\<rparr>"
  define r where "r = log_info env lvl message (k + 1) ?l"
  define msg where "msg = concat (map (piece_text r level) ps)"
  have len: "10 \<le> length (template ps)" using template_length [OF assms(2)] by simp
  have set: "Logger_SetFormat defaults (template ps) l = Some ?l"
    using parseFormat_template [OF assms(1) len, of defaults]
    by (simp add: Logger_SetFormat_def Worker_SetFormat_def)
  have "\<exists>l''. Logger_Log env lvl message (k, ?l) = Some (Returns, k + 1, l'') \<and>
      f_bytes (mn_out (w_Minion (l_worker l''))) = f_bytes (mn_out (w_Minion (l_worker l))) @
        (if i64_less (w_level (l_worker l)) lvl then [] else log_line lvl (w_Color (l_worker l)) msg)"
    if extra: "LastIndex msg ''%!(EXTRA'' = None"
  proof (cases "i64_less (w_level (l_worker l)) lvl")
    case True
    then show ?thesis using log_filtered [of ?l lvl env message k] by (simp add: Logger_Log_def log_then_def)
  next
    case False
    have "\<exists>p \<in> set ps. \<not> is_text p" using assms(2) by force
    then have "Info_Output (w_format ?w) r = Inr (Some msg)"
      using Info_Output_template [OF assms(1), of r level] assms(3) extra by (simp add: msg_def r_def log_info_def)
    with log_written [of ?l lvl env message k msg] False assms(4-6) show ?thesis
      by (simp add: r_def Logger_Log_def log_then_def)
  qed
  with set show ?thesis by (auto simp: Let_def msg_def r_def)
qed

theorem template_logged_witness:
  "\<exists>l l''. New (defFmt, defTimeFmt) \<lparr>f_bytes = [], f_room = None\<rparr> [ArgInt 0] = Inr l \<and>
     map_option (Logger_Log ex_env InfoLevel ''up'') (map_option (Pair 6) (Logger_SetFormat (defFmt, defTimeFmt) ''%{lvl}: %{message}'' l)) =
       Some (Some (Returns, 7, l'')) \<and>
     f_bytes (mn_out (w_Minion (l_worker l''))) = ''INF: up'' @ [CHR 0x0A]"
proof -
  define l where "l = (\<lparr>l_Module = ''DEFAULT'', l_worker = Worker_SetLogLevel InfoLevel (NewWorker (defFmt, defTimeFmt) [] 0 0
      \<lparr>f_bytes = [], f_room = None\<rparr>)\<rparr> :: Logger)"
  let ?ps = "[Field ''%{lvl}'', Text '': '', Field ''%{message}'']"
  have new: "New (defFmt, defTimeFmt) \<lparr>f_bytes = [], f_room = None\<rparr> [ArgInt 0] = Inr l" by (simp add: New_def l_def)
  have msg: "concat (map (piece_text (log_info ex_env InfoLevel ''up'' k l') ''INFO'') ?ps) = ''INF: up''" for k l'
    by (simp add: field_text_def log_info_def)
  have "logLevelString InfoLevel = Inr ''INFO''" by (simp add: logLevelString_def InfoLevel_def)
  from template_logged [OF _ _ this, of ?ps l "(defFmt, defTimeFmt)" ex_env "''up''" 6]
  obtain l' l'' where "Logger_SetFormat (defFmt, defTimeFmt) (template ?ps) l = Some l'"
      "Logger_Log ex_env InfoLevel ''up'' (6, l') = Some (Returns, 7, l'')"
      "f_bytes (mn_out (w_Minion (l_worker l''))) = log_line InfoLevel 0 ''INF: up''"
    unfolding msg by (auto simp: l_def NewWorker_def Worker_SetLogLevel_def placeholders_def has_prefix_def)
  then show ?thesis using new by (auto simp: template_def log_line_def)
qed

text \<open>
  C35. When setting a log format returns: the parser of templates returns if the last two bytes of
  the template have no percent sign, and it runs forever on a template of ten bytes or more that
  ends in one.
\<close>

theorem template_parsing:
  "(CHR ''%'' \<notin> set (drop (length format - 2) format) \<longrightarrow>
      (\<exists>msgfmt timefmt. parseFormat defaults format = Some (msgfmt, timefmt))) \<and>
   (10 \<le> length format \<and> last format = CHR ''%'' \<longrightarrow> parseFormat defaults format = None)"
  using parseFormat_ends [of format defaults] parseFormat_stuck [of format defaults] by auto

theorem template_parsing_witness:
  "(\<exists>msgfmt timefmt. parseFormat (defFmt, defTimeFmt) ''%{level} %{message}'' = Some (msgfmt, timefmt)) \<and>
   parseFormat (defFmt, defTimeFmt) ''%{message}: 100%'' = None"
  using template_parsing [of "''%{level} %{message}''"] template_parsing [of "''%{message}: 100%''"] by simp

section \<open>Where the code falls short\<close>

text \<open>
  C36. A nonce that does not fit stops the lock map for good: when replaying the newly committed
  entries fails, the map stays behind the applied index of the node, and from then on applying
  committed entries changes no lock any more.
\<close>

theorem failed_replay_stops_lock_map:
  assumes "wf_Node n" "LastAppliedIndex (NodeContextInstance n) < node_commit n"
    and "prevIndex (StateMapDLock n) = LastAppliedIndex (NodeContextInstance n)"
    and "sorted (prevTerm (StateMapDLock n) #
           map le_Term (log_range (LogEntryInMemory n) (LastAppliedIndex (NodeContextInstance n) + 1) (node_commit n)))"
    and "lock_replay (log_range (LogEntryInMemory n) (LastAppliedIndex (NodeContextInstance n) + 1) (node_commit n))
           (abs_locks (StateMapDLock n)) = None"
  shows "lock_map_behind (commitProcedure n) \<and>
    (\<forall>m. StateMapDLock m = StateMapDLock (commitProcedure n) \<longrightarrow>
       LastAppliedIndex (NodeContextInstance (commitProcedure n)) \<le> LastAppliedIndex (NodeContextInstance m) \<longrightarrow>
       StateMapDLock (commitProcedure m) = StateMapDLock m)"
proof -
  have behind: "lock_map_behind (commitProcedure n)"
    using UpdateStateFromLogMemory_DLock_refines [of "LogEntryInMemory n" "StateMapDLock n" "node_commit n"]
      wf_NodeD [OF assms(1)] assms(2-5)
    by (auto simp: lock_map_behind_def commitProcedure_DLock)
  then have "StateMapDLock (commitProcedure m) = StateMapDLock m"
    if "StateMapDLock m = StateMapDLock (commitProcedure n)"
      "LastAppliedIndex (NodeContextInstance (commitProcedure n)) \<le> LastAppliedIndex (NodeContextInstance m)" for m
    using that by (intro behind_commitProcedure(1)) (auto simp: lock_map_behind_def)
  with behind show ?thesis by blast
qed

theorem failed_replay_stops_lock_map_witness:
  "lock_map_behind (commitProcedure (upd_ctx (\<lambda>nc. nc\<lparr>CommitIndex := 2\<rparr>) ((ex_node 1 [2, 3] Leader 2 1)\<lparr>LogEntryInMemory := ex_gap_log\<rparr>)))"
proof -
  let ?n = "upd_ctx (\<lambda>nc. nc\<lparr>CommitIndex := 2\<rparr>) ((ex_node 1 [2, 3] Leader 2 1)\<lparr>LogEntryInMemory := ex_gap_log\<rparr>)"
  have r: "log_range ex_gap_log 2 2 = [ex_entry 2 2 (ex_info 3 ex_bob 200 50)]" by (simp add: log_range_last)
  have "lock_replay (log_range ex_gap_log 2 2) [ex_lock \<mapsto> state_of_info ex_info1] = None"
    unfolding r by (simp add: lock_accepts_def ex_state1) (simp add: ex_info_def)
  with failed_replay_stops_lock_map [of ?n] r show ?thesis by (simp add: wf_Node_def)
qed

text \<open>
  C37. A follower may commit entries the leader never sent it: when the commit index of the leader
  is behind the last entry of the request and the follower has entries of its own there, these
  stay in its log and the new commit index includes them.
\<close>

theorem stale_suffix_committed:
  assumes "wf_Node n" "maximumIndex (LogEntryInMemory n) \<noteq> - 1"
    and "AppendEntriesService now request n = (Inr resp, n')" "aer_Success resp"
    and "numbered (aeq_PrevEntryIndex request + 1) (aeq_EntryList request)"
      "unat (aeq_PrevEntryIndex request) + 1 + length (aeq_EntryList request) < 2 ^ 64"
    and "unat (aeq_PrevEntryIndex request) + length (aeq_EntryList request) < unat j"
      "j \<le> aeq_CommitEntryIndex request" "j \<le> maximumIndex (LogEntryInMemory n)" "node_commit n < j"
  shows "j \<le> node_commit n' \<and> logInMemory (LogEntryInMemory n') j = logInMemory (LogEntryInMemory n) j"
proof -
  obtain les where les: "LogEntryInMemory n' = foldl put_entry (LogEntryInMemory n) les"
      "node_commit n' = (if node_commit n < aeq_CommitEntryIndex request
         then Uint64Min (aeq_CommitEntryIndex request) (maximumIndex (LogEntryInMemory n')) else node_commit n)"
    using AppendEntriesService_success [OF assms(3,4)] by metis
  have "maximumIndex (LogEntryInMemory n) \<le> maximumIndex (LogEntryInMemory n')" unfolding les(1) by (rule mem.top_put_all_ge)
  then have "j \<le> node_commit n'" using assms(8-10) les(2) by (auto simp: Uint64Min_def)
  then show ?thesis using AppendEntriesService_log(3) [OF assms(1-6), of j] assms(7) by simp
qed

theorem stale_suffix_committed_witness:
  "\<exists>resp n'. AppendEntriesService 0 ex_stale (ex_node 2 [1, 3] Follower 2 0) = (Inr resp, n') \<and> 2 \<le> node_commit n' \<and>
     logInMemory (LogEntryInMemory n') 2 = Some (ex_entry 2 2 ex_info2)"
proof -
  obtain resp n' where r: "AppendEntriesService 0 ex_stale (ex_node 2 [1, 3] Follower 2 0) = (Inr resp, n')" "aer_Success resp"
    using ex_stale_accepted by blast
  have "numbered (aeq_PrevEntryIndex ex_stale + 1) (aeq_EntryList ex_stale)" by (simp add: numbered_def ex_stale_def)
  from stale_suffix_committed [OF _ _ r this, of 2] r(1) show ?thesis by (simp add: ex_stale_def)
qed

text \<open>
  C38. An answer of a vote request that carries a term newer than that of its election but older
  than the current one takes the node back to the older term and forgets its vote.
\<close>

theorem stale_answer_lowers_term:
  assumes "node_state n = Candidate" "savedCurrentTerm el < cvr_Term response" "cvr_Term response < node_term n"
    and "CandidateVote_response order now peer response n el = (n', el')"
  shows "node_term n' < node_term n \<and> VotedPeer (NodeContextInstance n') = 0 \<and> node_state n' = Follower"
  using assms by (auto simp: CandidateVote_response_def)

theorem stale_answer_lowers_term_witness:
  "\<exists>n' el'. CandidateVote_response [] 0 2 \<lparr>cvr_Term = 4, cvr_NodeId = 2, cvr_Accepted = False\<rparr>
      (ex_node 1 [2, 3] Candidate 5 1) \<lparr>savedCurrentTerm = 3, collectedVote = 1, voteMap = (\<lambda>i. i = 1)\<rparr> = (n', el') \<and>
    node_term n' < 5 \<and> VotedPeer (NodeContextInstance n') = 0"
proof -
  let ?r = "\<lparr>cvr_Term = 4, cvr_NodeId = 2, cvr_Accepted = False\<rparr> :: CandidateVotesResponse"
    and ?el = "\<lparr>savedCurrentTerm = 3, collectedVote = 1, voteMap = (\<lambda>i. i = 1)\<rparr> :: Election"
  obtain n' el' where r: "CandidateVote_response [] 0 2 ?r (ex_node 1 [2, 3] Candidate 5 1) ?el = (n', el')" by fastforce
  from stale_answer_lowers_term [OF _ _ _ r] r show ?thesis by simp
qed



text \<open>
  C40. The release service keeps the mutex on its error path: the first call gives it back exactly
  when the release operation did not fail.
\<close>

theorem release_error_keeps_mutex:
  assumes "node_state n = Leader" "DlockInterchangeInstance n = Some di"
    and "ReleaseDLock lockName clientId ts (Lock n) di = (r1, n1, di1)"
  shows "mutex (snd (ReleaseDLock_begin r ts lockName clientId n)) \<longleftrightarrow>
    (case r1 of Inl _ \<Rightarrow> True | Inr (info, _) \<Rightarrow> info = ErrorReserve)"
  by (rule ReleaseDLock_begin_mutex [OF assms])

theorem release_error_keeps_mutex_witness:
  "mutex (snd (ReleaseDLock_begin 0 120 ex_lock ex_alice (ex_leader \<lparr>LeaderTerm = 2, PendingAcquire = Map.empty\<rparr>)))"
proof -
  let ?di = "\<lparr>LeaderTerm = 2, PendingAcquire = Map.empty\<rparr> :: DlockInterchange"
  have "QuerySpecificState_DLock ex_locks ex_lock = Inr (state_of_info ex_info1)"
    using QuerySpecificState_abs [OF ex_locks_wf, of ex_lock] by simp
  then have "ReleaseDLock ex_lock ex_alice 120 (Lock (ex_leader ?di)) ?di = (Inl EmptyDLockVolatileAcquirementError, Lock (ex_leader ?di), ?di)"
    by (simp add: ReleaseDLock_def Let_def commitProcedure_Lock ex_state1)
  from release_error_keeps_mutex [OF _ _ this, of 0] show ?thesis by simp
qed

end
